(* ===== verification/Razion_Prelude.thy ===== *)
theory Razion_Prelude
  imports Main "HOL-Library.Word" "HOL-Library.Monad_Syntax"
begin

text \<open>
  Shared vocabulary of the development: the machine types of the kernel, the fault monad, the
  error numbers the modelled code returns, and the generic facts on lists, options, maps and
  words that the component theories use.

  A C function that may dereference a bad pointer, divide by zero or leave its buffer has a
  result of type \<open>'a option\<close>: \<open>None\<close> is the fault (the kernel would take an unhandled page or
  divide fault), \<open>Some\<close> a normal return.  A function that returns a negated errno keeps the
  integer it returns, so error paths stay values.
\<close>

section \<open>Machine types\<close>

type_synonym u8 = "8 word"
type_synonym u16 = "16 word"
type_synonym u32 = "32 word"
type_synonym u64 = "64 word"

text \<open>Addresses are 64-bit words and \<open>NULL\<close> is the zero word, as on both supported targets.\<close>

type_synonym addr = "64 word"

abbreviation (input) NULL :: addr where "NULL \<equiv> 0"

section \<open>Named collections\<close>

named_theorems fault_simps \<open>rewriting of the fault monad on states where no fault happens\<close>
named_theorems frame_simps \<open>what an update leaves alone\<close>
named_theorems abs_simps \<open>equations of the abstraction functions\<close>

section \<open>Error numbers (bits/errno.h)\<close>

abbreviation (input) EPERM :: int where "EPERM \<equiv> 1"
abbreviation (input) ENOENT :: int where "ENOENT \<equiv> 2"
abbreviation (input) ESRCH :: int where "ESRCH \<equiv> 3"
abbreviation (input) EINTR :: int where "EINTR \<equiv> 4"
abbreviation (input) EBADF :: int where "EBADF \<equiv> 9"
abbreviation (input) ECHILD :: int where "ECHILD \<equiv> 10"
abbreviation (input) EACCES :: int where "EACCES \<equiv> 13"
abbreviation (input) EFAULT :: int where "EFAULT \<equiv> 14"
abbreviation (input) EEXIST :: int where "EEXIST \<equiv> 17"
abbreviation (input) EXDEV :: int where "EXDEV \<equiv> 18"
abbreviation (input) ENODEV :: int where "ENODEV \<equiv> 19"
abbreviation (input) ENOTDIR :: int where "ENOTDIR \<equiv> 20"
abbreviation (input) EISDIR :: int where "EISDIR \<equiv> 21"
abbreviation (input) EINVAL :: int where "EINVAL \<equiv> 22"
abbreviation (input) ENOTTY :: int where "ENOTTY \<equiv> 25"
abbreviation (input) EROFS :: int where "EROFS \<equiv> 30"
abbreviation (input) EPIPE :: int where "EPIPE \<equiv> 32"
abbreviation (input) ELOOP :: int where "ELOOP \<equiv> 92"
abbreviation (input) ENOTSUP :: int where "ENOTSUP \<equiv> 134"
abbreviation (input) ERESTARTSYS :: int where "ERESTARTSYS \<equiv> 512"


section \<open>Generic lemmas\<close>

lemma bind_Some_iff [fault_simps]:
  "Option.bind m f = Some y \<longleftrightarrow> (\<exists>x. m = Some x \<and> f x = Some y)"
  by (cases m) auto

text \<open>
  A list of distinct non-null addresses is shorter than the address space, so a 64-bit length
  field can count it without wrapping.
\<close>

lemma distinct_addr_length:
  assumes "distinct (xs :: addr list)" and "NULL \<notin> set xs"
  shows "length xs < 2 ^ 64"
proof -
  have "set xs \<subset> UNIV" using assms(2) by auto
  then have "card (set xs) < card (UNIV :: addr set)"
    by (rule psubset_card_mono [OF finite])
  then show ?thesis using assms(1) by (simp add: distinct_card card_word)
qed

lemma of_nat_length_0_iff:
  assumes "distinct (xs :: addr list)" and "NULL \<notin> set xs"
  shows "(of_nat (length xs) :: u64) = 0 \<longleftrightarrow> xs = []"
  using distinct_addr_length [OF assms] by (simp add: word_of_nat_eq_0_iff nat_dvd_not_less) (auto dest: nat_dvd_not_less)

lemma unat_of_nat_64: "n < 2 ^ 64 \<Longrightarrow> unat (of_nat n :: u64) = n"
  by (simp add: unat_of_nat)

end
