(* ===== verification/Klist.thy ===== *)
theory Klist
  imports Razion_Prelude
begin

text \<open>
  The kernel's doubly-linked list, \<^verbatim>\<open>src/kernel/misc/list.c\<close> with its header
  \<^verbatim>\<open>base/usr/include/kernel/list.h\<close>.

  Lists are pointer structures that share their nodes with other kernel objects (the scheduler
  embeds its nodes in \<^verbatim>\<open>process_t\<close>), so the model is an explicit store: a map from addresses to
  nodes and one from addresses to list headers.  Every read or write goes through \<open>rd_node\<close>,
  \<open>upd_node\<close>, \<open>rd_list\<close> or \<open>upd_list\<close>, which fault on \<open>NULL\<close> and on addresses that hold no
  object.  An operation that calls \<^verbatim>\<open>malloc\<close> takes the address \<^verbatim>\<open>malloc\<close> returned as its last
  argument.  A loop that follows \<^verbatim>\<open>next\<close> pointers is a \<open>partial_function (option)\<close>: on a cyclic
  structure the C loop does not end and the model has no result.

  \<open>is_list h l ns\<close> is the representation invariant (the header at \<open>l\<close> and the nodes \<open>ns\<close> form a
  well-linked list), and each operation refines the corresponding operation on \<open>ns\<close>.
\<close>

section \<open>Data\<close>

record node_t =
  node_next :: addr
  node_prev :: addr
  node_value :: addr
  node_owner :: addr

record list_t =
  l_head :: addr
  l_tail :: addr
  l_length :: u64
  l_name :: string
  l_metadata :: addr

record kheap =
  nodes :: "addr \<rightharpoonup> node_t"
  lists :: "addr \<rightharpoonup> list_t"

definition rd_node :: "kheap \<Rightarrow> addr \<Rightarrow> node_t option" where
  "rd_node h p = (if p = NULL then None else nodes h p)"

definition upd_node :: "addr \<Rightarrow> (node_t \<Rightarrow> node_t) \<Rightarrow> kheap \<Rightarrow> kheap option" where
  "upd_node p f h =
     (case rd_node h p of None \<Rightarrow> None | Some n \<Rightarrow> Some (h\<lparr>nodes := (nodes h)(p \<mapsto> f n)\<rparr>))"

definition rd_list :: "kheap \<Rightarrow> addr \<Rightarrow> list_t option" where
  "rd_list h l = (if l = NULL then None else lists h l)"

definition upd_list :: "addr \<Rightarrow> (list_t \<Rightarrow> list_t) \<Rightarrow> kheap \<Rightarrow> kheap option" where
  "upd_list l f h =
     (case rd_list h l of None \<Rightarrow> None | Some L \<Rightarrow> Some (h\<lparr>lists := (lists h)(l \<mapsto> f L)\<rparr>))"

text \<open>\<^verbatim>\<open>malloc(sizeof(node_t))\<close> followed by the stores of the four fields; a null result faults.\<close>

definition new_node :: "addr \<Rightarrow> node_t \<Rightarrow> kheap \<Rightarrow> kheap option" where
  "new_node a n h = (if a = NULL then None else Some (h\<lparr>nodes := (nodes h)(a \<mapsto> n)\<rparr>))"

definition free_node :: "addr \<Rightarrow> kheap \<Rightarrow> kheap" where
  "free_node a h = h\<lparr>nodes := (nodes h)(a := None)\<rparr>"

definition free_list :: "addr \<Rightarrow> kheap \<Rightarrow> kheap" where
  "free_list a h = h\<lparr>lists := (lists h)(a := None)\<rparr>"

section \<open>Operations\<close>

definition list_append :: "kheap \<Rightarrow> addr \<Rightarrow> addr \<Rightarrow> kheap option" where
  "list_append h l node = do {
     h \<leftarrow> upd_node node (node_next_update (\<lambda>_. NULL)) h;
     h \<leftarrow> upd_node node (node_owner_update (\<lambda>_. l)) h;
     L \<leftarrow> rd_list h l;
     if l_length L = 0 then do {
       h \<leftarrow> upd_list l (l_head_update (\<lambda>_. node)) h;
       h \<leftarrow> upd_list l (l_tail_update (\<lambda>_. node)) h;
       h \<leftarrow> upd_node node (node_prev_update (\<lambda>_. NULL)) h;
       h \<leftarrow> upd_node node (node_next_update (\<lambda>_. NULL)) h;
       upd_list l (l_length_update (\<lambda>n. n + 1)) h
     } else do {
       h \<leftarrow> upd_node (l_tail L) (node_next_update (\<lambda>_. node)) h;
       h \<leftarrow> upd_node node (node_prev_update (\<lambda>_. l_tail L)) h;
       h \<leftarrow> upd_list l (l_tail_update (\<lambda>_. node)) h;
       upd_list l (l_length_update (\<lambda>n. n + 1)) h
     }
   }"

definition list_insert :: "kheap \<Rightarrow> addr \<Rightarrow> addr \<Rightarrow> addr \<Rightarrow> (kheap \<times> addr) option" where
  "list_insert h l item a = do {
     h \<leftarrow> new_node a \<lparr>node_next = NULL, node_prev = NULL, node_value = item, node_owner = NULL\<rparr> h;
     h \<leftarrow> list_append h l a;
     Some (h, a)
   }"

definition list_append_after :: "kheap \<Rightarrow> addr \<Rightarrow> addr \<Rightarrow> addr \<Rightarrow> kheap option" where
  "list_append_after h l before node = do {
     h \<leftarrow> upd_node node (node_owner_update (\<lambda>_. l)) h;
     L \<leftarrow> rd_list h l;
     if l_length L = 0 then list_append h l node
     else if before = NULL then do {
       h \<leftarrow> upd_node node (node_next_update (\<lambda>_. l_head L)) h;
       h \<leftarrow> upd_node node (node_prev_update (\<lambda>_. NULL)) h;
       h \<leftarrow> upd_node (l_head L) (node_prev_update (\<lambda>_. node)) h;
       h \<leftarrow> upd_list l (l_head_update (\<lambda>_. node)) h;
       upd_list l (l_length_update (\<lambda>n. n + 1)) h
     } else do {
       h \<leftarrow> (if before = l_tail L then upd_list l (l_tail_update (\<lambda>_. node)) h
             else do {
               b \<leftarrow> rd_node h before;
               h \<leftarrow> upd_node (node_next b) (node_prev_update (\<lambda>_. node)) h;
               upd_node node (node_next_update (\<lambda>_. node_next b)) h
             });
       h \<leftarrow> upd_node node (node_prev_update (\<lambda>_. before)) h;
       h \<leftarrow> upd_node before (node_next_update (\<lambda>_. node)) h;
       upd_list l (l_length_update (\<lambda>n. n + 1)) h
     }
   }"

definition list_insert_after :: "kheap \<Rightarrow> addr \<Rightarrow> addr \<Rightarrow> addr \<Rightarrow> addr \<Rightarrow> (kheap \<times> addr) option" where
  "list_insert_after h l before item a = do {
     h \<leftarrow> new_node a \<lparr>node_next = NULL, node_prev = NULL, node_value = item, node_owner = NULL\<rparr> h;
     h \<leftarrow> list_append_after h l before a;
     Some (h, a)
   }"

definition list_append_before :: "kheap \<Rightarrow> addr \<Rightarrow> addr \<Rightarrow> addr \<Rightarrow> kheap option" where
  "list_append_before h l after node = do {
     h \<leftarrow> upd_node node (node_owner_update (\<lambda>_. l)) h;
     L \<leftarrow> rd_list h l;
     if l_length L = 0 then list_append h l node
     else if after = NULL then do {
       h \<leftarrow> upd_node node (node_next_update (\<lambda>_. NULL)) h;
       h \<leftarrow> upd_node node (node_prev_update (\<lambda>_. l_tail L)) h;
       h \<leftarrow> upd_node (l_tail L) (node_next_update (\<lambda>_. node)) h;
       h \<leftarrow> upd_list l (l_tail_update (\<lambda>_. node)) h;
       upd_list l (l_length_update (\<lambda>n. n + 1)) h
     } else do {
       h \<leftarrow> (if after = l_head L then upd_list l (l_head_update (\<lambda>_. node)) h
             else do {
               b \<leftarrow> rd_node h after;
               h \<leftarrow> upd_node (node_prev b) (node_next_update (\<lambda>_. node)) h;
               upd_node node (node_prev_update (\<lambda>_. node_prev b)) h
             });
       h \<leftarrow> upd_node node (node_next_update (\<lambda>_. after)) h;
       h \<leftarrow> upd_node after (node_prev_update (\<lambda>_. node)) h;
       upd_list l (l_length_update (\<lambda>n. n + 1)) h
     }
   }"

definition list_insert_before :: "kheap \<Rightarrow> addr \<Rightarrow> addr \<Rightarrow> addr \<Rightarrow> addr \<Rightarrow> (kheap \<times> addr) option" where
  "list_insert_before h l after item a = do {
     h \<leftarrow> new_node a \<lparr>node_next = NULL, node_prev = NULL, node_value = item, node_owner = NULL\<rparr> h;
     h \<leftarrow> list_append_before h l after a;
     Some (h, a)
   }"

definition list_create :: "kheap \<Rightarrow> string \<Rightarrow> addr \<Rightarrow> addr \<Rightarrow> (kheap \<times> addr) option" where
  "list_create h name metadata a =
     (if a = NULL then None
      else Some (h\<lparr>lists := (lists h)(a \<mapsto> \<lparr>l_head = NULL, l_tail = NULL, l_length = 0,
                                          l_name = name, l_metadata = metadata\<rparr>)\<rparr>, a))"

partial_function (option) list_find_from :: "kheap \<Rightarrow> addr \<Rightarrow> addr \<Rightarrow> addr option" where
  "list_find_from h item v =
     (if item = NULL then Some NULL
      else do {
        n \<leftarrow> rd_node h item;
        if node_value n = v then Some item else list_find_from h (node_next n) v
      })"

definition list_find :: "kheap \<Rightarrow> addr \<Rightarrow> addr \<Rightarrow> addr option" where
  "list_find h l v = do { L \<leftarrow> rd_list h l; list_find_from h (l_head L) v }"

partial_function (option) list_index_of_from :: "kheap \<Rightarrow> addr \<Rightarrow> addr \<Rightarrow> int \<Rightarrow> int option" where
  "list_index_of_from h item v i =
     (if item = NULL then Some (- 1)
      else do {
        n \<leftarrow> rd_node h item;
        if node_value n = v then Some i else list_index_of_from h (node_next n) v (i + 1)
      })"

definition list_index_of :: "kheap \<Rightarrow> addr \<Rightarrow> addr \<Rightarrow> int option" where
  "list_index_of h l v = do { L \<leftarrow> rd_list h l; list_index_of_from h (l_head L) v 0 }"

partial_function (option) list_index_from :: "kheap \<Rightarrow> addr \<Rightarrow> int \<Rightarrow> int \<Rightarrow> addr option" where
  "list_index_from h item index i =
     (if item = NULL then Some NULL
      else do {
        n \<leftarrow> rd_node h item;
        if i = index then Some (node_value n) else list_index_from h (node_next n) index (i + 1)
      })"

definition list_index :: "kheap \<Rightarrow> addr \<Rightarrow> int \<Rightarrow> addr option" where
  "list_index h l index = do { L \<leftarrow> rd_list h l; list_index_from h (l_head L) index 0 }"

definition list_delete :: "kheap \<Rightarrow> addr \<Rightarrow> addr \<Rightarrow> kheap option" where
  "list_delete h l node = do {
     L \<leftarrow> rd_list h l;
     h \<leftarrow> (if node = l_head L
           then do { n \<leftarrow> rd_node h node; upd_list l (l_head_update (\<lambda>_. node_next n)) h }
           else Some h);
     h \<leftarrow> (if node = l_tail L
           then do { n \<leftarrow> rd_node h node; upd_list l (l_tail_update (\<lambda>_. node_prev n)) h }
           else Some h);
     n \<leftarrow> rd_node h node;
     h \<leftarrow> (if node_prev n \<noteq> NULL
           then upd_node (node_prev n) (node_next_update (\<lambda>_. node_next n)) h else Some h);
     n \<leftarrow> rd_node h node;
     h \<leftarrow> (if node_next n \<noteq> NULL
           then upd_node (node_next n) (node_prev_update (\<lambda>_. node_prev n)) h else Some h);
     h \<leftarrow> upd_node node (node_prev_update (\<lambda>_. NULL)) h;
     h \<leftarrow> upd_node node (node_next_update (\<lambda>_. NULL)) h;
     h \<leftarrow> upd_node node (node_owner_update (\<lambda>_. NULL)) h;
     upd_list l (l_length_update (\<lambda>k. k - 1)) h
   }"

fun list_walk :: "kheap \<Rightarrow> addr \<Rightarrow> nat \<Rightarrow> addr option" where
  "list_walk h n 0 = Some n"
| "list_walk h n (Suc k) = do { x \<leftarrow> rd_node h n; list_walk h (node_next x) k }"

definition list_remove :: "kheap \<Rightarrow> addr \<Rightarrow> u64 \<Rightarrow> kheap option" where
  "list_remove h l index = do {
     L \<leftarrow> rd_list h l;
     if index > l_length L then Some h
     else do {
       n \<leftarrow> list_walk h (l_head L) (unat index);
       list_delete h l n
     }
   }"

definition list_pop :: "kheap \<Rightarrow> addr \<Rightarrow> (kheap \<times> addr) option" where
  "list_pop h l = do {
     L \<leftarrow> rd_list h l;
     if l_tail L = NULL then Some (h, NULL)
     else do { h' \<leftarrow> list_delete h l (l_tail L); Some (h', l_tail L) }
   }"

definition list_dequeue :: "kheap \<Rightarrow> addr \<Rightarrow> (kheap \<times> addr) option" where
  "list_dequeue h l = do {
     L \<leftarrow> rd_list h l;
     if l_head L = NULL then Some (h, NULL)
     else do { h' \<leftarrow> list_delete h l (l_head L); Some (h', l_head L) }
   }"

text \<open>
  \<^verbatim>\<open>list_copy\<close> never advances its cursor: each round inserts the same value again.  The addresses
  the calls of \<^verbatim>\<open>malloc\<close> return are a stream \<open>as\<close> indexed by the round.
\<close>

partial_function (option) list_copy_loop ::
    "kheap \<Rightarrow> addr \<Rightarrow> addr \<Rightarrow> (nat \<Rightarrow> addr) \<Rightarrow> nat \<Rightarrow> kheap option" where
  "list_copy_loop h out node as i =
     (if node = NULL then Some h
      else do {
        n \<leftarrow> rd_node h node;
        (h', _) \<leftarrow> list_insert h out (node_value n) (as i);
        list_copy_loop h' out node as (Suc i)
      })"

definition list_copy :: "kheap \<Rightarrow> addr \<Rightarrow> addr \<Rightarrow> (nat \<Rightarrow> addr) \<Rightarrow> (kheap \<times> addr) option" where
  "list_copy h original a as = do {
     L \<leftarrow> rd_list h original;
     (h, out) \<leftarrow> list_create h (l_name L) (l_metadata L) a;
     L \<leftarrow> rd_list h original;
     h \<leftarrow> list_copy_loop h out (l_head L) as 0;
     Some (h, out)
   }"

partial_function (option) list_merge_owner :: "kheap \<Rightarrow> addr \<Rightarrow> addr \<Rightarrow> kheap option" where
  "list_merge_owner h node target =
     (if node = NULL then Some h
      else do {
        h \<leftarrow> upd_node node (node_owner_update (\<lambda>_. target)) h;
        n \<leftarrow> rd_node h node;
        list_merge_owner h (node_next n) target
      })"

definition list_merge :: "kheap \<Rightarrow> addr \<Rightarrow> addr \<Rightarrow> kheap option" where
  "list_merge h target source = do {
     S \<leftarrow> rd_list h source;
     h \<leftarrow> list_merge_owner h (l_head S) target;
     T \<leftarrow> rd_list h target;
     h \<leftarrow> (if l_head S \<noteq> NULL
           then upd_node (l_head S) (node_prev_update (\<lambda>_. l_tail T)) h else Some h);
     h \<leftarrow> (if l_tail T \<noteq> NULL
           then upd_node (l_tail T) (node_next_update (\<lambda>_. l_head S)) h
           else upd_list target (l_head_update (\<lambda>_. l_head S)) h);
     S \<leftarrow> rd_list h source;
     h \<leftarrow> (if l_tail S \<noteq> NULL
           then upd_list target (l_tail_update (\<lambda>_. l_tail S)) h else Some h);
     S \<leftarrow> rd_list h source;
     h \<leftarrow> upd_list target (l_length_update (\<lambda>k. k + l_length S)) h;
     Some (free_list source h)
   }"

text \<open>
  \<^verbatim>\<open>list_destroy\<close> passes every value to \<^verbatim>\<open>free\<close>: the model returns those pointers, in order.
  \<^verbatim>\<open>list_free\<close> frees the nodes and leaves the header as it is.
\<close>

partial_function (option) list_destroy_from :: "kheap \<Rightarrow> addr \<Rightarrow> addr list option" where
  "list_destroy_from h n =
     (if n = NULL then Some []
      else do {
        x \<leftarrow> rd_node h n;
        vs \<leftarrow> list_destroy_from h (node_next x);
        Some (node_value x # vs)
      })"

definition list_destroy :: "kheap \<Rightarrow> addr \<Rightarrow> addr list option" where
  "list_destroy h l = do { L \<leftarrow> rd_list h l; list_destroy_from h (l_head L) }"

partial_function (option) list_free_from :: "kheap \<Rightarrow> addr \<Rightarrow> kheap option" where
  "list_free_from h n =
     (if n = NULL then Some h
      else do {
        x \<leftarrow> rd_node h n;
        list_free_from (free_node n h) (node_next x)
      })"

definition list_free :: "kheap \<Rightarrow> addr \<Rightarrow> kheap option" where
  "list_free h l = do { L \<leftarrow> rd_list h l; list_free_from h (l_head L) }"

section \<open>Representation invariant\<close>

text \<open>
  \<open>lseg N l p as q\<close>: the nodes \<open>as\<close> are linked one after the other in the node store \<open>N\<close> and
  owned by list \<open>l\<close>; \<open>p\<close> is the predecessor of the first one and \<open>q\<close> the successor of the last.
\<close>

definition hdp :: "addr list \<Rightarrow> addr \<Rightarrow> addr" where
  "hdp as q = (case as of [] \<Rightarrow> q | a # _ \<Rightarrow> a)"

definition lastp :: "addr \<Rightarrow> addr list \<Rightarrow> addr" where
  "lastp p as = (if as = [] then p else last as)"

fun lseg :: "(addr \<rightharpoonup> node_t) \<Rightarrow> addr \<Rightarrow> addr \<Rightarrow> addr list \<Rightarrow> addr \<Rightarrow> bool" where
  "lseg N l p [] q = True"
| "lseg N l p (a # as) q =
     (a \<noteq> NULL \<and>
      (case N a of None \<Rightarrow> False
       | Some n \<Rightarrow> node_prev n = p \<and> node_next n = hdp as q \<and> node_owner n = l) \<and>
      lseg N l a as q)"

definition is_list :: "kheap \<Rightarrow> addr \<Rightarrow> addr list \<Rightarrow> bool" where
  "is_list h l ns \<longleftrightarrow>
     (case rd_list h l of None \<Rightarrow> False
      | Some L \<Rightarrow> distinct ns \<and> lseg (nodes h) l NULL ns NULL \<and> l_head L = hdp ns NULL \<and>
          l_tail L = lastp NULL ns \<and> l_length L = of_nat (length ns))"

text \<open>The values a list stores, in order.\<close>

definition values_of :: "kheap \<Rightarrow> addr list \<Rightarrow> addr list" where
  "values_of h ns = map (\<lambda>a. case nodes h a of None \<Rightarrow> NULL | Some n \<Rightarrow> node_value n) ns"

text \<open>
  What an operation on list \<open>l\<close> may touch: the links of the nodes in \<open>S\<close> and the header of \<open>l\<close>.
  It never changes the value a node carries.
\<close>

definition frame :: "kheap \<Rightarrow> kheap \<Rightarrow> addr \<Rightarrow> addr set \<Rightarrow> bool" where
  "frame h h' l S \<longleftrightarrow>
     (\<forall>p. p \<notin> S \<longrightarrow> nodes h' p = nodes h p) \<and>
     (\<forall>m. m \<noteq> l \<longrightarrow> lists h' m = lists h m) \<and>
     (\<forall>p. map_option node_value (nodes h' p) = map_option node_value (nodes h p))"

lemma hdp_simps [simp]:
  "hdp [] q = q" "hdp (a # as) q = a" "hdp (as @ bs) q = hdp as (hdp bs q)"
  by (auto simp: hdp_def split: list.split)

lemma lastp_simps [simp]:
  "lastp p [] = p" "lastp p (as @ [a]) = a" "lastp p (a # as) = lastp a as"
  "lastp p (as @ bs) = lastp (lastp p as) bs"
  by (auto simp: lastp_def)

lemma lseg_append [simp]:
  "lseg N l p (as @ bs) q \<longleftrightarrow> lseg N l p as (hdp bs q) \<and> lseg N l (lastp p as) bs q"
  by (induction as arbitrary: p) (auto split: option.splits)

lemma lseg_upd_other [simp]: "a \<notin> set as \<Longrightarrow> lseg (N(a := x)) l p as q = lseg N l p as q"
  by (induction as arbitrary: p) auto

lemma lseg_not_null: "lseg N l p as q \<Longrightarrow> NULL \<notin> set as"
  by (induction as arbitrary: p) auto

lemma lseg_in_store: "lseg N l p as q \<Longrightarrow> a \<in> set as \<Longrightarrow> \<exists>n. N a = Some n \<and> node_owner n = l"
  by (induction as arbitrary: p) (auto split: option.splits)

lemma lseg_cong: "(\<And>a. a \<in> set as \<Longrightarrow> N a = M a) \<Longrightarrow> lseg N l p as q = lseg M l p as q"
  by (induction as arbitrary: p) auto

lemma hdp_null: "NULL \<notin> set as \<Longrightarrow> hdp as NULL = NULL \<longleftrightarrow> as = []"
  by (cases as) auto

lemma lastp_null: "NULL \<notin> set as \<Longrightarrow> lastp NULL as = NULL \<longleftrightarrow> as = []"
  by (auto simp: lastp_def) (metis last_in_set)

lemma is_listE:
  assumes "is_list h l ns"
  obtains L where "rd_list h l = Some L" "lists h l = Some L" "l \<noteq> NULL" "distinct ns"
    "lseg (nodes h) l NULL ns NULL" "NULL \<notin> set ns" "l_head L = hdp ns NULL"
    "l_tail L = lastp NULL ns" "l_length L = of_nat (length ns)" "l_length L = 0 \<longleftrightarrow> ns = []"
proof -
  from assms obtain L where L: "rd_list h l = Some L" "distinct ns"
    "lseg (nodes h) l NULL ns NULL" "l_head L = hdp ns NULL"
    "l_tail L = lastp NULL ns" "l_length L = of_nat (length ns)"
    by (auto simp: is_list_def split: option.splits)
  have nn: "NULL \<notin> set ns" using L(3) by (rule lseg_not_null)
  have "lists h l = Some L" "l \<noteq> NULL" using L(1) by (auto simp: rd_list_def split: if_splits)
  moreover have "l_length L = 0 \<longleftrightarrow> ns = []"
    using L(6) of_nat_length_0_iff [OF L(2) nn] by simp
  ultimately show thesis using that L nn by blast
qed

lemma is_listI:
  assumes "l \<noteq> NULL" "lists h l = Some L" "distinct ns" "lseg (nodes h) l NULL ns NULL"
    "l_head L = hdp ns NULL" "l_tail L = lastp NULL ns" "l_length L = of_nat (length ns)"
  shows "is_list h l ns"
  using assms by (simp add: is_list_def rd_list_def)

lemma is_list_node:
  assumes "is_list h l ns" and "a \<in> set ns"
  shows "\<exists>n. nodes h a = Some n \<and> node_owner n = l"
  using assms by (auto elim!: is_listE dest: lseg_in_store)

text \<open>A list whose header and nodes lie outside the footprint of an operation is not disturbed.\<close>

lemma is_list_frame:
  assumes "is_list h m ms" and "frame h h' l S" and "m \<noteq> l" and "set ms \<inter> S = {}"
  shows "is_list h' m ms"
proof -
  from assms(1) obtain L where L: "rd_list h m = Some L" "lists h m = Some L" "m \<noteq> NULL"
    "distinct ms" "lseg (nodes h) m NULL ms NULL" "l_head L = hdp ms NULL"
    "l_tail L = lastp NULL ms" "l_length L = of_nat (length ms)"
    by (auto elim!: is_listE)
  have "lseg (nodes h') m NULL ms NULL = lseg (nodes h) m NULL ms NULL"
    using assms(2,4) by (intro lseg_cong) (auto simp: frame_def)
  then show ?thesis using L assms(2,3) by (intro is_listI [of _ _ L]) (auto simp: frame_def)
qed

lemma values_of_cong:
  assumes "\<And>a. map_option node_value (nodes h' a) = map_option node_value (nodes h a)"
  shows "values_of h' ns = values_of h ns"
proof -
  have "(case nodes h' a of None \<Rightarrow> NULL | Some n \<Rightarrow> node_value n) =
             (case nodes h a of None \<Rightarrow> NULL | Some n \<Rightarrow> node_value n)" for a
    using assms [of a] by (cases "nodes h a"; cases "nodes h' a") auto
  then show ?thesis by (simp add: values_of_def)
qed


lemma values_of_frame: "frame h h' l S \<Longrightarrow> values_of h' ns = values_of h ns"
  by (rule values_of_cong) (simp add: frame_def)

lemmas heap_defs = rd_node_def upd_node_def rd_list_def upd_list_def new_node_def

section \<open>Specifications of the operations\<close>

lemma frameI:
  assumes "\<And>p. p \<notin> S \<Longrightarrow> nodes h' p = nodes h p" "\<And>m. m \<noteq> l \<Longrightarrow> lists h' m = lists h m"
    "\<And>p. map_option node_value (nodes h' p) = map_option node_value (nodes h p)"
  shows "frame h h' l S"
  using assms by (simp add: frame_def)

lemma list_append_spec:
  assumes "is_list h l ns" "nodes h node = Some n0" "node \<noteq> NULL" "node \<notin> set ns"
  shows "\<exists>h'. list_append h l node = Some h' \<and> is_list h' l (ns @ [node]) \<and>
           frame h h' l (insert node (set ns))"
proof -
  from assms(1) obtain L where L: "rd_list h l = Some L" "lists h l = Some L" "l \<noteq> NULL" "distinct ns"
    "lseg (nodes h) l NULL ns NULL" "NULL \<notin> set ns" "l_head L = hdp ns NULL"
    "l_tail L = lastp NULL ns" "l_length L = of_nat (length ns)" "l_length L = 0 \<longleftrightarrow> ns = []"
    by (rule is_listE)
  show ?thesis
  proof (cases ns rule: rev_cases)
    case Nil
    then show ?thesis using L assms
      by (auto simp: list_append_def heap_defs split: if_splits intro!: is_listI frameI)
  next
    case (snoc as t)
    from snoc L(5) obtain nt where nt: "nodes h t = Some nt" "node_prev nt = lastp NULL as"
      "node_next nt = NULL" "node_owner nt = l"
      by (auto split: option.splits)
    show ?thesis using L assms snoc nt
      by (auto simp: list_append_def heap_defs add.commute split: if_splits intro!: is_listI frameI)
  qed
qed

lemma list_append_after_spec:
  assumes "is_list h l (as @ b # bs)" "nodes h node = Some n0" "node \<noteq> NULL" "node \<notin> set (as @ b # bs)"
    "node_next n0 = NULL"
  shows "\<exists>h'. list_append_after h l b node = Some h' \<and> is_list h' l (as @ b # node # bs) \<and>
           frame h h' l (insert node (set (as @ b # bs)))"
proof -
  from assms(1) obtain L where L: "rd_list h l = Some L" "lists h l = Some L" "l \<noteq> NULL" "distinct (as @ b # bs)"
    "lseg (nodes h) l NULL (as @ b # bs) NULL" "NULL \<notin> set (as @ b # bs)" "l_head L = hdp (as @ b # bs) NULL"
    "l_tail L = lastp NULL (as @ b # bs)" "l_length L = of_nat (length (as @ b # bs))" 
    "l_length L \<noteq> 0"
    by (rule is_listE) auto
  show ?thesis
  proof (cases bs)
    case Nil
    then show ?thesis using L assms
      by (auto simp: list_append_after_def heap_defs split: option.splits if_splits intro!: is_listI frameI)
  next
    case (Cons c cs)
    have "last bs \<noteq> b" using L(4) Cons by auto
    then have ne: "b \<noteq> lastp c cs" using Cons by (simp add: lastp_def)
    from Cons L(5) obtain nb nc where nb: "nodes h b = Some nb" "node_prev nb = lastp NULL as"
      "node_next nb = c" "node_owner nb = l" "nodes h c = Some nc" "node_prev nc = b" "node_next nc = hdp cs NULL"
      "node_owner nc = l"
      by (auto split: option.splits)
    show ?thesis using L assms Cons nb ne
      by (auto simp: list_append_after_def heap_defs split: option.splits if_splits intro!: is_listI frameI)
  qed
qed
lemma list_append_before_spec:
  assumes "is_list h l (as @ b # bs)" "nodes h node = Some n0" "node \<noteq> NULL" "node \<notin> set (as @ b # bs)"
    "node_prev n0 = NULL"
  shows "\<exists>h'. list_append_before h l b node = Some h' \<and> is_list h' l (as @ node # b # bs) \<and>
           frame h h' l (insert node (set (as @ b # bs)))"
proof -
  from assms(1) obtain L where L: "rd_list h l = Some L" "lists h l = Some L" "l \<noteq> NULL" "distinct (as @ b # bs)"
    "lseg (nodes h) l NULL (as @ b # bs) NULL" "NULL \<notin> set (as @ b # bs)" "l_head L = hdp (as @ b # bs) NULL"
    "l_tail L = lastp NULL (as @ b # bs)" "l_length L = of_nat (length (as @ b # bs))" 
    "l_length L \<noteq> 0"
    by (rule is_listE) auto
  show ?thesis
  proof (cases as rule: rev_cases)
    case Nil
    then show ?thesis using L assms
      by (auto simp: list_append_before_def heap_defs split: option.splits if_splits intro!: is_listI frameI)
  next
    case (snoc cs c)
    have "hd as \<noteq> b" using L(4) snoc by (cases cs) auto
    then have ne: "b \<noteq> hdp cs c" using snoc by (cases cs) auto
    from snoc L(5) obtain nb nc where nb: "nodes h b = Some nb" "node_prev nb = c"
      "node_next nb = hdp bs NULL" "node_owner nb = l" "nodes h c = Some nc" "node_next nc = b" "node_prev nc = lastp NULL cs"
      "node_owner nc = l"
      by (auto split: option.splits)
    show ?thesis using L assms snoc nb ne
      by (auto simp: list_append_before_def heap_defs split: option.splits if_splits intro!: is_listI frameI)
  qed
qed

lemma list_delete_spec:
  assumes "is_list h l (as @ a # bs)"
  shows "\<exists>h'. list_delete h l a = Some h' \<and> is_list h' l (as @ bs) \<and>
           frame h h' l (set (as @ a # bs)) \<and>
           (\<exists>n. nodes h' a = Some n \<and> node_next n = NULL \<and> node_prev n = NULL \<and> node_owner n = NULL)"
proof -
  from assms(1) obtain L where L: "rd_list h l = Some L" "lists h l = Some L" "l \<noteq> NULL" "distinct (as @ a # bs)"
    "lseg (nodes h) l NULL (as @ a # bs) NULL" "NULL \<notin> set (as @ a # bs)" "l_head L = hdp (as @ a # bs) NULL"
    "l_tail L = lastp NULL (as @ a # bs)" "l_length L = of_nat (length (as @ a # bs))" 
    by (rule is_listE) auto
  from L(5) obtain na where na: "nodes h a = Some na" "node_prev na = lastp NULL as"
      "node_next na = hdp bs NULL" "node_owner na = l"
    by (auto split: option.splits)
  show ?thesis
  proof (cases as rule: rev_cases)
    case Nil
    then show ?thesis
    proof (cases bs)
      case Nil
      with \<open>as = []\<close> show ?thesis using L assms na
        by (auto simp: list_delete_def heap_defs split: option.splits if_splits intro!: is_listI frameI)
    next
      case (Cons c cs)
      then have "lastp c cs \<noteq> a" using L(4) by (auto simp: lastp_def)
      with Cons \<open>as = []\<close> show ?thesis using L assms na
        by (auto simp: list_delete_def heap_defs split: option.splits if_splits intro!: is_listI frameI)
    qed
  next
    case (snoc ds d)
    have ne: "a \<noteq> hdp ds d" using snoc L(4) by (cases ds) auto
    show ?thesis
    proof (cases bs)
      case Nil
      with snoc ne show ?thesis using L assms na
        by (auto simp: list_delete_def heap_defs split: option.splits if_splits intro!: is_listI frameI)
    next
      case (Cons c cs)
      then have "lastp c cs \<noteq> a" using L(4) by (auto simp: lastp_def)
      with Cons snoc ne show ?thesis using L assms na
        by (auto simp: list_delete_def heap_defs split: option.splits if_splits intro!: is_listI frameI)
    qed
  qed
qed

lemma list_append_after_head_spec:
  assumes "is_list h l ns" "nodes h node = Some n0" "node \<noteq> NULL" "node \<notin> set ns"
  shows "\<exists>h'. list_append_after h l NULL node = Some h' \<and> is_list h' l (node # ns) \<and>
           frame h h' l (insert node (set ns))"
proof (cases ns)
  case Nil
  let ?h = "h\<lparr>nodes := (nodes h)(node \<mapsto> n0\<lparr>node_owner := l\<rparr>)\<rparr>"
  have "is_list ?h l []" using assms Nil by (auto elim!: is_listE intro!: is_listI)
  then obtain h' where h': "list_append ?h l node = Some h'" "is_list h' l [node]" "frame ?h h' l {node}"
    using list_append_spec [of ?h l "[]" node "n0\<lparr>node_owner := l\<rparr>"] assms by auto
  have "list_append_after h l NULL node = list_append ?h l node"
    using assms Nil by (auto elim!: is_listE simp: list_append_after_def heap_defs)
  with h' Nil assms show ?thesis by (auto simp: frame_def split: if_splits)
next
  case (Cons c cs)
  from assms(1) obtain L where L: "rd_list h l = Some L" "lists h l = Some L" "l \<noteq> NULL" "distinct ns"
    "lseg (nodes h) l NULL ns NULL" "NULL \<notin> set ns" "l_head L = hdp ns NULL"
    "l_tail L = lastp NULL ns" "l_length L = of_nat (length ns)" "l_length L \<noteq> 0"
    using Cons by (auto elim!: is_listE)
  then show ?thesis using assms Cons
    by (auto simp: list_append_after_def heap_defs split: option.splits if_splits intro!: is_listI frameI)
qed

lemma hdp_nonempty: "as \<noteq> [] \<Longrightarrow> hdp as q = hd as"
  by (cases as) auto

lemma is_list_last: "is_list h l (as @ [a]) \<Longrightarrow> \<exists>L. rd_list h l = Some L \<and> l_tail L = a \<and> a \<noteq> NULL"
  by (auto elim!: is_listE)

lemma is_list_first: "is_list h l (a # as) \<Longrightarrow> \<exists>L. rd_list h l = Some L \<and> l_head L = a \<and> a \<noteq> NULL"
  by (auto elim!: is_listE)

lemma list_pop_spec:
  assumes "is_list h l (as @ [a])"
  shows "\<exists>h'. list_pop h l = Some (h', a) \<and> is_list h' l as \<and> frame h h' l (set (as @ [a])) \<and>
           (\<exists>n. nodes h' a = Some n \<and> node_next n = NULL \<and> node_prev n = NULL \<and> node_owner n = NULL)"
  using list_delete_spec [of h l as a "[]"] is_list_last [OF assms] assms
  by (auto simp: list_pop_def)

lemma list_pop_empty: "is_list h l [] \<Longrightarrow> list_pop h l = Some (h, NULL)"
  by (auto simp: list_pop_def elim!: is_listE)

lemma list_dequeue_spec:
  assumes "is_list h l (a # as)"
  shows "\<exists>h'. list_dequeue h l = Some (h', a) \<and> is_list h' l as \<and> frame h h' l (set (a # as)) \<and>
           (\<exists>n. nodes h' a = Some n \<and> node_next n = NULL \<and> node_prev n = NULL \<and> node_owner n = NULL)"
  using list_delete_spec [of h l "[]" a as] is_list_first [OF assms] assms
  by (auto simp: list_dequeue_def)

lemma list_dequeue_empty: "is_list h l [] \<Longrightarrow> list_dequeue h l = Some (h, NULL)"
  by (auto simp: list_dequeue_def elim!: is_listE)

lemma list_find_from_seg:
  "lseg (nodes h) l p ns NULL \<Longrightarrow> list_find_from h (hdp ns NULL) v =
     Some (case find (\<lambda>a. map_option node_value (nodes h a) = Some v) ns of None \<Rightarrow> NULL | Some a \<Rightarrow> a)"
proof (induction ns arbitrary: p)
  case Nil
  then show ?case by (simp add: list_find_from.simps)
next
  case (Cons a ns)
  then show ?case
    by (subst list_find_from.simps) (auto simp: rd_node_def split: option.splits)
qed

lemma list_index_of_from_seg:
  "lseg (nodes h) l p ns NULL \<Longrightarrow> list_index_of_from h (hdp ns NULL) v i =
     Some (case List.extract (\<lambda>w. w = v) (values_of h ns) of None \<Rightarrow> - 1 | Some (xs, _, _) \<Rightarrow> i + int (length xs))"
proof (induction ns arbitrary: p i)
  case Nil
  then show ?case by (simp add: list_index_of_from.simps values_of_def extract_Nil_code)
next
  case (Cons a ns)
  then show ?case
    by (subst list_index_of_from.simps)
       (auto simp: rd_node_def values_of_def extract_Cons_code split: option.splits)
qed

lemma list_index_from_seg:
  "lseg (nodes h) l p ns NULL \<Longrightarrow> list_index_from h (hdp ns NULL) (i + k) i =
     Some (if 0 \<le> k \<and> nat k < length ns then values_of h ns ! nat k else NULL)"
proof (induction ns arbitrary: p i k)
  case Nil
  then show ?case by (simp add: list_index_from.simps)
next
  case (Cons a ns)
  obtain n where n: "nodes h a = Some n" "node_next n = hdp ns NULL" "a \<noteq> NULL"
    using Cons.prems by (auto split: option.splits)
  have IH: "list_index_from h (hdp ns NULL) (i + k) (i + 1) =
     Some (if 0 \<le> k - 1 \<and> nat (k - 1) < length ns then values_of h ns ! nat (k - 1) else NULL)"
    using Cons.IH [of a "i + 1" "k - 1"] Cons.prems by (simp add: algebra_simps)
  show ?case
  proof (cases "k = 0")
    case True
    then show ?thesis using n
      by (subst list_index_from.simps) (simp add: rd_node_def values_of_def)
  next
    case False
    have "nat k = Suc (nat (k - 1))" if "0 < k" using that by simp
    then show ?thesis using n IH False
      by (subst list_index_from.simps) (auto simp: rd_node_def values_of_def)
  qed
qed

lemma list_walk_seg:
  "lseg (nodes h) l p (as @ bs) NULL \<Longrightarrow> list_walk h (hdp (as @ bs) NULL) (length as) = Some (hdp bs NULL)"
  by (induction as arbitrary: p) (auto simp: rd_node_def split: option.splits)

lemma list_remove_spec:
  assumes "is_list h l (as @ a # bs)"
  shows "list_remove h l (of_nat (length as)) = list_delete h l a"
proof -
  from assms obtain L where L: "rd_list h l = Some L" "distinct (as @ a # bs)" "NULL \<notin> set (as @ a # bs)"
    "lseg (nodes h) l NULL (as @ a # bs) NULL" "l_head L = hdp (as @ a # bs) NULL"
    "l_length L = of_nat (length (as @ a # bs))"
    by (rule is_listE)
  have len: "length (as @ a # bs) < 2 ^ 64" using L(2,3) by (rule distinct_addr_length)
  have u: "unat (of_nat (length as) :: u64) = length as"
    using len by (simp add: unat_of_nat)
  have "unat (l_length L) = length (as @ a # bs)"
    unfolding L(6) using len by (rule unat_of_nat_64)
  then have "\<not> (of_nat (length as) :: u64) > l_length L"
    using u by (simp add: word_less_nat_alt)
  then show ?thesis
    using L u list_walk_seg [OF L(4)] by (simp add: list_remove_def)
qed

lemma list_remove_end_faults:
  assumes "is_list h l ns"
  shows "list_remove h l (of_nat (length ns)) = None"
proof -
  from assms obtain L where L: "rd_list h l = Some L" "distinct ns" "NULL \<notin> set ns"
    "lseg (nodes h) l NULL ns NULL" "l_head L = hdp ns NULL" "l_length L = of_nat (length ns)"
    by (rule is_listE)
  have len: "length ns < 2 ^ 64" using L(2,3) by (rule distinct_addr_length)
  have u: "unat (of_nat (length ns) :: u64) = length ns"
    using len by (simp add: unat_of_nat)
  have "list_walk h (hdp ns NULL) (length ns) = Some NULL"
    using list_walk_seg [of h l NULL ns "[]"] L(4) by simp
  then have "list_remove h l (of_nat (length ns)) = list_delete h l NULL"
    using L u by (simp add: list_remove_def)
  moreover have "list_delete h l NULL = None"
    by (auto simp: list_delete_def rd_node_def bind_eq_None_conv)
  ultimately show ?thesis by simp
qed
lemma list_merge_owner_seg:
  "lseg (nodes h) s p ns NULL \<Longrightarrow> distinct ns \<Longrightarrow>
   \<exists>h'. list_merge_owner h (hdp ns NULL) t = Some h' \<and> lseg (nodes h') t p ns NULL \<and>
        lists h' = lists h \<and> (\<forall>a. a \<notin> set ns \<longrightarrow> nodes h' a = nodes h a) \<and>
        (\<forall>a. map_option node_value (nodes h' a) = map_option node_value (nodes h a))"
proof (induction ns arbitrary: p h)
  case Nil
  then show ?case by (simp add: list_merge_owner.simps)
next
  case (Cons a ns)
  from Cons.prems obtain n where n: "nodes h a = Some n" "node_prev n = p" "node_next n = hdp ns NULL"
    "node_owner n = s" "a \<noteq> NULL" "a \<notin> set ns" "distinct ns"
    by (auto split: option.splits)
  let ?h = "h\<lparr>nodes := (nodes h)(a \<mapsto> n\<lparr>node_owner := t\<rparr>)\<rparr>"
  have "lseg (nodes ?h) s a ns NULL" using Cons.prems n by simp
  from Cons.IH [OF this n(7)] obtain h' where h': "list_merge_owner ?h (hdp ns NULL) t = Some h'"
    "lseg (nodes h') t a ns NULL" "lists h' = lists ?h" "\<forall>b. b \<notin> set ns \<longrightarrow> nodes h' b = nodes ?h b"
    "\<forall>b. map_option node_value (nodes h' b) = map_option node_value (nodes ?h b)"
    by blast
  have "list_merge_owner h (hdp (a # ns) NULL) t = Some h'"
    using n h'(1) by (subst list_merge_owner.simps) (simp add: heap_defs)
  then show ?case using n h' by (intro exI [of _ h']) auto
qed

text \<open>Relinking the front of one segment and the back of another.\<close>

lemma relink_prev:
  assumes "lseg (nodes g) l p ss NULL" "distinct ss"
  shows "\<exists>g'. (if hdp ss NULL \<noteq> NULL then upd_node (hdp ss NULL) (node_prev_update (\<lambda>_. p')) g else Some g) = Some g' \<and>
    lseg (nodes g') l p' ss NULL \<and> lists g' = lists g \<and> (\<forall>a. a \<notin> set ss \<longrightarrow> nodes g' a = nodes g a) \<and>
    (\<forall>a. map_option node_value (nodes g' a) = map_option node_value (nodes g a))"
proof (cases ss)
  case (Cons c cs)
  with assms show ?thesis by (auto simp: heap_defs split: option.splits)
qed simp

lemma relink_next:
  assumes "lseg (nodes g) l p ts NULL" "distinct ts" "ts \<noteq> []"
  shows "\<exists>g'. upd_node (lastp p ts) (node_next_update (\<lambda>_. q)) g = Some g' \<and>
    lseg (nodes g') l p ts q \<and> lists g' = lists g \<and> (\<forall>a. a \<notin> set ts \<longrightarrow> nodes g' a = nodes g a) \<and>
    (\<forall>a. map_option node_value (nodes g' a) = map_option node_value (nodes g a))"
proof (cases ts rule: rev_cases)
  case (snoc us u)
  with assms show ?thesis by (auto simp: heap_defs split: option.splits)
qed (use assms in simp)

lemma list_merge_spec:
  assumes "is_list h t ts" "is_list h s ss" "t \<noteq> s" "set ts \<inter> set ss = {}"
  shows "\<exists>h'. list_merge h t s = Some h' \<and> is_list h' t (ts @ ss) \<and> lists h' s = None \<and>
           values_of h' (ts @ ss) = values_of h ts @ values_of h ss \<and>
           (\<forall>a. a \<notin> set ts \<union> set ss \<longrightarrow> nodes h' a = nodes h a) \<and> (\<forall>m. m \<noteq> t \<and> m \<noteq> s \<longrightarrow> lists h' m = lists h m) \<and>
           (\<forall>a. map_option node_value (nodes h' a) = map_option node_value (nodes h a))"
proof -
  from assms(1) obtain T where T: "rd_list h t = Some T" "lists h t = Some T" "t \<noteq> NULL" "distinct ts"
    "lseg (nodes h) t NULL ts NULL" "NULL \<notin> set ts" "l_head T = hdp ts NULL"
    "l_tail T = lastp NULL ts" "l_length T = of_nat (length ts)"
    by (rule is_listE)
  from assms(2) obtain S where S: "rd_list h s = Some S" "lists h s = Some S" "s \<noteq> NULL" "distinct ss"
    "lseg (nodes h) s NULL ss NULL" "NULL \<notin> set ss" "l_head S = hdp ss NULL"
    "l_tail S = lastp NULL ss" "l_length S = of_nat (length ss)"
    by (rule is_listE)
  from list_merge_owner_seg [OF S(5) S(4)] obtain g where g:
    "list_merge_owner h (hdp ss NULL) t = Some g" "lseg (nodes g) t NULL ss NULL" "lists g = lists h"
    "\<forall>a. a \<notin> set ss \<longrightarrow> nodes g a = nodes h a"
    "\<forall>a. map_option node_value (nodes g a) = map_option node_value (nodes h a)"
    by blast
  have gt: "lseg (nodes g) t NULL ts NULL"
    using T(5) lseg_cong [of ts "nodes g" "nodes h"] g(4) assms(4) by blast
  from relink_prev [OF g(2) S(4), of "lastp NULL ts"] obtain g1 where g1:
    "(if hdp ss NULL \<noteq> NULL then upd_node (hdp ss NULL) (node_prev_update (\<lambda>_. lastp NULL ts)) g
      else Some g) = Some g1"
    "lseg (nodes g1) t (lastp NULL ts) ss NULL" "lists g1 = lists h"
    "\<forall>a. a \<notin> set ss \<longrightarrow> nodes g1 a = nodes g a"
    "\<forall>a. map_option node_value (nodes g1 a) = map_option node_value (nodes g a)"
    using g(3) by auto
  have ts1: "lseg (nodes g1) t NULL ts NULL"
    using T(5) lseg_cong [of ts "nodes g1" "nodes h"] g(4) g1(4) assms(4) by (metis disjoint_iff)
  define T' where "T' = (if ts = [] then T\<lparr>l_head := hdp ss NULL\<rparr> else T)"
  have "\<exists>g2. (if lastp NULL ts \<noteq> NULL then upd_node (lastp NULL ts) (node_next_update (\<lambda>_. hdp ss NULL)) g1
       else upd_list t (l_head_update (\<lambda>_. hdp ss NULL)) g1) = Some g2 \<and>
     lseg (nodes g2) t NULL (ts @ ss) NULL \<and> lists g2 = (lists h)(t \<mapsto> T') \<and>
     (\<forall>a. map_option node_value (nodes g2 a) = map_option node_value (nodes h a)) \<and>
     (\<forall>a. a \<notin> set ts \<union> set ss \<longrightarrow> nodes g2 a = nodes h a)"
  proof (cases "ts = []")
    case True
    then show ?thesis using T g g1 by (auto simp: heap_defs T'_def)
  next
    case False
    from relink_next [OF ts1 T(4) False, of "hdp ss NULL"] obtain g2 where g2:
      "upd_node (lastp NULL ts) (node_next_update (\<lambda>_. hdp ss NULL)) g1 = Some g2"
      "lseg (nodes g2) t NULL ts (hdp ss NULL)" "lists g2 = lists g1" "\<forall>a. a \<notin> set ts \<longrightarrow> nodes g2 a = nodes g1 a"
      "\<forall>a. map_option node_value (nodes g2 a) = map_option node_value (nodes g1 a)"
      by blast
    have "lseg (nodes g2) t (lastp NULL ts) ss NULL"
      using g1(2) lseg_cong [of ss "nodes g2" "nodes g1"] g2(4) assms(4) by (metis disjoint_iff)
    moreover have "\<forall>a. a \<notin> set ts \<union> set ss \<longrightarrow> nodes g2 a = nodes h a" using g2(4) g1(4) g(4) by simp
    ultimately show ?thesis using g2(1,2,3,5) g1(3,5) g(5) T(2) False lastp_null [OF T(6)]
      by (intro exI [of _ g2]) (auto simp: T'_def fun_upd_idem)
  qed
  then obtain g2 where g2: "(if lastp NULL ts \<noteq> NULL
       then upd_node (lastp NULL ts) (node_next_update (\<lambda>_. hdp ss NULL)) g1
       else upd_list t (l_head_update (\<lambda>_. hdp ss NULL)) g1) = Some g2"
     "lseg (nodes g2) t NULL (ts @ ss) NULL" "lists g2 = (lists h)(t \<mapsto> T')"
     "\<forall>a. map_option node_value (nodes g2 a) = map_option node_value (nodes h a)"
     "\<forall>a. a \<notin> set ts \<union> set ss \<longrightarrow> nodes g2 a = nodes h a"
    by blast
  define T3 where "T3 = (if ss = [] then T' else T'\<lparr>l_tail := lastp NULL ss\<rparr>)"
  define g3 where "g3 = g2\<lparr>lists := (lists h)(t \<mapsto> T3)\<rparr>"
  define T4 where "T4 = l_length_update (\<lambda>k. k + of_nat (length ss)) T3"
  define h' where "h' = free_list s (g3\<lparr>lists := (lists h)(t \<mapsto> T4)\<rparr>)"
  have r: "rd_list g t = Some T" "rd_list g2 s = Some S" "rd_list g3 s = Some S"
    using T(2,3) S(2,3) g(3) g2(3) assms(3) by (auto simp: rd_list_def g3_def)
  have u3: "(if l_tail S \<noteq> NULL then upd_list t (l_tail_update (\<lambda>_. l_tail S)) g2 else Some g2) = Some g3"
    using g2(3) T(3) lastp_null [OF S(6)] S(8)
    by (auto simp: upd_list_def rd_list_def g3_def T3_def)
  have u4: "upd_list t (l_length_update (\<lambda>k. k + l_length S)) g3 = Some (g3\<lparr>lists := (lists h)(t \<mapsto> T4)\<rparr>)"
    using T(3) S(9) by (simp add: upd_list_def rd_list_def g3_def T4_def)
  have "list_merge h t s = Some h'"
    unfolding list_merge_def
    by (simp only: S(1) Option.bind.simps S(7) g(1) r T(8) g1(1) g2(1) u3 u4 h'_def)
  moreover have "is_list h' t (ts @ ss)"
    using T S assms(3,4) g2(2)
    by (auto simp: h'_def g3_def T4_def T3_def T'_def free_list_def lastp_def hdp_nonempty intro!: is_listI)
  moreover have "values_of h' (ts @ ss) = values_of h (ts @ ss)"
    using g2(4) by (intro values_of_cong) (simp add: h'_def g3_def free_list_def)
  moreover have "lists h' s = None" "\<forall>m. m \<noteq> t \<and> m \<noteq> s \<longrightarrow> lists h' m = lists h m" "nodes h' = nodes g2"
    by (simp_all add: h'_def g3_def free_list_def)
  ultimately show ?thesis using g2(4,5) by (intro exI [of _ h']) (simp add: values_of_def)
qed

text \<open>The other lists of the heap keep their nodes and values.\<close>

lemma list_merge_others:
  assumes "is_list h t ts" "is_list h s ss" "is_list h m ms" "m \<noteq> t" "m \<noteq> s"
    "\<forall>a. a \<notin> set ts \<union> set ss \<longrightarrow> nodes h' a = nodes h a" "\<forall>m. m \<noteq> t \<and> m \<noteq> s \<longrightarrow> lists h' m = lists h m"
  shows "is_list h' m ms"
proof -
  from assms(3) obtain L where L: "rd_list h m = Some L" "lists h m = Some L" "m \<noteq> NULL"
    "distinct ms" "lseg (nodes h) m NULL ms NULL" "l_head L = hdp ms NULL"
    "l_tail L = lastp NULL ms" "l_length L = of_nat (length ms)"
    by (auto elim!: is_listE)
  have "a \<notin> set ts \<union> set ss" if "a \<in> set ms" for a
    using is_list_node [OF assms(3) that] is_list_node [OF assms(1), of a] is_list_node [OF assms(2), of a] assms(4,5) by auto
  then have "lseg (nodes h') m NULL ms NULL = lseg (nodes h) m NULL ms NULL"
    using assms(6) by (intro lseg_cong) auto
  then show ?thesis using L assms(4,5,7) by (intro is_listI [of _ _ L]) auto
qed

lemma list_copy_empty:
  assumes "is_list h l []" "a \<noteq> NULL" "a \<noteq> l"
  shows "\<exists>h'. list_copy h l a as = Some (h', a) \<and> is_list h' a []"
  using assms
  by (auto simp: list_copy_def list_create_def list_copy_loop.simps rd_list_def elim!: is_listE intro!: is_listI)

lemma list_copy_loop_diverges:
  assumes "node \<noteq> NULL"
  shows "list_copy_loop h out node as i = None"
proof (rule ccontr)
  assume "list_copy_loop h out node as i \<noteq> None"
  then obtain r where r: "list_copy_loop h out node as i = Some r" by blast
  have "node = NULL"
  proof (rule list_copy_loop.raw_induct [where P = "\<lambda>h out node as i r. node = NULL", OF _ r])
    fix loop :: "kheap \<Rightarrow> addr \<Rightarrow> addr \<Rightarrow> (nat \<Rightarrow> addr) \<Rightarrow> nat \<Rightarrow> kheap option"
      and h out node as i r
    assume IH: "\<And>h out node as i r. loop h out node as i = Some r \<Longrightarrow> node = NULL"
      and eq: "(if node = NULL then Some h
         else rd_node h node \<bind> (\<lambda>n. list_insert h out (node_value n) (as i) \<bind>
           (\<lambda>(h', _). loop h' out node as (Suc i)))) = Some r"
    then show "node = NULL" by (auto simp: bind_Some_iff split: if_splits)
  qed
  with assms show False by simp
qed

lemma list_destroy_from_seg:
  "lseg (nodes h) l p ns NULL \<Longrightarrow> list_destroy_from h (hdp ns NULL) = Some (values_of h ns)"
proof (induction ns arbitrary: p)
  case (Cons a ns)
  then show ?case
    by (subst list_destroy_from.simps) (auto simp: rd_node_def values_of_def split: option.splits)
qed (simp add: list_destroy_from.simps values_of_def)

lemma list_free_from_seg:
  "lseg (nodes h) l p ns NULL \<Longrightarrow> distinct ns \<Longrightarrow>
   list_free_from h (hdp ns NULL) = Some (h\<lparr>nodes := (nodes h) |` (- set ns)\<rparr>)"
proof (induction ns arbitrary: p h)
  case (Cons a ns)
  then obtain n where n: "nodes h a = Some n" "node_next n = hdp ns NULL" "a \<noteq> NULL" "a \<notin> set ns" "distinct ns"
    by (auto split: option.splits)
  have "lseg (nodes (free_node a h)) l a ns NULL" using Cons.prems n by (simp add: free_node_def)
  from Cons.IH [OF this n(5)]
  have "list_free_from (free_node a h) (hdp ns NULL) = Some (free_node a h\<lparr>nodes := nodes (free_node a h) |` (- set ns)\<rparr>)" .
  moreover have "free_node a h\<lparr>nodes := nodes (free_node a h) |` (- set ns)\<rparr> = h\<lparr>nodes := (nodes h) |` (- set (a # ns))\<rparr>"
    by (simp add: free_node_def restrict_map_def fun_eq_iff)
  ultimately show ?case using n
    by (subst list_free_from.simps) (simp add: rd_node_def)
qed (simp add: list_free_from.simps restrict_map_def)

lemma lists_disjoint:
  assumes "is_list h l ns" "is_list h m ms" "l \<noteq> m"
  shows "set ns \<inter> set ms = {}"
  using is_list_node [OF assms(1)] is_list_node [OF assms(2)] assms(3) by fastforce

lemma other_list_kept:
  assumes "frame h h' l (insert a (set ns))" "is_list h l ns" "is_list h m ms" "m \<noteq> l" "a \<notin> set ms"
  shows "is_list h' m ms"
  using assms lists_disjoint [OF assms(2,3)] by (intro is_list_frame [OF assms(3,1,4)]) auto

lemma other_list_kept':
  assumes "frame h h' l (set ns)" "is_list h l ns" "is_list h m ms" "m \<noteq> l"
  shows "is_list h' m ms"
  using assms lists_disjoint [OF assms(2,3)] by (intro is_list_frame [OF assms(3,1,4)]) auto

text \<open>A freshly allocated node is in no list.\<close>

lemma is_list_new_node:
  assumes "is_list h l ns" "nodes h a = None"
  shows "a \<notin> set ns" "is_list (h\<lparr>nodes := (nodes h)(a \<mapsto> n)\<rparr>) l ns"
proof -
  show 1: "a \<notin> set ns" using is_list_node [OF assms(1)] assms(2) by fastforce
  from assms(1) obtain L where "lists h l = Some L" "l \<noteq> NULL" "distinct ns"
    "lseg (nodes h) l NULL ns NULL" "l_head L = hdp ns NULL" "l_tail L = lastp NULL ns"
    "l_length L = of_nat (length ns)" by (rule is_listE)
  with 1 show "is_list (h\<lparr>nodes := (nodes h)(a \<mapsto> n)\<rparr>) l ns" by (auto intro!: is_listI)
qed

lemma values_of_new_node:
  assumes "frame (h\<lparr>nodes := (nodes h)(a \<mapsto> n)\<rparr>) h' l S" "a \<notin> set ns"
  shows "values_of h' ns = values_of h ns" "values_of h' [a] = [node_value n]"
  using values_of_frame [OF assms(1), of ns] values_of_frame [OF assms(1), of "[a]"] assms(2)
  by (auto simp: values_of_def)

section \<open>Correctness of the operations\<close>

text \<open>\<^verbatim>\<open>list_insert\<close> on a well-linked list never faults, puts the new node at the
  end, keeps the order and the values of the others, and leaves every other list of the heap
  alone.\<close>

theorem list_insert_appends:
  assumes "is_list h l ns" and "a \<noteq> NULL" and "nodes h a = None"
  shows "\<exists>h'. list_insert h l item a = Some (h', a) \<and> is_list h' l (ns @ [a]) \<and>
           values_of h' (ns @ [a]) = values_of h ns @ [item] \<and>
           (\<forall>m ms. m \<noteq> l \<longrightarrow> is_list h m ms \<longrightarrow> is_list h' m ms)"
proof -
  let ?n = "\<lparr>node_next = NULL, node_prev = NULL, node_value = item, node_owner = NULL\<rparr>"
  let ?g = "h\<lparr>nodes := (nodes h)(a \<mapsto> ?n)\<rparr>"
  have g: "is_list ?g l ns" "a \<notin> set ns" using is_list_new_node [OF assms(1,3)] by auto
  obtain h' where h': "list_append ?g l a = Some h'" "is_list h' l (ns @ [a])"
    "frame ?g h' l (insert a (set ns))"
    using list_append_spec [OF g(1), of a ?n] assms(2) g(2) by auto
  have "list_insert h l item a = Some (h', a)"
    using h'(1) assms(2) by (simp add: list_insert_def new_node_def)
  moreover have "values_of h' (ns @ [a]) = values_of h ns @ [item]"
    using values_of_new_node [OF h'(3) g(2)] by (simp add: values_of_def)
  moreover have "is_list h' m ms" if "m \<noteq> l" "is_list h m ms" for m ms
    using other_list_kept [OF h'(3) g(1)] is_list_new_node [OF that(2) assms(3)] that(1) by blast
  ultimately show ?thesis using h'(2) by blast
qed

text \<open>\<^verbatim>\<open>list_insert_after\<close> puts the new node directly behind the given one (or in
  front of the whole list when \<^verbatim>\<open>before\<close> is null), which is what the sorted sleep queue relies on,
  and leaves every other list alone.\<close>

theorem list_insert_after_position:
  assumes "is_list h l (as @ bs)" and "a \<noteq> NULL" and "nodes h a = None"
  shows "\<exists>h'. list_insert_after h l (lastp NULL as) item a = Some (h', a) \<and>
           is_list h' l (as @ a # bs) \<and>
           values_of h' (as @ a # bs) = values_of h as @ item # values_of h bs \<and>
           (\<forall>m ms. m \<noteq> l \<longrightarrow> is_list h m ms \<longrightarrow> is_list h' m ms)"
proof -
  let ?n = "\<lparr>node_next = NULL, node_prev = NULL, node_value = item, node_owner = NULL\<rparr>"
  let ?g = "h\<lparr>nodes := (nodes h)(a \<mapsto> ?n)\<rparr>"
  have g: "is_list ?g l (as @ bs)" "a \<notin> set (as @ bs)"
    using is_list_new_node [OF assms(1,3)] by auto
  have "\<exists>h'. list_append_after ?g l (lastp NULL as) a = Some h' \<and> is_list h' l (as @ a # bs) \<and>
    frame ?g h' l (insert a (set (as @ bs)))"
  proof (cases as rule: rev_cases)
    case Nil
    then show ?thesis using list_append_after_head_spec [of ?g l bs a ?n] g assms(2) by simp
  next
    case (snoc cs c)
    then show ?thesis using list_append_after_spec [of ?g l cs c bs a ?n] g assms(2) by simp
  qed
  then obtain h' where h': "list_append_after ?g l (lastp NULL as) a = Some h'"
    "is_list h' l (as @ a # bs)" "frame ?g h' l (insert a (set (as @ bs)))" by blast
  have "list_insert_after h l (lastp NULL as) item a = Some (h', a)"
    using h'(1) assms(2) by (simp add: list_insert_after_def new_node_def)
  moreover have "values_of h' (as @ a # bs) = values_of h as @ item # values_of h bs"
    using values_of_new_node [OF h'(3), of as] values_of_new_node [OF h'(3), of bs] g(2)
    by (simp add: values_of_def)
  moreover have "is_list h' m ms" if "m \<noteq> l" "is_list h m ms" for m ms
    using other_list_kept [OF h'(3) g(1)] is_list_new_node [OF that(2) assms(3)] that(1) by blast
  ultimately show ?thesis using h'(2) by blast
qed

text \<open>Property C25. \<^verbatim>\<open>list_delete\<close> unlinks exactly the given node wherever it stands, keeps the order
  and the values of the others, clears the node's owner and leaves every other list alone.\<close>

theorem list_delete_removes:
  assumes "is_list h l (as @ a # bs)"
  shows "\<exists>h'. list_delete h l a = Some h' \<and> is_list h' l (as @ bs) \<and>
           values_of h' (as @ bs) = values_of h as @ values_of h bs \<and>
           map_option node_owner (nodes h' a) = Some NULL \<and>
           (\<forall>m ms. m \<noteq> l \<longrightarrow> is_list h m ms \<longrightarrow> is_list h' m ms)"
proof -
  from list_delete_spec [OF assms] obtain h' where h': "list_delete h l a = Some h'"
    "is_list h' l (as @ bs)" "frame h h' l (set (as @ a # bs))"
    "\<exists>n. nodes h' a = Some n \<and> node_next n = NULL \<and> node_prev n = NULL \<and> node_owner n = NULL"
    by blast
  have "values_of h' (as @ bs) = values_of h as @ values_of h bs"
    using values_of_frame [OF h'(3), of "as @ bs"] by (simp add: values_of_def)
  moreover have "is_list h' m ms" if "m \<noteq> l" "is_list h m ms" for m ms
    using other_list_kept' [OF h'(3) assms that(2,1)] .
  ultimately show ?thesis using h' by auto
qed

text \<open>\<^verbatim>\<open>list_merge\<close> moves the nodes of the source list, in order, behind those of
  the target and frees the source header.\<close>

theorem list_merge_concat:
  assumes "is_list h t ts" and "is_list h s ss" and "t \<noteq> s"
  shows "\<exists>h'. list_merge h t s = Some h' \<and> is_list h' t (ts @ ss) \<and> lists h' s = None \<and>
           values_of h' (ts @ ss) = values_of h ts @ values_of h ss"
  using list_merge_spec [OF assms] lists_disjoint [OF assms] by blast

text \<open>\<^verbatim>\<open>list_find\<close> returns the first node that carries the value, and null exactly
  when no node does.\<close>

theorem list_find_first:
  assumes "is_list h l ns"
  shows "list_find h l v =
    Some (case find (\<lambda>a. map_option node_value (nodes h a) = Some v) ns of None \<Rightarrow> NULL | Some a \<Rightarrow> a)"
proof -
  from assms obtain L where "rd_list h l = Some L" "lseg (nodes h) l NULL ns NULL" "l_head L = hdp ns NULL"
    by (rule is_listE)
  then show ?thesis by (simp add: list_find_def list_find_from_seg)
qed

text \<open>\<^verbatim>\<open>list_remove\<close> tests \<^verbatim>\<open>index > length\<close> where it must test
  \<^verbatim>\<open>index >= length\<close>: an index equal to the length walks off the end and \<^verbatim>\<open>list_delete\<close>
  dereferences null.\<close>

theorem list_remove_at_length_faults:
  assumes "is_list h l ns"
  shows "list_remove h l (of_nat (length ns)) = None"
  using assms by (rule list_remove_end_faults)

text \<open>Property C34. \<^verbatim>\<open>list_copy\<close> never advances its cursor, so it never returns on a non-empty
  list, whatever addresses \<^verbatim>\<open>malloc\<close> hands out.\<close>

theorem list_copy_never_returns:
  assumes "is_list h l (n # ns)" and "a \<noteq> l"
  shows "list_copy h l a as = None"
proof -
  from assms(1) obtain L where L: "rd_list h l = Some L" "l_head L = n" "n \<noteq> NULL"
    using is_list_first by blast
  then show ?thesis using assms(2)
    by (auto simp: list_copy_def list_create_def list_copy_loop_diverges rd_list_def
        bind_eq_None_conv split: if_splits)
qed

section \<open>The queue interface\<close>

text \<open>
  The scheduler and the wait queues use a list through two operations only: append a node, and
  take one from the head (\<^verbatim>\<open>list_dequeue\<close>) or from the tail (\<^verbatim>\<open>list_pop\<close>).  The locales state that
  contract; \<open>loose\<close> says that an address holds a node.
\<close>

fun put_all :: "('s \<Rightarrow> addr \<Rightarrow> 's option) \<Rightarrow> 's \<Rightarrow> addr list \<Rightarrow> 's option" where
  "put_all put s [] = Some s"
| "put_all put s (a # as) = do { s' \<leftarrow> put s a; put_all put s' as }"

fun take_n :: "('s \<Rightarrow> ('s \<times> addr) option) \<Rightarrow> 's \<Rightarrow> nat \<Rightarrow> ('s \<times> addr list) option" where
  "take_n get s 0 = Some (s, [])"
| "take_n get s (Suc n) = do { (s', a) \<leftarrow> get s; (s'', as) \<leftarrow> take_n get s' n; Some (s'', a # as) }"

locale kqueue =
  fixes rep :: "'s \<Rightarrow> addr list \<Rightarrow> bool"
    and loose :: "'s \<Rightarrow> addr \<Rightarrow> bool"
    and put :: "'s \<Rightarrow> addr \<Rightarrow> 's option"
  assumes put_rep: "rep s ns \<Longrightarrow> loose s a \<Longrightarrow> a \<notin> set ns \<Longrightarrow>
      \<exists>s'. put s a = Some s' \<and> rep s' (ns @ [a]) \<and> (\<forall>b. loose s b \<longrightarrow> loose s' b)"
begin

lemma put_all_rep:
  "rep s ns \<Longrightarrow> (\<forall>a\<in>set as. loose s a) \<Longrightarrow> distinct (ns @ as) \<Longrightarrow>
   \<exists>s'. put_all put s as = Some s' \<and> rep s' (ns @ as)"
proof (induction as arbitrary: s ns)
  case (Cons a as)
  from Cons.prems put_rep [of s ns a] obtain s' where s': "put s a = Some s'" "rep s' (ns @ [a])"
    "\<forall>b. loose s b \<longrightarrow> loose s' b" by auto
  have "\<exists>s''. put_all put s' as = Some s'' \<and> rep s'' ((ns @ [a]) @ as)"
    using Cons.prems s' by (intro Cons.IH) auto
  with s'(1) show ?case by auto
qed simp

end

locale kqueue_fifo = kqueue +
  fixes get :: "'s \<Rightarrow> ('s \<times> addr) option"
  assumes get_rep: "rep s (a # ns) \<Longrightarrow> \<exists>s'. get s = Some (s', a) \<and> rep s' ns"
begin

lemma take_n_rep: "rep s (as @ ns) \<Longrightarrow> \<exists>s'. take_n get s (length as) = Some (s', as) \<and> rep s' ns"
proof (induction as arbitrary: s)
  case (Cons a as)
  from get_rep [of s a "as @ ns"] Cons.prems obtain s' where "get s = Some (s', a)" "rep s' (as @ ns)"
    by auto
  with Cons.IH [of s'] show ?case by auto
qed simp

lemma fifo:
  assumes "rep s []" "\<forall>a\<in>set as. loose s a" "distinct as"
  shows "\<exists>s' s''. put_all put s as = Some s' \<and> take_n get s' (length as) = Some (s'', as)"
  using put_all_rep [OF assms(1,2)] assms(3) take_n_rep [of _ as "[]"] by fastforce

end

locale kqueue_lifo = kqueue +
  fixes get :: "'s \<Rightarrow> ('s \<times> addr) option"
  assumes get_rep: "rep s (ns @ [a]) \<Longrightarrow> \<exists>s'. get s = Some (s', a) \<and> rep s' ns"
begin

lemma take_n_rep: "rep s (ns @ rev as) \<Longrightarrow> \<exists>s'. take_n get s (length as) = Some (s', as) \<and> rep s' ns"
proof (induction as arbitrary: s)
  case (Cons a as)
  from get_rep [of s "ns @ rev as" a] Cons.prems obtain s' where "get s = Some (s', a)" "rep s' (ns @ rev as)"
    by auto
  with Cons.IH [of s'] show ?case by auto
qed simp

lemma lifo:
  assumes "rep s []" "\<forall>a\<in>set as. loose s a" "distinct as"
  shows "\<exists>s' s''. put_all put s as = Some s' \<and> take_n get s' (length as) = Some (s'', rev as)"
  using put_all_rep [OF assms(1,2)] assms(3) take_n_rep [of _ "[]" "rev as"] by fastforce

end

definition is_node :: "kheap \<Rightarrow> addr \<Rightarrow> bool" where
  "is_node h a \<longleftrightarrow> rd_node h a \<noteq> None"

lemma list_append_put:
  assumes "is_list h l ns" "is_node h a" "a \<notin> set ns"
  shows "\<exists>h'. list_append h l a = Some h' \<and> is_list h' l (ns @ [a]) \<and>
    (\<forall>b. is_node h b \<longrightarrow> is_node h' b)"
proof -
  from assms(2) obtain n0 where n: "nodes h a = Some n0" "a \<noteq> NULL"
    by (auto simp: is_node_def rd_node_def split: if_splits)
  from list_append_spec [OF assms(1) n assms(3)] obtain h' where h': "list_append h l a = Some h'"
    "is_list h' l (ns @ [a])" "frame h h' l (insert a (set ns))" by blast
  have "is_node h' b" if b: "is_node h b" for b
  proof -
    have "map_option node_value (nodes h' b) = map_option node_value (nodes h b)"
      using h'(3) by (simp add: frame_def)
    with b show ?thesis by (auto simp: is_node_def rd_node_def split: if_splits)
  qed
  with h' show ?thesis by blast
qed

interpretation fifo: kqueue_fifo "\<lambda>h ns. is_list h l ns" is_node "\<lambda>h a. list_append h l a" "\<lambda>h. list_dequeue h l" for l
proof unfold_locales
  show "\<exists>h'. list_append h l a = Some h' \<and> is_list h' l (ns @ [a]) \<and> (\<forall>b. is_node h b \<longrightarrow> is_node h' b)"
    if "is_list h l ns" "is_node h a" "a \<notin> set ns" for h ns a
    using that by (rule list_append_put)
  show "\<exists>h'. list_dequeue h l = Some (h', a) \<and> is_list h' l ns" if "is_list h l (a # ns)" for h a ns
    using list_dequeue_spec [OF that] by blast
qed

interpretation lifo: kqueue_lifo "\<lambda>h ns. is_list h l ns" is_node "\<lambda>h a. list_append h l a" "\<lambda>h. list_pop h l" for l
proof unfold_locales
  show "\<exists>h'. list_pop h l = Some (h', a) \<and> is_list h' l ns" if "is_list h l (ns @ [a])" for h a ns
    using list_pop_spec [OF that] by blast
qed

text \<open>Property C23. appending distinct nodes with \<^verbatim>\<open>list_append\<close> and taking them with \<^verbatim>\<open>list_dequeue\<close>
  gives them back in the order they were appended: the ready queue is first-in, first-out.\<close>

theorem append_dequeue_fifo:
  assumes "is_list h l []" and "\<forall>a\<in>set as. is_node h a" and "distinct as"
  shows "\<exists>h' h''. put_all (\<lambda>h a. list_append h l a) h as = Some h' \<and>
           take_n (\<lambda>h. list_dequeue h l) h' (length as) = Some (h'', as)"
  using assms by (rule fifo.fifo)

text \<open>appending distinct nodes with \<^verbatim>\<open>list_append\<close> and taking them with \<^verbatim>\<open>list_pop\<close>, as
  the wake-up functions do with a wait queue, gives them back in reverse order.\<close>

theorem append_pop_lifo:
  assumes "is_list h l []" and "\<forall>a\<in>set as. is_node h a" and "distinct as"
  shows "\<exists>h' h''. put_all (\<lambda>h a. list_append h l a) h as = Some h' \<and>
           take_n (\<lambda>h. list_pop h l) h' (length as) = Some (h'', rev as)"
  using assms by (rule lifo.lifo)

section \<open>Witnesses\<close>

definition ex_node :: "addr \<Rightarrow> addr \<Rightarrow> addr \<Rightarrow> addr \<Rightarrow> node_t" where
  "ex_node n p v l = \<lparr>node_next = n, node_prev = p, node_value = v, node_owner = l\<rparr>"

definition ex_heap :: kheap where
  "ex_heap = \<lparr>nodes = [32 \<mapsto> ex_node 48 0 7 16, 48 \<mapsto> ex_node 0 32 9 16, 64 \<mapsto> ex_node 0 0 5 17,
                      80 \<mapsto> ex_node 0 0 1 0, 96 \<mapsto> ex_node 0 0 2 0],
     lists = [16 \<mapsto> \<lparr>l_head = 32, l_tail = 48, l_length = 2, l_name = [], l_metadata = 0\<rparr>,
              17 \<mapsto> \<lparr>l_head = 64, l_tail = 64, l_length = 1, l_name = [], l_metadata = 0\<rparr>,
              18 \<mapsto> \<lparr>l_head = 0, l_tail = 0, l_length = 0, l_name = [], l_metadata = 0\<rparr>]\<rparr>"

lemma ex_heap_lists: "is_list ex_heap 16 [32, 48]" "is_list ex_heap 17 [64]" "is_list ex_heap 18 []"
  by (simp_all add: is_list_def rd_list_def ex_heap_def ex_node_def)

lemma ex_heap_nodes: "nodes ex_heap 112 = None" "is_node ex_heap 80" "is_node ex_heap 96"
  by (simp_all add: ex_heap_def is_node_def rd_node_def)

theorem list_insert_appends_witness:
  "\<exists>h'. list_insert ex_heap 16 3 112 = Some (h', 112) \<and> is_list h' 16 [32, 48, 112] \<and>
     values_of h' [32, 48, 112] = [7, 9, 3] \<and> is_list h' 17 [64]"
  using list_insert_appends [OF ex_heap_lists(1) _ ex_heap_nodes(1), of 3] ex_heap_lists(2)
  by (auto simp: values_of_def ex_heap_def ex_node_def)

theorem list_insert_after_position_witness:
  "\<exists>h'. list_insert_after ex_heap 16 32 3 112 = Some (h', 112) \<and> is_list h' 16 [32, 112, 48] \<and>
     values_of h' [32, 112, 48] = [7, 3, 9]"
  using list_insert_after_position [of ex_heap 16 "[32]" "[48]" 112 3] ex_heap_lists(1) ex_heap_nodes(1)
  by (auto simp: values_of_def ex_heap_def ex_node_def)

theorem list_delete_removes_witness:
  "\<exists>h'. list_delete ex_heap 16 32 = Some h' \<and> is_list h' 16 [48] \<and> values_of h' [48] = [9]"
  using list_delete_removes [of ex_heap 16 "[]" 32 "[48]"] ex_heap_lists(1)
  by (auto simp: values_of_def ex_heap_def ex_node_def)

theorem list_merge_concat_witness:
  "\<exists>h'. list_merge ex_heap 16 17 = Some h' \<and> is_list h' 16 [32, 48, 64] \<and>
     values_of h' [32, 48, 64] = [7, 9, 5]"
  using list_merge_concat [OF ex_heap_lists(1,2)]
  by (auto simp: values_of_def ex_heap_def ex_node_def)

theorem list_find_first_witness: "list_find ex_heap 16 9 = Some 48 \<and> list_find ex_heap 16 4 = Some 0"
  using list_find_first [OF ex_heap_lists(1), of 9] list_find_first [OF ex_heap_lists(1), of 4]
  by (simp add: ex_heap_def ex_node_def)

theorem list_remove_at_length_faults_witness: "list_remove ex_heap 16 2 = None"
  using list_remove_at_length_faults [OF ex_heap_lists(1)] by simp

theorem list_copy_never_returns_witness: "list_copy ex_heap 16 128 (\<lambda>i. of_nat (144 + 16 * i)) = None"
  using list_copy_never_returns [OF ex_heap_lists(1)] by simp

theorem append_dequeue_fifo_witness:
  "\<exists>h' h''. put_all (\<lambda>h a. list_append h 18 a) ex_heap [80, 96] = Some h' \<and>
     take_n (\<lambda>h. list_dequeue h 18) h' (Suc (Suc 0)) = Some (h'', [80, 96])"
  using append_dequeue_fifo [OF ex_heap_lists(3), of "[80, 96]"] ex_heap_nodes(2,3)
  by simp

theorem append_pop_lifo_witness:
  "\<exists>h' h''. put_all (\<lambda>h a. list_append h 18 a) ex_heap [80, 96] = Some h' \<and>
     take_n (\<lambda>h. list_pop h 18) h' (Suc (Suc 0)) = Some (h'', [96, 80])"
  using append_pop_lifo [OF ex_heap_lists(3), of "[80, 96]"] ex_heap_nodes(2,3)
  by simp

end
