(* ===== verification/Kstring.thy ===== *)
theory Kstring
  imports Razion_Prelude
begin

text \<open>
  The kernel's memory and string primitives, \<^verbatim>\<open>src/kernel/misc/string.c\<close>.

  Memory is a partial map from addresses to bytes; reading or writing an unmapped address faults.
  Addresses are natural numbers: an object does not wrap around the end of the address space.
  Strings are what the C code sees: bytes at consecutive addresses up to a zero byte, so the
  word-at-a-time scans, the overlapping copies and the in-place cuts of \<^verbatim>\<open>strtok_r\<close> are modelled as
  they are written.  A load of a machine word reads all of its bytes (and needs all of them
  mapped), which is what makes reading past the terminator a question of mapping and not of luck.
  Scans that only stop at a byte they look for are \<open>partial_function (option)\<close>.

  \<^verbatim>\<open>char\<close> is signed, as on x86_64, the release architecture.
\<close>

unbundle bit_operations_syntax

section \<open>Memory\<close>

type_synonym mem = "nat \<rightharpoonup> u8"

definition wr :: "nat \<Rightarrow> u8 \<Rightarrow> mem \<Rightarrow> mem option" where
  "wr p b m = (case m p of None \<Rightarrow> None | Some _ \<Rightarrow> Some (m(p \<mapsto> b)))"

fun rdn :: "mem \<Rightarrow> nat \<Rightarrow> nat \<Rightarrow> u8 list option" where
  "rdn m p 0 = Some []"
| "rdn m p (Suc k) = do { b \<leftarrow> m p; bs \<leftarrow> rdn m (Suc p) k; Some (b # bs) }"

fun wrn :: "nat \<Rightarrow> u8 list \<Rightarrow> mem \<Rightarrow> mem option" where
  "wrn p [] m = Some m"
| "wrn p (b # bs) m = do { m \<leftarrow> wr p b m; wrn (Suc p) bs m }"

text \<open>One load of \<open>k\<close> bytes followed by one store of them: \<^verbatim>\<open>*d = *s\<close> at a type of \<open>k\<close> bytes.\<close>

definition mv :: "nat \<Rightarrow> nat \<Rightarrow> nat \<Rightarrow> mem \<Rightarrow> mem option" where
  "mv k d s m = do { bs \<leftarrow> rdn m s k; wrn d bs m }"

text \<open>Little-endian 64-bit words, and the macros of \<^verbatim>\<open>kernel/types.h\<close>.\<close>

fun le_int :: "u8 list \<Rightarrow> int" where
  "le_int [] = 0"
| "le_int (b # bs) = uint b + 256 * le_int bs"

definition le_word :: "u8 list \<Rightarrow> u64" where
  "le_word bs = word_of_int (le_int bs)"

definition rd64 :: "mem \<Rightarrow> nat \<Rightarrow> u64 option" where
  "rd64 m p = map_option le_word (rdn m p 8)"

definition ONES :: u64 where "ONES = (- 1) div 255"
definition HIGHS :: u64 where "HIGHS = ONES * (255 div 2 + 1)"
definition HASZERO :: "u64 \<Rightarrow> u64" where "HASZERO x = (x - ONES) AND NOT x AND HIGHS"

section \<open>Copying\<close>

text \<open>The three loops of \<^verbatim>\<open>memcpy\<close> differ only in the width \<open>k\<close> of the copied unit.\<close>

function cp_loop :: "nat \<Rightarrow> nat \<Rightarrow> nat \<Rightarrow> nat \<Rightarrow> mem \<Rightarrow> (mem \<times> nat \<times> nat \<times> nat) option" where
  "cp_loop k d s n m =
     (if 0 < k \<and> k \<le> n then do { m \<leftarrow> mv k d s m; cp_loop k (d + k) (s + k) (n - k) m }
      else Some (m, d, s, n))"
  by pat_completeness auto
termination by (relation "measure (\<lambda>(k, d, s, n, m). n)") auto

declare cp_loop.simps [simp del]

text \<open>
  The \<^verbatim>\<open>memcpy\<close> that is compiled; the one after the \<^verbatim>\<open>#else\<close> is disabled.  It and \<^verbatim>\<open>memmove\<close> return their
  first argument, which is left out here.
\<close>

definition memcpy :: "nat \<Rightarrow> nat \<Rightarrow> nat \<Rightarrow> mem \<Rightarrow> mem option" where
  "memcpy dest src n m = do {
     (m, d, s, n) \<leftarrow> (if dest mod 8 = 0 \<and> src mod 8 = 0 then cp_loop 8 dest src n m
                     else Some (m, dest, src, n));
     (m, d, s, n) \<leftarrow> (if d mod 4 = 0 \<and> s mod 4 = 0 then cp_loop 4 d s n m else Some (m, d, s, n));
     (m, d, s, n) \<leftarrow> cp_loop 1 d s n m;
     Some m
   }"

fun memset_loop :: "nat \<Rightarrow> u8 \<Rightarrow> nat \<Rightarrow> mem \<Rightarrow> mem option" where
  "memset_loop p c 0 m = Some m"
| "memset_loop p c (Suc n) m = do { m \<leftarrow> wr p c m; memset_loop (Suc p) c n m }"

definition memset :: "nat \<Rightarrow> u32 \<Rightarrow> nat \<Rightarrow> mem \<Rightarrow> mem option" where
  "memset dest c n m = memset_loop dest (ucast c) n m"

text \<open>
  \<^verbatim>\<open>memmove\<close>: the head loops bring \<open>d\<close> (or \<open>d + n\<close>) to an aligned address; \<open>Inl\<close> is the early
  \<^verbatim>\<open>return\<close> when \<open>n\<close> runs out there.
\<close>

function mm_head_up :: "nat \<Rightarrow> nat \<Rightarrow> nat \<Rightarrow> mem \<Rightarrow> (mem + mem \<times> nat \<times> nat \<times> nat) option" where
  "mm_head_up d s n m =
     (if d mod 8 \<noteq> 0 then
        (if n = 0 then Some (Inl m)
         else do { m \<leftarrow> mv 1 d s m; mm_head_up (d + 1) (s + 1) (n - 1) m })
      else Some (Inr (m, d, s, n)))"
  by pat_completeness auto
termination by (relation "measure (\<lambda>(d, s, n, m). n)") auto

function mm_head_down :: "nat \<Rightarrow> nat \<Rightarrow> nat \<Rightarrow> mem \<Rightarrow> (mem + mem \<times> nat) option" where
  "mm_head_down d s n m =
     (if (d + n) mod 8 \<noteq> 0 then
        (if n = 0 then Some (Inl m)
         else do { m \<leftarrow> mv 1 (d + (n - 1)) (s + (n - 1)) m; mm_head_down d s (n - 1) m })
      else Some (Inr (m, n)))"
  by pat_completeness auto
termination by (relation "measure (\<lambda>(d, s, n, m). n)") auto

function mm_down :: "nat \<Rightarrow> nat \<Rightarrow> nat \<Rightarrow> nat \<Rightarrow> mem \<Rightarrow> (mem \<times> nat) option" where
  "mm_down k d s n m =
     (if 0 < k \<and> k \<le> n then do { m \<leftarrow> mv k (d + (n - k)) (s + (n - k)) m; mm_down k d s (n - k) m }
      else Some (m, n))"
  by pat_completeness auto
termination by (relation "measure (\<lambda>(k, d, s, n, m). n)") auto

declare mm_head_up.simps [simp del] mm_head_down.simps [simp del] mm_down.simps [simp del]

definition memmove :: "nat \<Rightarrow> nat \<Rightarrow> nat \<Rightarrow> mem \<Rightarrow> mem option" where
  "memmove dest src n m =
     (if dest = src then Some m
      else if src + n \<le> dest \<or> dest + n \<le> src then memcpy dest src n m
      else if dest < src then
        (if src mod 8 = dest mod 8 then do {
           r \<leftarrow> mm_head_up dest src n m;
           (case r of Inl m \<Rightarrow> Some m
            | Inr (m, d, s, n) \<Rightarrow> do {
                (m, d, s, n) \<leftarrow> cp_loop 8 d s n m;
                (m, d, s, n) \<leftarrow> cp_loop 1 d s n m;
                Some m })
         } else do { (m, d, s, n) \<leftarrow> cp_loop 1 dest src n m; Some m })
      else
        (if src mod 8 = dest mod 8 then do {
           r \<leftarrow> mm_head_down dest src n m;
           (case r of Inl m \<Rightarrow> Some m
            | Inr (m, n) \<Rightarrow> do {
                (m, n) \<leftarrow> mm_down 8 dest src n m;
                (m, n) \<leftarrow> mm_down 1 dest src n m;
                Some m })
         } else do { (m, n) \<leftarrow> mm_down 1 dest src n m; Some m }))"

section \<open>Scanning\<close>

text \<open>Byte loop to an aligned address; \<open>Inl\<close> is the \<^verbatim>\<open>return\<close> inside the loop.\<close>

function strlen_align :: "nat \<Rightarrow> mem \<Rightarrow> (nat + nat) option" where
  "strlen_align s m =
     (if s mod 8 \<noteq> 0 then do { b \<leftarrow> m s; if b = 0 then Some (Inl s) else strlen_align (s + 1) m }
      else Some (Inr s))"
  by pat_completeness auto
termination by (relation "measure (\<lambda>(s, m). (8 - s mod 8) mod 8)") (auto simp: mod_Suc)

declare strlen_align.simps [simp del]

partial_function (option) strlen_words :: "nat \<Rightarrow> mem \<Rightarrow> nat option" where
  "strlen_words w m = do { x \<leftarrow> rd64 m w; if HASZERO x \<noteq> 0 then Some w else strlen_words (w + 8) m }"

partial_function (option) strlen_bytes :: "nat \<Rightarrow> mem \<Rightarrow> nat option" where
  "strlen_bytes s m = do { b \<leftarrow> m s; if b = 0 then Some s else strlen_bytes (s + 1) m }"

definition strlen :: "nat \<Rightarrow> mem \<Rightarrow> nat option" where
  "strlen a m = do {
     r \<leftarrow> strlen_align a m;
     (case r of Inl s \<Rightarrow> Some (s - a)
      | Inr s \<Rightarrow> do { w \<leftarrow> strlen_words s m; s \<leftarrow> strlen_bytes w m; Some (s - a) })
   }"

text \<open>The index of \<^verbatim>\<open>strcmp\<close> is a \<^verbatim>\<open>uint32_t\<close>.\<close>

partial_function (option) strcmp_from :: "nat \<Rightarrow> nat \<Rightarrow> u32 \<Rightarrow> mem \<Rightarrow> int option" where
  "strcmp_from a b i m = do {
     x \<leftarrow> m (a + unat i);
     y \<leftarrow> m (b + unat i);
     if sint x < sint y then Some (- 1)
     else if sint x > sint y then Some 1
     else if x = 0 then Some 0
     else strcmp_from a b (i + 1) m
   }"

definition strcmp :: "nat \<Rightarrow> nat \<Rightarrow> mem \<Rightarrow> int option" where
  "strcmp a b m = strcmp_from a b 0 m"

fun memcmp :: "nat \<Rightarrow> nat \<Rightarrow> nat \<Rightarrow> mem \<Rightarrow> int option" where
  "memcmp l r 0 m = Some 0"
| "memcmp l r (Suc n) m = do {
     x \<leftarrow> m l;
     y \<leftarrow> m r;
     if x = y then memcmp (l + 1) (r + 1) n m else Some (uint x - uint y)
   }"

text \<open>\<^verbatim>\<open>memchr\<close>: bytes to an aligned address, then words, then bytes; the pointer and what is left of \<open>n\<close>.\<close>

fun mc_align :: "nat \<Rightarrow> u8 \<Rightarrow> nat \<Rightarrow> mem \<Rightarrow> (nat \<times> nat) option" where
  "mc_align s c 0 m = Some (s, 0)"
| "mc_align s c (Suc n) m =
     (if s mod 8 \<noteq> 0 then do { b \<leftarrow> m s; if b \<noteq> c then mc_align (s + 1) c n m else Some (s, Suc n) }
      else Some (s, Suc n))"

function mc_words :: "nat \<Rightarrow> u64 \<Rightarrow> nat \<Rightarrow> mem \<Rightarrow> (nat \<times> nat) option" where
  "mc_words w k n m =
     (if 8 \<le> n then do {
        x \<leftarrow> rd64 m w;
        if HASZERO (x XOR k) = 0 then mc_words (w + 8) k (n - 8) m else Some (w, n)
      } else Some (w, n))"
  by pat_completeness auto
termination by (relation "measure (\<lambda>(w, k, n, m). n)") auto

declare mc_words.simps [simp del]

fun mc_bytes :: "nat \<Rightarrow> u8 \<Rightarrow> nat \<Rightarrow> mem \<Rightarrow> (nat \<times> nat) option" where
  "mc_bytes s c 0 m = Some (s, 0)"
| "mc_bytes s c (Suc n) m = do { b \<leftarrow> m s; if b \<noteq> c then mc_bytes (s + 1) c n m else Some (s, Suc n) }"

definition memchr :: "nat \<Rightarrow> u8 \<Rightarrow> nat \<Rightarrow> mem \<Rightarrow> nat option" where
  "memchr src c n m = do {
     (s, n) \<leftarrow> mc_align src c n m;
     (s, n) \<leftarrow> (if n = 0 then Some (s, n)
               else do {
                 b \<leftarrow> m s;
                 if b \<noteq> c then do {
                   (w, n) \<leftarrow> mc_words s (ONES * ucast c) n m;
                   mc_bytes w c n m
                 } else Some (s, n)
               });
     Some (if n \<noteq> 0 then s else 0)
   }"

fun memrchr :: "nat \<Rightarrow> u8 \<Rightarrow> nat \<Rightarrow> mem \<Rightarrow> nat option" where
  "memrchr p c 0 m = Some 0"
| "memrchr p c (Suc n) m = do { b \<leftarrow> m (p + n); if b = c then Some (p + n) else memrchr p c n m }"

text \<open>
  \<^verbatim>\<open>strchrnul\<close> scans words with two zero tests, one on the word and one on the word xor the byte
  repeated eight times (\<^verbatim>\<open>ONES * c\<close>).
\<close>

function chr_align :: "nat \<Rightarrow> u8 \<Rightarrow> mem \<Rightarrow> (nat + nat) option" where
  "chr_align s c m =
     (if s mod 8 \<noteq> 0
      then do { b \<leftarrow> m s; if b = 0 \<or> b = c then Some (Inl s) else chr_align (s + 1) c m }
      else Some (Inr s))"
  by pat_completeness auto
termination by (relation "measure (\<lambda>(s, c, m). (8 - s mod 8) mod 8)") (auto simp: mod_Suc)

declare chr_align.simps [simp del]

partial_function (option) chr_words :: "nat \<Rightarrow> u64 \<Rightarrow> mem \<Rightarrow> nat option" where
  "chr_words w k m = do {
     x \<leftarrow> rd64 m w;
     if HASZERO x = 0 \<and> HASZERO (x XOR k) = 0 then chr_words (w + 8) k m else Some w
   }"

partial_function (option) chr_bytes :: "nat \<Rightarrow> u8 \<Rightarrow> mem \<Rightarrow> nat option" where
  "chr_bytes s c m = do { b \<leftarrow> m s; if b = 0 \<or> b = c then Some s else chr_bytes (s + 1) c m }"

definition strchrnul :: "nat \<Rightarrow> u8 \<Rightarrow> mem \<Rightarrow> nat option" where
  "strchrnul s c m =
     (if c = 0 then do { n \<leftarrow> strlen s m; Some (s + n) }
      else do {
        r \<leftarrow> chr_align s c m;
        (case r of Inl s \<Rightarrow> Some s
         | Inr s \<Rightarrow> do { w \<leftarrow> chr_words s (ONES * ucast c) m; chr_bytes w c m })
      })"

definition strchr :: "nat \<Rightarrow> u8 \<Rightarrow> mem \<Rightarrow> nat option" where
  "strchr s c m = do { r \<leftarrow> strchrnul s c m; b \<leftarrow> m r; Some (if b = c then r else 0) }"

definition strrchr :: "nat \<Rightarrow> u8 \<Rightarrow> mem \<Rightarrow> nat option" where
  "strrchr s c m = do { n \<leftarrow> strlen s m; memrchr s c (n + 1) m }"

section \<open>Copying strings\<close>

function stp_align :: "nat \<Rightarrow> nat \<Rightarrow> mem \<Rightarrow> (mem \<times> nat + mem \<times> nat \<times> nat) option" where
  "stp_align d s m =
     (if s mod 8 \<noteq> 0
      then do { b \<leftarrow> m s; m \<leftarrow> wr d b m; if b = 0 then Some (Inl (m, d)) else stp_align (d + 1) (s + 1) m }
      else Some (Inr (m, d, s)))"
  by pat_completeness auto
termination by (relation "measure (\<lambda>(d, s, m). (8 - s mod 8) mod 8)") (auto simp: mod_Suc)

declare stp_align.simps [simp del]

partial_function (option) stp_words :: "nat \<Rightarrow> nat \<Rightarrow> mem \<Rightarrow> (mem \<times> nat \<times> nat) option" where
  "stp_words wd ws m = do {
     x \<leftarrow> rd64 m ws;
     if HASZERO x = 0 then do { m \<leftarrow> mv 8 wd ws m; stp_words (wd + 8) (ws + 8) m }
     else Some (m, wd, ws)
   }"

partial_function (option) stp_bytes :: "nat \<Rightarrow> nat \<Rightarrow> mem \<Rightarrow> (mem \<times> nat) option" where
  "stp_bytes d s m = do {
     b \<leftarrow> m s;
     m \<leftarrow> wr d b m;
     if b \<noteq> 0 then stp_bytes (d + 1) (s + 1) m else Some (m, d)
   }"

definition stpcpy :: "nat \<Rightarrow> nat \<Rightarrow> mem \<Rightarrow> (mem \<times> nat) option" where
  "stpcpy d s m =
     (if s mod 8 = d mod 8 then do {
        r \<leftarrow> stp_align d s m;
        (case r of Inl x \<Rightarrow> Some x
         | Inr (m, d, s) \<Rightarrow> do { (m, d, s) \<leftarrow> stp_words d s m; stp_bytes d s m })
      } else stp_bytes d s m)"

definition strcpy :: "nat \<Rightarrow> nat \<Rightarrow> mem \<Rightarrow> (mem \<times> nat) option" where
  "strcpy dest src m = do { (m, e) \<leftarrow> stpcpy dest src m; Some (m, dest) }"

text \<open>\<^verbatim>\<open>strdup\<close>: \<open>out\<close> is what \<^verbatim>\<open>malloc\<close> returns, and \<open>m\<close> the memory after it.\<close>

definition strdup :: "nat \<Rightarrow> nat \<Rightarrow> mem \<Rightarrow> (mem \<times> nat) option" where
  "strdup c out m = do {
     n \<leftarrow> strlen c m;
     m \<leftarrow> memcpy out c (n + 1) m;
     Some (m, out)
   }"

section \<open>Sets of bytes\<close>

text \<open>The 256-bit set \<^verbatim>\<open>size_t byteset[4]\<close> and its \<^verbatim>\<open>BITOP\<close> accesses.\<close>

type_synonym byteset = "u64 list"

definition bitop_or :: "byteset \<Rightarrow> u8 \<Rightarrow> byteset" where
  "bitop_or A b = A[unat b div 64 := A ! (unat b div 64) OR push_bit (unat b mod 64) 1]"

definition bitop_and :: "byteset \<Rightarrow> u8 \<Rightarrow> u64" where
  "bitop_and A b = A ! (unat b div 64) AND push_bit (unat b mod 64) 1"

partial_function (option) byteset_fill :: "nat \<Rightarrow> byteset \<Rightarrow> mem \<Rightarrow> byteset option" where
  "byteset_fill c A m = do { b \<leftarrow> m c; if b = 0 then Some A else byteset_fill (c + 1) (bitop_or A b) m }"

partial_function (option) byteset_span :: "bool \<Rightarrow> nat \<Rightarrow> byteset \<Rightarrow> mem \<Rightarrow> nat option" where
  "byteset_span want s A m = do {
     b \<leftarrow> m s;
     if b \<noteq> 0 \<and> (bitop_and A b \<noteq> 0) = want then byteset_span want (s + 1) A m else Some s
   }"

partial_function (option) same_span :: "nat \<Rightarrow> u8 \<Rightarrow> mem \<Rightarrow> nat option" where
  "same_span s c m = do { b \<leftarrow> m s; if b = c then same_span (s + 1) c m else Some s }"

definition strspn :: "nat \<Rightarrow> nat \<Rightarrow> mem \<Rightarrow> nat option" where
  "strspn a c m = do {
     c0 \<leftarrow> m c;
     if c0 = 0 then Some 0
     else do {
       c1 \<leftarrow> m (c + 1);
       if c1 = 0 then do { s \<leftarrow> same_span a c0 m; Some (s - a) }
       else do {
         A \<leftarrow> byteset_fill c (replicate 4 0) m;
         s \<leftarrow> byteset_span True a A m;
         Some (s - a)
       }
     }
   }"

definition strcspn :: "nat \<Rightarrow> nat \<Rightarrow> mem \<Rightarrow> nat option" where
  "strcspn a c m = do {
     c0 \<leftarrow> m c;
     two \<leftarrow> (if c0 = 0 then Some False else do { c1 \<leftarrow> m (c + 1); Some (c1 \<noteq> 0) });
     if two then do {
       A \<leftarrow> byteset_fill c (replicate 4 0) m;
       s \<leftarrow> byteset_span False a A m;
       Some (s - a)
     } else do { r \<leftarrow> strchrnul a c0 m; Some (r - a) }
   }"

definition strpbrk :: "nat \<Rightarrow> nat \<Rightarrow> mem \<Rightarrow> nat option" where
  "strpbrk s b m = do {
     n \<leftarrow> strcspn s b m;
     c \<leftarrow> m (s + n);
     Some (if c \<noteq> 0 then s + n else 0)
   }"

section \<open>Tokens\<close>

definition lfind :: "nat \<Rightarrow> u8 \<Rightarrow> mem \<Rightarrow> nat option" where
  "lfind str accept m = strchr str accept m"

definition rfind :: "nat \<Rightarrow> u8 \<Rightarrow> mem \<Rightarrow> nat option" where
  "rfind str accept m = strrchr str accept m"

text \<open>\<^verbatim>\<open>strtok_r\<close> returns the memory with the token cut, the token (or null) and the new \<^verbatim>\<open>*saveptr\<close>.\<close>

definition strtok_r :: "nat \<Rightarrow> nat \<Rightarrow> nat \<Rightarrow> mem \<Rightarrow> (mem \<times> nat \<times> nat) option" where
  "strtok_r str delim saveptr m = do {
     let str = (if str = 0 then saveptr else str);
     n \<leftarrow> strspn str delim m;
     let str = str + n;
     c \<leftarrow> m str;
     if c = 0 then Some (m, 0, str)
     else do {
       let token = str;
       str \<leftarrow> strpbrk token delim m;
       if str = 0 then do { e \<leftarrow> lfind token 0 m; Some (m, token, e) }
       else do { m \<leftarrow> wr str 0 m; Some (m, token, str + 1) }
     }
   }"

text \<open>\<^verbatim>\<open>tokenize\<close> (\<^verbatim>\<open>src/kernel/misc/tokenize.c\<close>): the pointers it stores in \<^verbatim>\<open>buf\<close>; \<^verbatim>\<open>argc\<close> is their number.\<close>

partial_function (option) tokenize_loop ::
    "nat \<Rightarrow> nat \<Rightarrow> nat \<Rightarrow> nat list \<Rightarrow> mem \<Rightarrow> (mem \<times> nat list) option" where
  "tokenize_loop pch sep save buf m =
     (if pch = 0 then Some (m, buf)
      else do {
        (m, pch', save) \<leftarrow> strtok_r 0 sep save m;
        tokenize_loop pch' sep save (buf @ [pch]) m
      })"

definition tokenize :: "nat \<Rightarrow> nat \<Rightarrow> mem \<Rightarrow> (mem \<times> nat list) option" where
  "tokenize str sep m = do {
     (m, pch, save) \<leftarrow> strtok_r str sep 0 m;
     if pch = 0 then Some (m, []) else tokenize_loop pch sep save [] m
   }"

section \<open>Numbers\<close>

partial_function (option) atoi_loop :: "nat \<Rightarrow> u64 \<Rightarrow> mem \<Rightarrow> u64 option" where
  "atoi_loop c out m = do {
     b \<leftarrow> m c;
     if b = 0 then Some out else atoi_loop (c + 1) (out * 10 + (scast b - 48)) m
   }"

definition atoi :: "nat \<Rightarrow> mem \<Rightarrow> u32 option" where
  "atoi c m = do {
     b \<leftarrow> m c;
     if b = 45 then do { out \<leftarrow> atoi_loop (c + 1) 0 m; Some (ucast (out * (- 1))) }
     else do { out \<leftarrow> atoi_loop c 0 m; Some (ucast (out * 1)) }
   }"

definition xtoi_digit :: "u8 \<Rightarrow> u64" where
  "xtoi_digit b =
     (if 48 \<le> sint b \<and> sint b \<le> 57 then scast b - 48
      else if 97 \<le> sint b \<and> sint b \<le> 102 then scast b - 97 + 10
      else if 65 \<le> sint b \<and> sint b \<le> 70 then scast b - 65 + 10
      else 0)"

partial_function (option) xtoi_loop :: "nat \<Rightarrow> u64 \<Rightarrow> mem \<Rightarrow> u64 option" where
  "xtoi_loop c out m = do {
     b \<leftarrow> m c;
     if b = 0 then Some out else xtoi_loop (c + 1) (out * 16 + xtoi_digit b) m
   }"

definition xtoi :: "nat \<Rightarrow> mem \<Rightarrow> u64 option" where
  "xtoi c m = do {
     b0 \<leftarrow> m c;
     c \<leftarrow> (if b0 = 48 then do { b1 \<leftarrow> m (c + 1); Some (if b1 = 120 then c + 2 else c) } else Some c);
     xtoi_loop c 0 m
   }"

section \<open>Finding a zero byte in a word\<close>

lemma ONES_word: "ONES = 0x0101010101010101"
  by (simp add: ONES_def)

lemma HIGHS_word: "HIGHS = ONES * 128"
  by (simp add: HIGHS_def)

fun ones_int :: "nat \<Rightarrow> int" where
  "ones_int 0 = 0"
| "ones_int (Suc n) = 1 + 256 * ones_int n"

lemma bit_byte_add:
  fixes c y :: int
  assumes "0 \<le> c" "c < 256"
  shows "bit (c + 256 * y) k \<longleftrightarrow> (if k < 8 then bit c k else bit y (k - 8))"
proof (cases "k < 8")
  case True
  have "take_bit 8 (c + 256 * y) = c" using assms by (simp add: take_bit_eq_mod)
  then have "bit c k = bit (take_bit 8 (c + 256 * y)) k" by simp
  then show ?thesis using True by (simp add: bit_take_bit_iff)
next
  case False
  have "drop_bit 8 (c + 256 * y) = y" using assms by (simp add: drop_bit_eq_div)
  then have "bit y (k - 8) = bit (drop_bit 8 (c + 256 * y)) (k - 8)" by simp
  then show ?thesis using False by (simp add: bit_drop_bit_eq)
qed

definition haszero_int :: "nat \<Rightarrow> int \<Rightarrow> int" where
  "haszero_int n x = (x - ones_int n) AND NOT x AND (128 * ones_int n)"

lemma byte_trick: "0 < (b :: u8) \<Longrightarrow> bit (uint b - 1) 7 \<Longrightarrow> bit (uint b) 7"
proof -
  assume b: "0 < b" "bit (uint b - 1) 7"
  have r: "1 \<le> uint b" "uint b < 256" using b(1) uint_lt2p [of b] by (auto simp: word_less_def)
  have "odd ((uint b - 1) div 128)" using b(2) by (simp add: bit_iff_odd)
  then have "uint b - 1 \<ge> 128" using r by (cases "uint b - 1 < 128") auto
  then have "uint b div 128 = 1" using r by auto
  then show ?thesis by (simp add: bit_iff_odd)
qed

lemma bit_128: "bit (128::int) k \<longleftrightarrow> k = 7"
proof -
  have "(128::int) = 2 ^ 7" by simp
  then show ?thesis by (simp only: bit_exp_iff) auto
qed

lemma haszero_step:
  fixes b :: u8
  shows "haszero_int (Suc n) (uint b + 256 * y) \<noteq> 0 \<longleftrightarrow> b = 0 \<or> haszero_int n y \<noteq> 0"
proof -
  have nz: "z \<noteq> 0 \<longleftrightarrow> (\<exists>k. bit z k)" for z :: int
    by (metis bit_eq_iff bit_0_eq bot_apply bot_bool_def)
  have ub: "0 \<le> uint b" "uint b < 256" using uint_lt2p [of b] by auto
  have hi: "bit (128 * ones_int (Suc n)) k \<longleftrightarrow> (if k < 8 then k = 7 else bit (128 * ones_int n) (k - 8))" for k
    using bit_byte_add [of 128 "128 * ones_int n" k] by (simp add: bit_128 algebra_simps)
  show ?thesis
  proof (cases "b = 0")
    case True
    have "bit (uint b + 256 * y - ones_int (Suc n)) 7"
      using bit_byte_add [of 255 "y - ones_int n - 1" 7] True by (simp add: algebra_simps bit_iff_odd)
    moreover have "\<not> bit (uint b + 256 * y) 7"
      using bit_byte_add [of 0 y 7] True by simp
    ultimately show ?thesis using True hi [of 7]
      by (auto simp: haszero_int_def nz bit_and_iff bit_not_iff)
  next
    case False
    then have b1: "1 \<le> uint b" using ub by (metis uint_0_iff order_le_less zless_imp_add1_zle add_0)
    have lo: "bit (uint b + 256 * y - ones_int (Suc n)) k \<longleftrightarrow>
       (if k < 8 then bit (uint b - 1) k else bit (y - ones_int n) (k - 8))" for k
      using bit_byte_add [of "uint b - 1" "y - ones_int n" k] b1 ub by (simp add: algebra_simps)
    have x: "bit (uint b + 256 * y) k \<longleftrightarrow> (if k < 8 then bit (uint b) k else bit y (k - 8))" for k
      using bit_byte_add ub by blast
    have eq: "bit (haszero_int (Suc n) (uint b + 256 * y)) k \<longleftrightarrow> 8 \<le> k \<and> bit (haszero_int n y) (k - 8)" for k
      using lo [of k] x [of k] hi [of k] byte_trick [of b] False
      by (auto simp: haszero_int_def bit_and_iff bit_not_iff word_neq_0_conv)
    have "(\<exists>k\<ge>8. bit (haszero_int n y) (k - 8)) \<longleftrightarrow> (\<exists>k. bit (haszero_int n y) k)"
      by (metis le_add2 add_diff_cancel_right')
    then show ?thesis using False eq by (auto simp: nz)
  qed
qed

lemma haszero_int_bytes: "haszero_int (length bs) (le_int bs) \<noteq> 0 \<longleftrightarrow> 0 \<in> set bs"
proof (induction bs)
  case Nil then show ?case by (simp add: haszero_int_def)
next
  case (Cons b bs)
  then show ?case using haszero_step [of "length bs" b "le_int bs"] by auto
qed

lemma haszero_bytes:
  assumes "length bs = 8"
  shows "HASZERO (le_word bs) \<noteq> 0 \<longleftrightarrow> 0 \<in> set bs"
proof -
  have o: "ones_int 8 = 0x0101010101010101" by (simp add: numeral_eq_Suc)
  have "HASZERO (le_word bs) = word_of_int (haszero_int 8 (le_int bs))"
    by (simp add: HASZERO_def HIGHS_word ONES_word le_word_def haszero_int_def o wi_hom_syms of_int_and_eq of_int_not_eq)
  moreover have "0 \<le> haszero_int 8 x" "haszero_int 8 x < 2 ^ 64" for x
  proof -
    show "0 \<le> haszero_int 8 x" by (simp add: haszero_int_def o)
    have "haszero_int 8 x \<le> 128 * ones_int 8"
      unfolding haszero_int_def by (metis AND_upper2 o ab_semigroup_mult_class.mult_ac(1) and.assoc mult_nonneg_nonneg zero_le_numeral)
    also have "\<dots> < 2 ^ 64" by (simp add: o)
    finally show "haszero_int 8 x < 2 ^ 64" .
  qed
  ultimately have "uint (HASZERO (le_word bs)) = haszero_int 8 (le_int bs)"
    by (simp add: uint_word_of_int_eq take_bit_int_eq_self)
  then have "HASZERO (le_word bs) = 0 \<longleftrightarrow> haszero_int 8 (le_int bs) = 0"
    by (metis uint_0_iff)
  then show ?thesis using haszero_int_bytes [of bs] assms by simp
qed

section \<open>Copies\<close>

definition mapped :: "mem \<Rightarrow> nat \<Rightarrow> nat \<Rightarrow> bool" where
  "mapped m p n \<longleftrightarrow> (\<forall>a. p \<le> a \<and> a < p + n \<longrightarrow> m a \<noteq> None)"

definition copied :: "mem \<Rightarrow> nat \<Rightarrow> nat \<Rightarrow> nat \<Rightarrow> mem" where
  "copied m d s n = (\<lambda>a. if d \<le> a \<and> a < d + n then m (s + (a - d)) else m a)"

lemma rdn_mapped: "mapped m p k \<Longrightarrow> rdn m p k = Some (map (\<lambda>i. the (m (p + i))) [0..<k])"
proof (induction k arbitrary: p)
  case (Suc k)
  from Suc.prems have "mapped m (Suc p) k" by (simp add: mapped_def)
  from Suc.IH [OF this] have "rdn m (Suc p) k = Some (map (\<lambda>i. the (m (Suc p + i))) [0..<k])" .
  moreover from Suc.prems obtain b where "m p = Some b" by (force simp: mapped_def)
  ultimately show ?case
    by (simp add: upt_conv_Cons map_Suc_upt [symmetric] o_def del: upt_Suc)
qed simp

lemma wrn_mapped:
  "mapped m p (length bs) \<Longrightarrow>
   wrn p bs m = Some (\<lambda>a. if p \<le> a \<and> a < p + length bs then Some (bs ! (a - p)) else m a)"
proof (induction bs arbitrary: p m)
  case (Cons b bs)
  from Cons.prems have mp: "m p \<noteq> None" by (simp add: mapped_def)
  from Cons.prems have "mapped (m(p \<mapsto> b)) (Suc p) (length bs)" by (simp add: mapped_def)
  note ih = Cons.IH [OF this]
  have "wrn p (b # bs) m = wrn (Suc p) bs (m(p \<mapsto> b))" using mp by (auto simp: wr_def)
  also note ih
  also have "(\<lambda>a. if Suc p \<le> a \<and> a < Suc p + length bs then Some (bs ! (a - Suc p)) else (m(p \<mapsto> b)) a) =
      (\<lambda>a. if p \<le> a \<and> a < p + length (b # bs) then Some ((b # bs) ! (a - p)) else m a)"
    by (rule ext) (auto simp: nth_Cons')
  finally show ?case .
qed (auto intro!: ext)

lemma mapped_at: "mapped m s k \<Longrightarrow> i < k \<Longrightarrow> Some (the (m (s + i))) = m (s + i)"
  by (force simp: mapped_def)

lemma mv_mapped:
  assumes "mapped m s k" "mapped m d k"
  shows "mv k d s m = Some (copied m d s k)"
proof -
  let ?bs = "map (\<lambda>i. the (m (s + i))) [0..<k]"
  have "mv k d s m = wrn d ?bs m" using rdn_mapped [OF assms(1)] by (simp add: mv_def)
  also have "\<dots> = Some (\<lambda>a. if d \<le> a \<and> a < d + k then Some (?bs ! (a - d)) else m a)"
    using wrn_mapped [of m d ?bs] assms(2) by simp
  also have "\<dots> = Some (copied m d s k)"
    using mapped_at [OF assms(1)] by (auto simp: copied_def intro!: ext)
  finally show ?thesis .
qed

lemma copied_0 [simp]: "copied m d s 0 = m"
  by (auto simp: copied_def intro!: ext)

lemma mapped_copied: "mapped m s n \<Longrightarrow> mapped m p k \<Longrightarrow> mapped (copied m d s n) p k"
  unfolding mapped_def copied_def
  by (smt (verit) add_diff_inverse_nat le_add1 nat_add_left_cancel_less not_le)

lemma mapped_split: "mapped m p (a + b) \<longleftrightarrow> mapped m p a \<and> mapped m (p + a) b"
  by (auto simp: mapped_def) (metis add.assoc le_add_diff_inverse not_le)

text \<open>Copying upwards in two parts is copying once, when the destination is not inside the rest of the source.\<close>

definition safe_up :: "nat \<Rightarrow> nat \<Rightarrow> nat \<Rightarrow> bool" where
  "safe_up d s n \<longleftrightarrow> d \<le> s \<or> s + n \<le> d"

definition safe_down :: "nat \<Rightarrow> nat \<Rightarrow> nat \<Rightarrow> bool" where
  "safe_down d s n \<longleftrightarrow> s \<le> d \<or> d + n \<le> s"

lemma copied_up:
  assumes "safe_up d s (k + n)"
  shows "copied (copied m d s k) (d + k) (s + k) n = copied m d s (k + n)"
proof
  fix a
  show "copied (copied m d s k) (d + k) (s + k) n a = copied m d s (k + n) a"
  proof (cases "d + k \<le> a \<and> a < d + k + n")
    case True
    then have e: "s + k + (a - (d + k)) = s + (a - d)" by simp
    have "\<not> (d \<le> s + (a - d) \<and> s + (a - d) < d + k)" using True assms by (auto simp: safe_up_def)
    then show ?thesis using True unfolding copied_def by (simp only: e) (auto simp: add.assoc)
  next
    case False
    then show ?thesis by (auto simp: copied_def)
  qed
qed

lemma copied_down:
  assumes "safe_down d s (k + n)"
  shows "copied (copied m (d + n) (s + n) k) d s n = copied m d s (k + n)"
proof
  fix a
  show "copied (copied m (d + n) (s + n) k) d s n a = copied m d s (k + n) a"
    using assms by (auto simp: copied_def safe_down_def)
qed

lemma cp_loop_copies:
  assumes "0 < k" "mapped m s n" "mapped m d n" "safe_up d s n"
  shows "cp_loop k d s n m = Some (copied m d s (n div k * k), d + n div k * k, s + n div k * k, n mod k)"
  using assms
proof (induction k d s n m rule: cp_loop.induct)
  case (1 k d s n m)
  show ?case
  proof (cases "k \<le> n")
    case True
    let ?m = "copied m d s k"
    have n: "n = k + (n - k)" using True by simp
    have mp: "mapped m s k" "mapped m d k" "mapped m (s + k) (n - k)" "mapped m (d + k) (n - k)"
      using "1.prems"(2,3) mapped_split [of m s k "n - k"] mapped_split [of m d k "n - k"] True by auto
    have mv: "mv k d s m = Some ?m" using mp by (simp add: mv_mapped)
    have su: "safe_up (d + k) (s + k) (n - k)" using "1.prems"(4) True by (auto simp: safe_up_def)
    have q: "n div k * k = k + (n - k) div k * k" "n mod k = (n - k) mod k"
      using True "1.prems"(1) by (simp_all add: div_if mod_if)
    have "safe_up d s (k + (n - k) div k * k)"
      using "1.prems"(4) q div_times_less_eq_dividend [of n k] by (simp add: safe_up_def) linarith
    note cu = copied_up [OF this]
    have "cp_loop k (d + k) (s + k) (n - k) ?m =
        Some (copied ?m (d + k) (s + k) ((n - k) div k * k), d + k + (n - k) div k * k,
              s + k + (n - k) div k * k, (n - k) mod k)"
      using "1.IH" [OF _ mv] "1.prems"(1) True su mapped_copied [OF mp(1)] mp(3,4) by auto
    then show ?thesis using True "1.prems"(1) mv q cu
      by (subst cp_loop.simps) (simp add: add.assoc)
  next
    case False
    then show ?thesis by (subst cp_loop.simps) simp
  qed
qed

lemma cp_loop_1:
  assumes "mapped m s n" "mapped m d n" "safe_up d s n"
  shows "cp_loop 1 d s n m = Some (copied m d s n, d + n, s + n, 0)"
  using cp_loop_copies [of 1, OF _ assms] by simp

text \<open>A partial copy by units of \<open>k\<close> bytes followed by the rest.\<close>

lemma cp_loop_then:
  assumes "0 < k" "mapped m s n" "mapped m d n" "safe_up d s n"
  shows "\<exists>m' d' s' n'. cp_loop k d s n m = Some (m', d', s', n') \<and>
    mapped m' s' n' \<and> mapped m' d' n' \<and> safe_up d' s' n' \<and> copied m' d' s' n' = copied m d s n"
proof -
  let ?q = "n div k * k"
  have n: "n = ?q + n mod k" by simp
  have mp: "mapped m s ?q" "mapped m d ?q" "mapped m (s + ?q) (n mod k)" "mapped m (d + ?q) (n mod k)"
    using assms(2,3) mapped_split [of m s ?q "n mod k"] mapped_split [of m d ?q "n mod k"] by auto
  have "safe_up (d + ?q) (s + ?q) (n mod k)" using assms(4) n by (auto simp: safe_up_def)
  moreover have "copied (copied m d s ?q) (d + ?q) (s + ?q) (n mod k) = copied m d s n"
    using copied_up [of d s ?q "n mod k"] assms(4) by simp
  ultimately show ?thesis
    using cp_loop_copies [OF assms] mapped_copied [OF mp(1)] mp(3,4) by simp
qed

lemma memcpy_copies:
  assumes "mapped m s n" "mapped m d n" "safe_up d s n"
  shows "memcpy d s n m = Some (copied m d s n)"
proof -
  obtain m1 d1 s1 n1 where 1: "(if d mod 8 = 0 \<and> s mod 8 = 0 then cp_loop 8 d s n m else Some (m, d, s, n)) = Some (m1, d1, s1, n1)"
    "mapped m1 s1 n1" "mapped m1 d1 n1" "safe_up d1 s1 n1" "copied m1 d1 s1 n1 = copied m d s n"
    using cp_loop_then [where k = 8, OF _ assms] assms by (cases "d mod 8 = 0 \<and> s mod 8 = 0") auto
  obtain m2 d2 s2 n2 where 2: "(if d1 mod 4 = 0 \<and> s1 mod 4 = 0 then cp_loop 4 d1 s1 n1 m1 else Some (m1, d1, s1, n1)) = Some (m2, d2, s2, n2)"
    "mapped m2 s2 n2" "mapped m2 d2 n2" "safe_up d2 s2 n2" "copied m2 d2 s2 n2 = copied m d s n"
    using cp_loop_then [where k = 4, OF _ 1(2-4)] 1 by (cases "d1 mod 4 = 0 \<and> s1 mod 4 = 0") auto
  show ?thesis using 1(1) 2(1,5) cp_loop_1 [OF 2(2-4)] by (simp add: memcpy_def)
qed

definition up_post :: "mem \<Rightarrow> mem + mem \<times> nat \<times> nat \<times> nat \<Rightarrow> bool" where
  "up_post X r = (case r of Inl m \<Rightarrow> m = X
     | Inr (m, d, s, n) \<Rightarrow> mapped m s n \<and> mapped m d n \<and> safe_up d s n \<and> copied m d s n = X)"

definition down_post :: "nat \<Rightarrow> nat \<Rightarrow> mem \<Rightarrow> mem + mem \<times> nat \<Rightarrow> bool" where
  "down_post d s X r = (case r of Inl m \<Rightarrow> m = X
     | Inr (m, n) \<Rightarrow> mapped m s n \<and> mapped m d n \<and> safe_down d s n \<and> copied m d s n = X)"

lemma mm_head_up_copies:
  assumes "mapped m s n" "mapped m d n" "safe_up d s n"
  shows "\<exists>r. mm_head_up d s n m = Some r \<and> up_post (copied m d s n) r"
  using assms
proof (induction d s n m rule: mm_head_up.induct)
  case (1 d s n m)
  consider "d mod 8 = 0" | "d mod 8 \<noteq> 0" "n = 0" | k where "d mod 8 \<noteq> 0" "n = Suc k"
    by (cases n) auto
  then show ?case
  proof cases
    case 1
    then show ?thesis using "1.prems" by (subst mm_head_up.simps) (auto simp: up_post_def)
  next
    case 2
    then show ?thesis by (subst mm_head_up.simps) (auto simp: up_post_def)
  next
    case (3 k)
    have mp: "mapped m s 1" "mapped m d 1" "mapped m (s + 1) k" "mapped m (d + 1) k"
      using "1.prems"(1,2) 3 mapped_split [of m s 1 k] mapped_split [of m d 1 k] by auto
    have mv: "mv 1 d s m = Some (copied m d s 1)" using mp by (simp add: mv_mapped)
    have "safe_up (d + 1) (s + 1) k" using "1.prems"(3) 3 by (auto simp: safe_up_def)
    moreover have "copied (copied m d s 1) (d + 1) (s + 1) k = copied m d s n"
      using copied_up [of d s 1 k] "1.prems"(3) 3 by simp
    ultimately show ?thesis
      using "1.IH" [OF _ _ mv] 3 mv mapped_copied [OF mp(1)] mp(3,4)
      by (subst mm_head_up.simps) (auto simp: up_post_def)
  qed
qed

lemma down_step:
  assumes "mapped m s n" "mapped m d n" "safe_down d s n" "k \<le> n"
  shows "mv k (d + (n - k)) (s + (n - k)) m = Some (copied m (d + (n - k)) (s + (n - k)) k)"
    "mapped (copied m (d + (n - k)) (s + (n - k)) k) s (n - k)"
    "mapped (copied m (d + (n - k)) (s + (n - k)) k) d (n - k)"
    "safe_down d s (n - k)"
    "copied (copied m (d + (n - k)) (s + (n - k)) k) d s (n - k) = copied m d s n"
proof -
  have mp: "mapped m s (n - k)" "mapped m d (n - k)" "mapped m (s + (n - k)) k" "mapped m (d + (n - k)) k"
    using assms(1,2,4) mapped_split [of m s "n - k" k] mapped_split [of m d "n - k" k] by auto
  then show "mv k (d + (n - k)) (s + (n - k)) m = Some (copied m (d + (n - k)) (s + (n - k)) k)"
    "mapped (copied m (d + (n - k)) (s + (n - k)) k) s (n - k)"
    "mapped (copied m (d + (n - k)) (s + (n - k)) k) d (n - k)"
    by (simp_all add: mv_mapped mapped_copied)
  show "safe_down d s (n - k)" using assms(3) by (auto simp: safe_down_def)
  show "copied (copied m (d + (n - k)) (s + (n - k)) k) d s (n - k) = copied m d s n"
    using copied_down [of d s k "n - k" m] assms(3,4) by simp
qed

lemma mm_head_down_copies:
  assumes "mapped m s n" "mapped m d n" "safe_down d s n"
  shows "\<exists>r. mm_head_down d s n m = Some r \<and> down_post d s (copied m d s n) r"
  using assms
proof (induction d s n m rule: mm_head_down.induct)
  case (1 d s n m)
  consider "(d + n) mod 8 = 0" | "(d + n) mod 8 \<noteq> 0" "n = 0" | "(d + n) mod 8 \<noteq> 0" "1 \<le> n"
    by (cases n) auto
  then show ?case
  proof cases
    case 1
    then show ?thesis using "1.prems" by (subst mm_head_down.simps) (auto simp: down_post_def)
  next
    case 2
    then show ?thesis by (subst mm_head_down.simps) (auto simp: down_post_def)
  next
    case 3
    note st = down_step [OF "1.prems" 3(2)]
    let ?m = "copied m (d + (n - 1)) (s + (n - 1)) 1"
    have "\<exists>r. mm_head_down d s (n - 1) ?m = Some r \<and> down_post d s (copied ?m d s (n - 1)) r"
      using "1.IH" [OF 3(1) _ st(1)] 3(2) st(2-4) by simp
    then show ?thesis using 3 st(1,5) by (subst mm_head_down.simps) simp
  qed
qed

lemma mm_down_copies:
  assumes "0 < k" "mapped m s n" "mapped m d n" "safe_down d s n"
  shows "\<exists>m'. mm_down k d s n m = Some (m', n mod k) \<and> mapped m' s (n mod k) \<and> mapped m' d (n mod k) \<and>
    safe_down d s (n mod k) \<and> copied m' d s (n mod k) = copied m d s n"
  using assms
proof (induction k d s n m rule: mm_down.induct)
  case (1 k d s n m)
  show ?case
  proof (cases "k \<le> n")
    case True
    note st = down_step [OF "1.prems"(2-4) True]
    have "n mod k = (n - k) mod k" using True by (simp add: le_mod_geq)
    then show ?thesis using "1.IH" [OF _ st(1)] "1.prems"(1) True st by (subst mm_down.simps) auto
  next
    case False
    then show ?thesis using "1.prems" by (subst mm_down.simps) auto
  qed
qed

lemma memmove_copies:
  assumes "mapped m s n" "mapped m d n"
  shows "memmove d s n m = Some (copied m d s n)"
proof -
  have id: "copied m s s n = m" by (auto simp: copied_def fun_eq_iff)
  consider (same) "d = s" | (apart) "d \<noteq> s" "s + n \<le> d \<or> d + n \<le> s"
    | (up) "d < s" "\<not> (s + n \<le> d \<or> d + n \<le> s)" | (down) "s < d" "\<not> (s + n \<le> d \<or> d + n \<le> s)"
    by linarith
  then show ?thesis
  proof cases
    case same
    then show ?thesis by (simp add: memmove_def id)
  next
    case apart
    then have "safe_up d s n" by (auto simp: safe_up_def)
    then show ?thesis using apart assms by (simp add: memmove_def memcpy_copies)
  next
    case up
    then have su: "safe_up d s n" by (simp add: safe_up_def)
    show ?thesis
    proof (cases "s mod 8 = d mod 8")
      case True
      from mm_head_up_copies [OF assms su] obtain r where r: "mm_head_up d s n m = Some r"
        "up_post (copied m d s n) r" by blast
      show ?thesis
      proof (cases r)
        case (Inl m')
        then show ?thesis using r up True by (simp add: memmove_def up_post_def)
      next
        case (Inr x)
        obtain m1 d1 s1 n1 where x: "x = (m1, d1, s1, n1)" by (cases x)
        with r(2) Inr have p: "mapped m1 s1 n1" "mapped m1 d1 n1" "safe_up d1 s1 n1"
          "copied m1 d1 s1 n1 = copied m d s n" by (auto simp: up_post_def)
        obtain m2 d2 s2 n2 where q: "cp_loop 8 d1 s1 n1 m1 = Some (m2, d2, s2, n2)"
          "mapped m2 s2 n2" "mapped m2 d2 n2" "safe_up d2 s2 n2" "copied m2 d2 s2 n2 = copied m1 d1 s1 n1"
          using cp_loop_then [where k = 8, OF _ p(1-3)] by auto
        show ?thesis using r(1) Inr x up True q(1,5) p(4) cp_loop_1 [OF q(2-4)]
          by (simp add: memmove_def)
      qed
    next
      case False
      then show ?thesis using up cp_loop_1 [OF assms su] by (simp add: memmove_def)
    qed
  next
    case down
    then have sd: "safe_down d s n" by (simp add: safe_down_def)
    have one: "\<exists>m'. mm_down 1 d s n' m1 = Some (m', 0) \<and> m' = copied m1 d s n'"
      if "mapped m1 s n'" "mapped m1 d n'" "safe_down d s n'" for m1 n'
      using mm_down_copies [of 1, OF _ that] by auto
    show ?thesis
    proof (cases "s mod 8 = d mod 8")
      case True
      from mm_head_down_copies [OF assms sd] obtain r where r: "mm_head_down d s n m = Some r"
        "down_post d s (copied m d s n) r" by blast
      show ?thesis
      proof (cases r)
        case (Inl m')
        then show ?thesis using r down True by (simp add: memmove_def down_post_def)
      next
        case (Inr x)
        obtain m1 n1 where x: "x = (m1, n1)" by (cases x)
        with r(2) Inr have p: "mapped m1 s n1" "mapped m1 d n1" "safe_down d s n1"
          "copied m1 d s n1 = copied m d s n" by (auto simp: down_post_def)
        obtain m2 where q: "mm_down 8 d s n1 m1 = Some (m2, n1 mod 8)" "mapped m2 s (n1 mod 8)"
          "mapped m2 d (n1 mod 8)" "safe_down d s (n1 mod 8)" "copied m2 d s (n1 mod 8) = copied m1 d s n1"
          using mm_down_copies [of 8, OF _ p(1-3)] by auto
        show ?thesis using r(1) Inr x down True q(1,5) p(4) one [OF q(2-4)]
          by (auto simp: memmove_def)
      qed
    next
      case False
      then show ?thesis using down one [OF assms sd] by (auto simp: memmove_def)
    qed
  qed
qed

section \<open>Zero-terminated strings\<close>

fun cstr :: "mem \<Rightarrow> nat \<Rightarrow> u8 list \<Rightarrow> bool" where
  "cstr m s [] \<longleftrightarrow> m s = Some 0"
| "cstr m s (b # bs) \<longleftrightarrow> b \<noteq> 0 \<and> m s = Some b \<and> cstr m (s + 1) bs"

text \<open>The machine word that holds the terminator is mapped, as it is when pages are mapped whole.\<close>

definition word_mapped :: "mem \<Rightarrow> nat \<Rightarrow> bool" where
  "word_mapped m e \<longleftrightarrow> mapped m (e div 8 * 8) 8"

lemma cstr_drop: "cstr m s bs \<Longrightarrow> i \<le> length bs \<Longrightarrow> cstr m (s + i) (drop i bs)"
proof (induction i arbitrary: s bs)
  case (Suc i)
  then show ?case by (cases bs) (use Suc.IH [of "s + 1"] in auto)
qed simp

lemma cstr_nth: "cstr m s bs \<Longrightarrow> i < length bs \<Longrightarrow> m (s + i) = Some (bs ! i)"
  using cstr_drop [of m s bs i] by (simp add: Cons_nth_drop_Suc [symmetric])

lemma cstr_end: "cstr m s bs \<Longrightarrow> m (s + length bs) = Some 0"
  using cstr_drop [of m s bs "length bs"] by simp

lemma cstr_no_zero: "cstr m s bs \<Longrightarrow> 0 \<notin> set bs"
  by (induction bs arbitrary: s) auto

lemma cstr_at: "cstr m s bs \<Longrightarrow> m s = Some (case bs of [] \<Rightarrow> 0 | b # _ \<Rightarrow> b)"
  by (cases bs) auto

lemma cstr_cong: "(\<forall>a. s \<le> a \<and> a \<le> s + length bs \<longrightarrow> m' a = m a) \<Longrightarrow> cstr m' s bs \<longleftrightarrow> cstr m s bs"
  by (induction bs arbitrary: s) auto

lemma cstr_mapped: "cstr m s bs \<Longrightarrow> mapped m s (Suc (length bs))"
proof -
  assume c: "cstr m s bs"
  have "m (s + i) \<noteq> None" if "i < Suc (length bs)" for i
    using that cstr_nth [OF c] cstr_end [OF c] by (cases "i = length bs") auto
  then show "mapped m s (Suc (length bs))" unfolding mapped_def by (metis le_Suc_ex nat_add_left_cancel_less)
qed

lemma rd_word:
  assumes "cstr m w bs" "8 \<le> length bs"
  shows "rdn m w 8 = Some (take 8 bs)"
proof -
  have "mapped m w 8" using cstr_mapped [OF assms(1)] assms(2) by (auto simp: mapped_def)
  then have "rdn m w 8 = Some (map (\<lambda>i. the (m (w + i))) [0..<8])" by (rule rdn_mapped)
  also have "map (\<lambda>i. the (m (w + i))) [0..<8] = take 8 bs"
    using assms cstr_nth [OF assms(1)] by (intro nth_equalityI) auto
  finally show ?thesis .
qed

lemma rd_last_word:
  assumes "cstr m w bs" "length bs < 8" "w mod 8 = 0" "word_mapped m (w + length bs)"
  obtains ws where "rdn m w 8 = Some ws" "length ws = 8" "take (Suc (length bs)) ws = bs @ [0]"
proof -
  have "(w + length bs) div 8 * 8 = w" using assms(2,3) by presburger
  then have "mapped m w 8" using assms(4) by (simp add: word_mapped_def)
  then have r: "rdn m w 8 = Some (map (\<lambda>i. the (m (w + i))) [0..<8])" by (rule rdn_mapped)
  have "take (Suc (length bs)) (map (\<lambda>i. the (m (w + i))) [0..<8]) = bs @ [0]"
    using assms(2) cstr_nth [OF assms(1)] cstr_end [OF assms(1)]
    by (intro nth_equalityI) (auto simp: nth_append less_Suc_eq)
  with r that show thesis by simp
qed

lemma strlen_bytes_cstr: "cstr m s bs \<Longrightarrow> strlen_bytes s m = Some (s + length bs)"
proof (induction bs arbitrary: s)
  case Nil
  then show ?case by (subst strlen_bytes.simps) simp
next
  case (Cons b bs)
  then have "strlen_bytes s m = strlen_bytes (s + 1) m" by (subst strlen_bytes.simps) simp
  then show ?case using Cons.IH [of "s + 1"] Cons.prems by simp
qed

lemma strlen_align_cstr:
  "cstr m s bs \<Longrightarrow> \<exists>i \<le> length bs.
     strlen_align s m = Some (if (s + i) mod 8 = 0 then Inr (s + i) else Inl (s + length bs))"
proof (induction bs arbitrary: s)
  case Nil
  then show ?case by (subst strlen_align.simps) simp
next
  case (Cons b bs)
  show ?case
  proof (cases "s mod 8 = 0")
    case True
    then have "strlen_align s m = Some (if (s + 0) mod 8 = 0 then Inr (s + 0) else Inl (s + length (b # bs)))"
      by (subst strlen_align.simps) simp
    then show ?thesis by (intro exI [of _ 0]) simp
  next
    case False
    then have e: "strlen_align s m = strlen_align (s + 1) m" using Cons.prems by (subst strlen_align.simps) simp
    have "cstr m (s + 1) bs" using Cons.prems by simp
    from Cons.IH [OF this] obtain i where "i \<le> length bs" "strlen_align (s + 1) m =
      Some (if (s + 1 + i) mod 8 = 0 then Inr (s + 1 + i) else Inl (s + 1 + length bs))" by blast
    then show ?thesis using e by (intro exI [of _ "Suc i"]) simp
  qed
qed

lemma strlen_words_cstr:
  assumes "cstr m w bs" "w mod 8 = 0" "word_mapped m (w + length bs)"
  shows "\<exists>i \<le> length bs. strlen_words w m = Some (w + i)"
  using assms
proof (induction "length bs" arbitrary: w bs rule: less_induct)
  case less
  note z = cstr_no_zero [OF less.prems(1)]
  show ?case
  proof (cases "8 \<le> length bs")
    case True
    have "0 \<notin> set (take 8 bs)" using z by (meson in_set_takeD)
    then have h: "HASZERO (le_word (take 8 bs)) = 0" using haszero_bytes [of "take 8 bs"] True by simp
    have "strlen_words w m = strlen_words (w + 8) m"
      using rd_word [OF less.prems(1) True] h by (subst strlen_words.simps) (simp add: rd64_def)
    moreover have "\<exists>i \<le> length (drop 8 bs). strlen_words (w + 8) m = Some (w + 8 + i)"
      using less.hyps [of "drop 8 bs" "w + 8"] True less.prems cstr_drop [OF less.prems(1) True] by simp
    then obtain i where "i \<le> length (drop 8 bs)" "strlen_words (w + 8) m = Some (w + 8 + i)" by blast
    ultimately have "8 + i \<le> length bs \<and> strlen_words w m = Some (w + (8 + i))" using True by simp
    then show ?thesis by blast
  next
    case False
    then have "length bs < 8" by simp
    from rd_last_word [OF less.prems(1) this less.prems(2,3)] obtain ws where
      ws: "rdn m w 8 = Some ws" "length ws = 8" "take (Suc (length bs)) ws = bs @ [0]" .
    from ws(3) have "0 \<in> set ws" by (metis in_set_conv_decomp in_set_takeD)
    then have "strlen_words w m = Some (w + 0)" using haszero_bytes [OF ws(2)] ws(1)
      by (subst strlen_words.simps) (simp add: rd64_def)
    then show ?thesis by blast
  qed
qed

lemma strlen_cstr:
  assumes "cstr m s bs" "word_mapped m (s + length bs)"
  shows "strlen s m = Some (length bs)"
proof -
  from strlen_align_cstr [OF assms(1)] consider "strlen_align s m = Some (Inl (s + length bs))"
    | i where "i \<le> length bs" "strlen_align s m = Some (Inr (s + i))" "(s + i) mod 8 = 0" by (metis (full_types))
  then show ?thesis
  proof cases
    case 1
    then show ?thesis by (simp add: strlen_def)
  next
    case (2 i)
    note ci = cstr_drop [OF assms(1) 2(1)]
    from strlen_words_cstr [OF ci 2(3)] assms(2) 2(1) obtain j where
      j: "j \<le> length (drop i bs)" "strlen_words (s + i) m = Some (s + i + j)" by auto
    from strlen_bytes_cstr [OF cstr_drop [OF ci j(1)]] j 2 show ?thesis by (simp add: strlen_def)
  qed
qed

section \<open>Comparing\<close>

lemma sint_byte_less: "sint (x :: u8) = sint y \<longleftrightarrow> x = y"
  by (metis signed_word_eqI)

fun scmp :: "u8 list \<Rightarrow> u8 list \<Rightarrow> int" where
  "scmp [] [] = 0"
| "scmp [] (y # ys) = (if 0 < sint y then - 1 else 1)"
| "scmp (x # xs) [] = (if sint x < 0 then - 1 else 1)"
| "scmp (x # xs) (y # ys) = (if sint x < sint y then - 1 else if sint y < sint x then 1 else scmp xs ys)"

lemma strcmp_cstr:
  "cstr m (a + unat i) xs \<Longrightarrow> cstr m (b + unat i) ys \<Longrightarrow> unat i + length xs < 2 ^ 32 \<Longrightarrow>
   strcmp_from a b i m = Some (scmp xs ys)"
proof (induction xs ys arbitrary: i rule: scmp.induct)
  case 1
  then show ?case by (subst strcmp_from.simps) simp
next
  case (2 y ys)
  then have "sint y \<noteq> 0" using sint_byte_less [of y 0] by simp
  then show ?case using 2 by (subst strcmp_from.simps) simp
next
  case (3 x xs)
  then have "sint x \<noteq> 0" using sint_byte_less [of x 0] by simp
  then show ?case using 3 by (subst strcmp_from.simps) simp
next
  case (4 x xs y ys)
  consider "sint x < sint y" | "sint y < sint x" | "x = y" using sint_byte_less [of x y] by linarith
  then show ?case
  proof cases
    case 3
    have i: "unat (i + 1) = unat i + 1" using "4.prems"(3) unat_add_lem [of i 1] by simp
    have "strcmp_from a b i m = strcmp_from a b (i + 1) m"
      using "4.prems" 3 by (subst strcmp_from.simps) simp
    then show ?thesis using "4.IH" [of "i + 1"] "4.prems" 3 i by simp
  next
    case 1
    then show ?thesis using "4.prems" by (subst strcmp_from.simps) simp
  next
    case 2
    then show ?thesis using "4.prems" by (subst strcmp_from.simps) simp
  qed
qed

lemma scmp_eq [simp]: "scmp xs ys = 0 \<longleftrightarrow> xs = ys"
proof (induction xs ys rule: scmp.induct)
  case (4 x xs y ys)
  consider "sint x < sint y" | "sint y < sint x" | "x = y" using sint_byte_less [of x y] by linarith
  then show ?case by cases (use 4 in auto)
qed auto

section \<open>Finding a byte\<close>

lemma bit_le_int: "bit (le_int bs) k \<longleftrightarrow> k < 8 * length bs \<and> bit (bs ! (k div 8)) (k mod 8)"
proof (induction bs arbitrary: k)
  case (Cons b bs)
  have ub: "0 \<le> uint b" "uint b < 256" using uint_lt2p [of b] by auto
  show ?case
  proof (cases "k < 8")
    case True
    then show ?thesis using bit_byte_add [OF ub, of "le_int bs" k] by (simp add: bit_uint_iff)
  next
    case False
    then have "k div 8 = Suc ((k - 8) div 8)" "k mod 8 = (k - 8) mod 8" "k - 8 < 8 * length bs \<longleftrightarrow> k < 8 * length (b # bs)"
      by (auto simp: div_if mod_if)
    then show ?thesis using bit_byte_add [OF ub, of "le_int bs" k] False Cons.IH [of "k - 8"] by simp
  qed
qed simp

lemma le_word_xor:
  assumes "length xs = 8" "length ys = 8"
  shows "le_word xs XOR le_word ys = le_word (map2 (XOR) xs ys)"
proof (rule bit_word_eqI)
  fix n assume n: "n < LENGTH(64)"
  then have "n div 8 < 8" by simp
  then show "bit (le_word xs XOR le_word ys) n \<longleftrightarrow> bit (le_word (map2 (XOR) xs ys)) n"
    using n assms by (simp add: le_word_def bit_xor_iff bit_of_int_iff bit_le_int)
qed

lemma ones_times: "ONES * ucast (c :: u8) = le_word (replicate 8 c)"
proof -
  have u: "(ucast c :: u64) = word_of_int (uint c)" by (metis of_int_uint)
  have "le_word (replicate 8 c) = word_of_int (0x0101010101010101 * uint c)"
    by (simp add: le_word_def numeral_eq_Suc)
  also have "\<dots> = ONES * word_of_int (uint c)"
    by (simp add: ONES_word)
  finally show ?thesis by (simp only: u)
qed

lemma haszero_xor:
  assumes "length bs = 8"
  shows "HASZERO (le_word bs XOR (ONES * ucast c)) \<noteq> 0 \<longleftrightarrow> c \<in> set bs"
proof -
  have m: "map2 (XOR) bs (replicate 8 c) = map (\<lambda>b. b XOR c) bs"
    using assms by (auto intro: nth_equalityI)
  have "HASZERO (le_word (map (\<lambda>b. b XOR c) bs)) \<noteq> 0 \<longleftrightarrow> 0 \<in> set (map (\<lambda>b. b XOR c) bs)"
    using assms by (intro haszero_bytes) simp
  also have "\<dots> \<longleftrightarrow> c \<in> set bs"
    by (auto simp: image_iff) (metis xor.right_neutral xor_self_eq xor.left_commute)+
  finally show ?thesis using le_word_xor [OF assms, of "replicate 8 c"] m by (simp add: ones_times)
qed

abbreviation pos_of :: "u8 \<Rightarrow> u8 list \<Rightarrow> nat" where
  "pos_of c bs \<equiv> length (takeWhile (\<lambda>b. b \<noteq> c) bs)"

lemma pos_of_drop: "i \<le> pos_of c bs \<Longrightarrow> pos_of c bs = i + pos_of c (drop i bs)"
proof (induction i arbitrary: bs)
  case (Suc i)
  then show ?case by (cases bs) (auto split: if_splits)
qed simp

lemma pos_of_zero: "0 \<notin> set bs \<Longrightarrow> pos_of 0 bs = length bs"
  by (induction bs) auto

lemma chr_bytes_cstr: "cstr m s bs \<Longrightarrow> chr_bytes s c m = Some (s + pos_of c bs)"
proof (induction bs arbitrary: s)
  case Nil
  then show ?case by (subst chr_bytes.simps) simp
next
  case (Cons b bs)
  show ?case
  proof (cases "b = c")
    case True
    then show ?thesis using Cons.prems by (subst chr_bytes.simps) simp
  next
    case False
    then have "chr_bytes s c m = chr_bytes (s + 1) c m" using Cons.prems by (subst chr_bytes.simps) simp
    then show ?thesis using Cons.IH [of "s + 1"] Cons.prems False by simp
  qed
qed

lemma chr_align_cstr:
  "cstr m s bs \<Longrightarrow> \<exists>i \<le> pos_of c bs.
     chr_align s c m = Some (if (s + i) mod 8 = 0 then Inr (s + i) else Inl (s + pos_of c bs))"
proof (induction bs arbitrary: s)
  case Nil
  then show ?case by (subst chr_align.simps) simp
next
  case (Cons b bs)
  show ?case
  proof (cases "s mod 8 = 0 \<or> b = c")
    case True
    then have "chr_align s c m = Some (if (s + 0) mod 8 = 0 then Inr (s + 0) else Inl (s + pos_of c (b # bs)))"
      using Cons.prems by (subst chr_align.simps) auto
    then show ?thesis by (intro exI [of _ 0]) simp
  next
    case False
    then have e: "chr_align s c m = chr_align (s + 1) c m" using Cons.prems by (subst chr_align.simps) simp
    have "cstr m (s + 1) bs" using Cons.prems by simp
    from Cons.IH [OF this] obtain i where "i \<le> pos_of c bs" "chr_align (s + 1) c m =
      Some (if (s + 1 + i) mod 8 = 0 then Inr (s + 1 + i) else Inl (s + 1 + pos_of c bs))" by blast
    then show ?thesis using e False by (intro exI [of _ "Suc i"]) simp
  qed
qed

lemma chr_words_cstr:
  assumes "cstr m w bs" "w mod 8 = 0" "word_mapped m (w + length bs)"
  shows "\<exists>i \<le> pos_of c bs. chr_words w (ONES * ucast c) m = Some (w + i)"
  using assms
proof (induction "length bs" arbitrary: w bs rule: less_induct)
  case less
  note z = cstr_no_zero [OF less.prems(1)]
  let ?k = "ONES * ucast c"
  have stop: "chr_words w ?k m = Some (w + 0)"
    if "rdn m w 8 = Some ws" "length ws = 8" "0 \<in> set ws \<or> c \<in> set ws" for ws
    using that haszero_bytes [OF that(2)] haszero_xor [OF that(2), of c]
    by (subst chr_words.simps) (auto simp: rd64_def)
  show ?case
  proof (cases "8 \<le> length bs")
    case True
    have z8: "0 \<notin> set (take 8 bs)" "length (take 8 bs) = 8" using z True by (auto dest: in_set_takeD)
    show ?thesis
    proof (cases "c \<in> set (take 8 bs)")
      case True
      then show ?thesis using stop [OF rd_word [OF less.prems(1) \<open>8 \<le> length bs\<close>] z8(2)] by (intro exI [of _ 0]) simp
    next
      case False
      then have "chr_words w ?k m = chr_words (w + 8) ?k m"
        using rd_word [OF less.prems(1) True] haszero_bytes [OF z8(2)] haszero_xor [OF z8(2), of c] z8(1)
        by (subst chr_words.simps) (simp add: rd64_def)
      moreover have "\<exists>i \<le> pos_of c (drop 8 bs). chr_words (w + 8) ?k m = Some (w + 8 + i)"
        using less.hyps [of "drop 8 bs" "w + 8"] True less.prems cstr_drop [OF less.prems(1) True] by simp
      then obtain i where "i \<le> pos_of c (drop 8 bs)" "chr_words (w + 8) ?k m = Some (w + 8 + i)" by blast
      moreover have "pos_of c bs = 8 + pos_of c (drop 8 bs)"
      proof -
        have "x \<noteq> c" if "x \<in> set (take 8 bs)" for x using that False by blast
        then have "takeWhile (\<lambda>b. b \<noteq> c) (take 8 bs @ drop 8 bs) = take 8 bs @ takeWhile (\<lambda>b. b \<noteq> c) (drop 8 bs)"
          by (rule takeWhile_append2)
        then show ?thesis using True by simp
      qed
      ultimately show ?thesis by (intro exI [of _ "8 + i"]) simp
    qed
  next
    case False
    then have "length bs < 8" by simp
    from rd_last_word [OF less.prems(1) this less.prems(2,3)] obtain ws where
      ws: "rdn m w 8 = Some ws" "length ws = 8" "take (Suc (length bs)) ws = bs @ [0]" .
    from ws(3) have "0 \<in> set ws" by (metis in_set_conv_decomp in_set_takeD)
    then show ?thesis using stop [OF ws(1,2)] by (intro exI [of _ 0]) simp
  qed
qed

lemma strchrnul_cstr:
  assumes "cstr m s bs" "word_mapped m (s + length bs)"
  shows "strchrnul s c m = Some (s + pos_of c bs)"
proof (cases "c = 0")
  case True
  then show ?thesis using strlen_cstr [OF assms] pos_of_zero [OF cstr_no_zero [OF assms(1)]]
    by (simp add: strchrnul_def)
next
  case False
  from chr_align_cstr [OF assms(1), of c] obtain i where i: "i \<le> pos_of c bs" "chr_align s c m =
    Some (if (s + i) mod 8 = 0 then Inr (s + i) else Inl (s + pos_of c bs))" by blast
  show ?thesis
  proof (cases "(s + i) mod 8 = 0")
    case True
    have il: "i \<le> length bs" using i(1) length_takeWhile_le [of "\<lambda>b. b \<noteq> c" bs] by linarith
    note ci = cstr_drop [OF assms(1) il]
    have "word_mapped m (s + i + length (drop i bs))" using assms(2) il by simp
    from chr_words_cstr [OF ci True this, of c] obtain j where
      j: "j \<le> pos_of c (drop i bs)" "chr_words (s + i) (ONES * ucast c) m = Some (s + i + j)" by blast
    have jl: "j \<le> length (drop i bs)" using j(1) length_takeWhile_le [of "\<lambda>b. b \<noteq> c" "drop i bs"] by linarith
    have p: "s + i + j + pos_of c (drop j (drop i bs)) = s + pos_of c bs"
      using pos_of_drop [OF i(1)] pos_of_drop [OF j(1)] by linarith
    have "strchrnul s c m = chr_bytes (s + i + j) c m"
      using False i(2) True j(2) by (simp add: strchrnul_def)
    then show ?thesis using chr_bytes_cstr [OF cstr_drop [OF ci jl], of c] p by simp
  qed (use False i(2) in \<open>simp add: strchrnul_def\<close>)
qed

lemma cstr_pos_of:
  "cstr m s bs \<Longrightarrow> m (s + pos_of c bs) = Some (if c \<in> set bs then c else 0)"
proof -
  assume c: "cstr m s bs"
  show ?thesis
  proof (cases "pos_of c bs < length bs")
    case True
    then have "bs ! pos_of c bs = c" using nth_length_takeWhile [of "\<lambda>b. b \<noteq> c" bs] by blast
    moreover then have "c \<in> set bs" using nth_mem [OF True] by simp
    ultimately show ?thesis using cstr_nth [OF c True] by simp
  next
    case False
    then have e: "pos_of c bs = length bs" using length_takeWhile_le [of "\<lambda>b. b \<noteq> c" bs] by linarith
    then have "c \<notin> set bs" by (induction bs) (auto split: if_splits)
    then show ?thesis using cstr_end [OF c] e by simp
  qed
qed

lemma strchr_cstr:
  assumes "cstr m s bs" "word_mapped m (s + length bs)"
  shows "strchr s c m = Some (if c \<in> set bs \<or> c = 0 then s + pos_of c bs else 0)"
  using strchrnul_cstr [OF assms, of c] cstr_pos_of [OF assms(1), of c] by (auto simp: strchr_def)

lemma memrchr_None: "memrchr p c n m = Some r \<Longrightarrow> r = 0 \<or> (p \<le> r \<and> r < p + n \<and> m r = Some c)"
  by (induction n) (auto simp: bind_eq_Some_conv split: if_splits)

section \<open>Byte sets\<close>

definition bset :: "byteset \<Rightarrow> u8 set" where
  "bset A = {b. bitop_and A b \<noteq> 0}"

lemma bset_iff: "b \<in> bset A \<longleftrightarrow> bit (A ! (unat b div 64)) (unat b mod 64)"
proof -
  have "(x AND push_bit k 1 = (0 :: u64)) \<longleftrightarrow> \<not> bit x k" if "k < 64" for x k
    using that by (auto simp: and_exp_eq_0_iff_not_bit push_bit_eq_mult)
  then show ?thesis by (simp add: bset_def bitop_and_def)
qed

lemma bset_zero [simp]: "bset (replicate 4 0) = {}"
proof -
  have "unat (b :: u8) div 64 < 4" for b using unsigned_less [of b, where 'a = nat] by (simp add: less_mult_imp_div_less)
  then show ?thesis by (auto simp: bset_iff)
qed

lemma length_bitop_or [simp]: "length (bitop_or A b) = length A"
  by (simp add: bitop_or_def)

lemma bset_or:
  assumes "length A = 4"
  shows "bset (bitop_or A b) = insert b (bset A)"
proof (rule set_eqI)
  fix x :: u8
  have lt: "unat b div 64 < length A" using assms unsigned_less [of b, where 'a = nat] by (simp add: less_mult_imp_div_less)
  have eq: "x = b \<longleftrightarrow> unat x div 64 = unat b div 64 \<and> unat x mod 64 = unat b mod 64"
    by (metis div_mult_mod_eq unsigned_word_eqI)
  show "x \<in> bset (bitop_or A b) \<longleftrightarrow> x \<in> insert b (bset A)"
    using lt eq by (auto simp: bset_iff bitop_or_def nth_list_update bit_or_iff push_bit_eq_mult bit_exp_iff)
qed

lemma byteset_fill_cstr:
  "cstr m c cs \<Longrightarrow> length A = 4 \<Longrightarrow> \<exists>B. byteset_fill c A m = Some B \<and> bset B = bset A \<union> set cs"
proof (induction cs arbitrary: c A)
  case Nil
  then show ?case by (subst byteset_fill.simps) simp
next
  case (Cons b cs)
  then have "byteset_fill c A m = byteset_fill (c + 1) (bitop_or A b) m" by (subst byteset_fill.simps) simp
  then show ?case using Cons.IH [of "c + 1" "bitop_or A b"] Cons.prems by (auto simp: bset_or)
qed

lemma byteset_span_cstr:
  "cstr m s bs \<Longrightarrow> byteset_span w s A m = Some (s + length (takeWhile (\<lambda>b. (b \<in> bset A) = w) bs))"
proof (induction bs arbitrary: s)
  case Nil
  then show ?case by (subst byteset_span.simps) simp
next
  case (Cons b bs)
  show ?case
  proof (cases "(b \<in> bset A) = w")
    case True
    then have "byteset_span w s A m = byteset_span w (s + 1) A m"
      using Cons.prems by (subst byteset_span.simps) (simp add: bset_def)
    then show ?thesis using Cons.IH [of "s + 1"] Cons.prems True by simp
  next
    case False
    then show ?thesis using Cons.prems by (subst byteset_span.simps) (simp add: bset_def)
  qed
qed

lemma same_span_cstr:
  "cstr m s bs \<Longrightarrow> c \<noteq> 0 \<Longrightarrow> same_span s c m = Some (s + length (takeWhile (\<lambda>b. b = c) bs))"
proof (induction bs arbitrary: s)
  case Nil
  then show ?case by (subst same_span.simps) simp
next
  case (Cons b bs)
  show ?case
  proof (cases "b = c")
    case True
    then have "same_span s c m = same_span (s + 1) c m" using Cons.prems by (subst same_span.simps) simp
    then show ?thesis using Cons.IH [of "s + 1"] Cons.prems True by simp
  next
    case False
    then show ?thesis using Cons.prems by (subst same_span.simps) simp
  qed
qed

lemma strspn_cstr:
  assumes "cstr m s bs" "cstr m c cs"
  shows "strspn s c m = Some (length (takeWhile (\<lambda>b. b \<in> set cs) bs))"
proof -
  consider "cs = []" | x where "cs = [x]" | x y zs where "cs = x # y # zs"
    by (metis list.exhaust)
  then show ?thesis
  proof cases
    case 1
    then show ?thesis using assms(2) by (simp add: strspn_def) (cases bs; simp)
  next
    case (2 x)
    then show ?thesis using assms(2) same_span_cstr [OF assms(1), of x] by (simp add: strspn_def)
  next
    case (3 x y zs)
    obtain B where "byteset_fill c (replicate 4 0) m = Some B" "bset B = set cs"
      using byteset_fill_cstr [OF assms(2), of "replicate 4 0"] by auto
    then show ?thesis using 3 assms(2) byteset_span_cstr [OF assms(1), of True B] by (simp add: strspn_def)
  qed
qed

lemma strcspn_cstr:
  assumes "cstr m s bs" "cstr m c cs" "word_mapped m (s + length bs)"
  shows "strcspn s c m = Some (length (takeWhile (\<lambda>b. b \<notin> set cs) bs))"
proof -
  consider "cs = []" | x where "cs = [x]" | x y zs where "cs = x # y # zs"
    by (metis list.exhaust)
  then show ?thesis
  proof cases
    case 1
    have "length (takeWhile (\<lambda>b. True) bs) = length bs" by (induction bs) auto
    then show ?thesis
      using 1 assms(2) strchrnul_cstr [OF assms(1,3), of 0] pos_of_zero [OF cstr_no_zero [OF assms(1)]]
      by (simp add: strcspn_def)
  next
    case (2 x)
    then show ?thesis using assms(2) strchrnul_cstr [OF assms(1,3), of x] by (simp add: strcspn_def)
  next
    case (3 x y zs)
    obtain B where "byteset_fill c (replicate 4 0) m = Some B" "bset B = set cs"
      using byteset_fill_cstr [OF assms(2), of "replicate 4 0"] by auto
    then show ?thesis using 3 assms(2) byteset_span_cstr [OF assms(1), of False B] by (simp add: strcspn_def)
  qed
qed

section \<open>Splitting into tokens\<close>

function split_tokens :: "u8 set \<Rightarrow> u8 list \<Rightarrow> u8 list list" where
  "split_tokens D bs =
     (let r = dropWhile (\<lambda>b. b \<in> D) bs
      in if r = [] then []
         else takeWhile (\<lambda>b. b \<notin> D) r # split_tokens D (drop 1 (dropWhile (\<lambda>b. b \<notin> D) r)))"
  by pat_completeness auto
termination
proof (relation "measure (\<lambda>(D, bs). length bs)")
  fix D :: "u8 set" and bs r :: "u8 list"
  assume r: "r = dropWhile (\<lambda>b. b \<in> D) bs" "r \<noteq> []"
  have "length r \<le> length bs" using r(1) by (simp add: length_dropWhile_le)
  moreover have "length (drop 1 (dropWhile (\<lambda>b. b \<notin> D) r)) < length r"
    using r(2) length_dropWhile_le [of "\<lambda>b. b \<notin> D" r] by (cases r) auto
  ultimately show "((D, drop 1 (dropWhile (\<lambda>b. b \<notin> D) r)), D, bs) \<in> measure (\<lambda>(D, bs). length bs)" by simp
qed simp

declare split_tokens.simps [simp del]

lemma strpbrk_cstr:
  assumes "cstr m s bs" "cstr m c cs" "word_mapped m (s + length bs)"
  shows "strpbrk s c m = Some (if \<exists>b \<in> set bs. b \<in> set cs then s + length (takeWhile (\<lambda>b. b \<notin> set cs) bs) else 0)"
proof -
  let ?n = "length (takeWhile (\<lambda>b. b \<notin> set cs) bs)"
  note n = strcspn_cstr [OF assms]
  show ?thesis
  proof (cases "\<exists>b \<in> set bs. b \<in> set cs")
    case True
    then have lt: "?n < length bs" by (induction bs) auto
    then have "bs ! ?n \<noteq> 0" using cstr_no_zero [OF assms(1)] by (metis nth_mem)
    then show ?thesis using True n cstr_nth [OF assms(1) lt] by (simp add: strpbrk_def)
  next
    case False
    then have "?n = length bs" by (induction bs) auto
    then show ?thesis using False n cstr_end [OF assms(1)] by (simp add: strpbrk_def)
  qed
qed

definition strtok_result :: "mem \<Rightarrow> nat \<Rightarrow> u8 set \<Rightarrow> u8 list \<Rightarrow> mem \<times> nat \<times> nat" where
  "strtok_result m s D bs =
     (let t = s + length (takeWhile (\<lambda>b. b \<in> D) bs);
          r = dropWhile (\<lambda>b. b \<in> D) bs;
          e = t + length (takeWhile (\<lambda>b. b \<notin> D) r)
      in if r = [] then (m, 0, s + length bs)
         else if dropWhile (\<lambda>b. b \<notin> D) r = [] then (m, t, s + length bs)
         else (m(e \<mapsto> 0), t, e + 1))"

lemma cstr_dropWhile: "cstr m s bs \<Longrightarrow> cstr m (s + length (takeWhile P bs)) (dropWhile P bs)"
  using cstr_drop [of m s bs "length (takeWhile P bs)"] by (simp add: dropWhile_eq_drop length_takeWhile_le)

lemma length_split: "length (takeWhile P bs) + length (dropWhile P bs) = length bs"
  by (metis length_append takeWhile_dropWhile_id)

lemma strtok_r_cstr:
  assumes c: "cstr m s bs" "cstr m d ds" "word_mapped m (s + length bs)"
    and st: "s = (if str = 0 then save else str)" "s \<noteq> 0"
  shows "strtok_r str d save m = Some (strtok_result m s (set ds) bs)"
proof -
  define i where "i = length (takeWhile (\<lambda>b. b \<in> set ds) bs)"
  define r where "r = dropWhile (\<lambda>b. b \<in> set ds) bs"
  define e where "e = s + i + length (takeWhile (\<lambda>b. b \<notin> set ds) r)"
  note res = strtok_result_def [of m s "set ds" bs, folded i_def r_def, unfolded Let_def, folded e_def]
  have len: "s + i + length r = s + length bs"
    unfolding i_def r_def using length_split [of "\<lambda>b. b \<in> set ds" bs] by linarith
  have cr: "cstr m (s + i) r" "word_mapped m (s + i + length r)"
    using cstr_dropWhile [OF c(1), of "\<lambda>b. b \<in> set ds"] c(3) len by (simp_all only: i_def r_def)
  have sp: "strspn s d m = Some i" using strspn_cstr [OF c(1,2)] by (simp only: i_def)
  have pb: "strpbrk (s + i) d m = Some (if dropWhile (\<lambda>b. b \<notin> set ds) r = [] then 0 else e)"
    using strpbrk_cstr [OF cr(1) c(2) cr(2)] by (simp add: dropWhile_eq_Nil_conv e_def)
  show ?thesis
  proof (cases r)
    case Nil
    then show ?thesis using sp cr(1) st(1) len res by (simp add: strtok_r_def Let_def)
  next
    case (Cons x xs)
    then have nz: "m (s + i) = Some x" "x \<noteq> 0" using cr(1) by auto
    show ?thesis
    proof (cases "dropWhile (\<lambda>b. b \<notin> set ds) r = []")
      case True
      have "lfind (s + i) 0 m = Some (s + length bs)"
        using strchr_cstr [OF cr, of 0] pos_of_zero [OF cstr_no_zero [OF cr(1)]] len by (simp add: lfind_def)
      then have "strtok_r str d save m = Some (m, s + i, s + length bs)"
        using nz sp st(1) pb True by (simp del: dropWhile_eq_Nil_conv add: strtok_r_def Let_def)
      then show ?thesis using True Cons res by (simp only: list.distinct simp_thms if_True if_False)
    next
      case False
      obtain y where "m e = Some y"
        using cstr_at [OF cstr_dropWhile [OF cr(1), of "\<lambda>b. b \<notin> set ds"]] by (simp add: e_def)
      moreover have "e \<noteq> 0" using st(2) by (simp add: e_def)
      ultimately have "strtok_r str d save m = Some (m(e \<mapsto> 0), s + i, e + 1)"
        using nz sp st(1) pb False by (simp del: dropWhile_eq_Nil_conv add: strtok_r_def Let_def wr_def)
      then show ?thesis using False Cons res by (simp only: list.distinct if_True if_False)
    qed
  qed
qed

lemma split_tokens_empty: "dropWhile (\<lambda>b. b \<in> D) bs = [] \<Longrightarrow> split_tokens D bs = []"
  by (subst split_tokens.simps) simp

lemma split_tokens_step:
  "dropWhile (\<lambda>b. b \<in> D) bs = r \<Longrightarrow> r \<noteq> [] \<Longrightarrow>
   split_tokens D bs = takeWhile (\<lambda>b. b \<notin> D) r # split_tokens D (drop 1 (dropWhile (\<lambda>b. b \<notin> D) r))"
  by (subst split_tokens.simps) (simp add: Let_def)

lemma cstr_cut:
  assumes "cstr m s bs" "i < length bs"
  shows "cstr (m(s + i \<mapsto> 0)) s (take i bs)" "cstr (m(s + i \<mapsto> 0)) (s + i + 1) (drop (Suc i) bs)"
proof -
  show "cstr (m(s + i \<mapsto> 0)) s (take i bs)" using assms
  proof (induction i arbitrary: s bs)
    case 0
    then show ?case by simp
  next
    case (Suc i)
    then obtain b bs' where "bs = b # bs'" by (cases bs) auto
    with Suc.IH [of "s + 1" bs'] Suc.prems show ?case by simp
  qed
  have "cstr m (s + Suc i) (drop (Suc i) bs)" using assms by (intro cstr_drop) auto
  then show "cstr (m(s + i \<mapsto> 0)) (s + i + 1) (drop (Suc i) bs)" by (subst cstr_cong [where m = m]) auto
qed

text \<open>One call: what it returns, what is left, and what it does not touch.\<close>

definition token_step :: "mem \<Rightarrow> nat \<Rightarrow> u8 list \<Rightarrow> u8 list \<Rightarrow> u8 list \<Rightarrow> mem \<Rightarrow> nat \<Rightarrow> nat \<Rightarrow> bool" where
  "token_step m s bs tok bs' m' t s' \<longleftrightarrow>
     cstr m' t tok \<and> cstr m' s' bs' \<and> s \<le> t \<and> (t + length tok < s' \<or> t + length tok = s' \<and> bs' = []) \<and>
     s < s' \<and> s' + length bs' = s + length bs \<and>
     (\<forall>a. a < s \<or> s + length bs \<le> a \<longrightarrow> m' a = m a) \<and> dom m' = dom m"

lemma token_stepD:
  assumes "token_step m s bs tok bs' m' t s'"
  shows "cstr m' t tok" "cstr m' s' bs'" "s \<le> t" "s < s'" "s' + length bs' = s + length bs"
    "length bs' < length bs" "dom m' = dom m"
    "\<And>a. a < s \<Longrightarrow> m' a = m a" "\<And>a. s + length bs \<le> a \<Longrightarrow> m' a = m a"
    "\<And>a. a \<le> t + length tok \<Longrightarrow> a < s' \<or> s' + length bs' \<le> a"
proof -
  note ts = assms [unfolded token_step_def]
  show "cstr m' t tok" "cstr m' s' bs'" "s \<le> t" and ss: "s < s'" "s' + length bs' = s + length bs" and "dom m' = dom m"
    using ts by blast+
  from ss show "length bs' < length bs" by linarith
  show "\<And>a. a < s \<Longrightarrow> m' a = m a" "\<And>a. s + length bs \<le> a \<Longrightarrow> m' a = m a" using ts by blast+
  have "t + length tok < s' \<or> t + length tok = s' \<and> bs' = []" using ts by blast
  then show "\<And>a. a \<le> t + length tok \<Longrightarrow> a < s' \<or> s' + length bs' \<le> a" by auto
qed

lemma strtok_r_step:
  assumes c: "cstr m s bs" "cstr m d ds" "word_mapped m (s + length bs)"
    and st: "s = (if str = 0 then save else str)" "s \<noteq> 0"
    and r: "dropWhile (\<lambda>b. b \<in> set ds) bs = r" "r \<noteq> []"
  shows "\<exists>m' t s'. strtok_r str d save m = Some (m', t, s') \<and>
    token_step m s bs (takeWhile (\<lambda>b. b \<notin> set ds) r) (drop 1 (dropWhile (\<lambda>b. b \<notin> set ds) r)) m' t s'"
proof -
  define i where "i = length (takeWhile (\<lambda>b. b \<in> set ds) bs)"
  define tok where "tok = takeWhile (\<lambda>b. b \<notin> set ds) r"
  define after where "after = dropWhile (\<lambda>b. b \<notin> set ds) r"
  define e where "e = s + i + length tok"
  note res = strtok_result_def [of m s "set ds" bs, folded i_def, unfolded Let_def r(1), folded tok_def after_def, folded e_def]
  have len: "i + length r = length bs" "length tok + length after = length r" "tok @ after = r"
    using length_split [of "\<lambda>b. b \<in> set ds" bs] length_split [of "\<lambda>b. b \<notin> set ds" r]
      r(1) by (simp_all add: i_def tok_def after_def)
  have cr: "cstr m (s + i) r" using cstr_dropWhile [OF c(1), of "\<lambda>b. b \<in> set ds"] r(1) by (simp only: i_def)
  show ?thesis
  proof (cases "after = []")
    case True
    have "token_step m s bs tok (drop 1 after) m (s + i) (s + length bs)"
      using True len r(2) cr cstr_end [OF c(1)] unfolding token_step_def
      by (cases r; cases bs) simp_all
    moreover have "strtok_r str d save m = Some (m, s + i, s + length bs)"
      using strtok_r_cstr [OF c st] res r(2) True by simp
    ultimately show ?thesis unfolding tok_def after_def by blast
  next
    case False
    have ne: "0 < length after" using False by simp
    then have lt: "length tok < length r" using len(2) by linarith
    have "take (length tok) r = tok" "drop (Suc (length tok)) r = drop 1 after"
      using len(3) by (metis append_eq_conv_conj, metis One_nat_def append_eq_conv_conj drop_drop plus_1_eq_Suc)
    with cstr_cut [OF cr lt] have cc: "cstr (m(e \<mapsto> 0)) (s + i) tok" "cstr (m(e \<mapsto> 0)) (e + 1) (drop 1 after)"
      by (simp_all add: e_def)
    have "m e \<noteq> None" using cstr_nth [OF cr lt] by (simp add: e_def)
    then have "dom (m(e \<mapsto> 0)) = dom m" by auto
    moreover have "e + 1 + length (drop 1 after) = s + length bs" "s \<le> e" "e < s + length bs" "s + i + length tok < e + 1"
      unfolding e_def length_drop using len(1,2) ne by linarith+
    ultimately have "token_step m s bs tok (drop 1 after) (m(e \<mapsto> 0)) (s + i) (e + 1)"
      using cc unfolding token_step_def by (intro conjI allI impI disjI1) (assumption | simp | force)+
    moreover have "strtok_r str d save m = Some (m(e \<mapsto> 0), s + i, e + 1)"
      using strtok_r_cstr [OF c st] res r(2) False by simp
    ultimately show ?thesis unfolding tok_def after_def by blast
  qed
qed

lemma word_mapped_dom: "dom m' = dom m \<Longrightarrow> word_mapped m' e \<longleftrightarrow> word_mapped m e"
  by (simp add: word_mapped_def mapped_def domIff set_eq_iff)

lemma after_token:
  assumes ts: "token_step m s bs tok bs' m1 t s1"
    and p: "cstr m d ds" "word_mapped m (s + length bs)" "s \<noteq> 0" "d + length ds < s \<or> s + length bs < d"
  shows "cstr m1 s1 bs'" "cstr m1 d ds" "word_mapped m1 (s1 + length bs')" "s1 \<noteq> 0" "t \<noteq> 0"
    "d + length ds < s1 \<or> s1 + length bs' < d"
proof -
  note ts = token_stepD [OF ts]
  show "cstr m1 s1 bs'" by (rule ts(2))
  show "s1 \<noteq> 0" "t \<noteq> 0" using ts(3,4) p(3) by linarith+
  show "d + length ds < s1 \<or> s1 + length bs' < d" using ts(4,5) p(4) by linarith
  show "word_mapped m1 (s1 + length bs')" using word_mapped_dom [OF ts(7)] ts(5) p(2) by simp
  have "m1 a = m a" if "d \<le> a" "a \<le> d + length ds" for a
    using p(4) ts(8) [of a] ts(9) [of a] that by linarith
  then show "cstr m1 d ds" using cstr_cong [of d ds m1 m] p(1) by blast
qed

lemma after_token_kept:
  assumes ts: "token_step m s bs tok bs' m1 t s1" and k: "\<forall>a. a < s1 \<or> s1 + length bs' \<le> a \<longrightarrow> m' a = m1 a"
  shows "cstr m' t tok" "\<forall>a. a < s \<or> s + length bs \<le> a \<longrightarrow> m' a = m a"
proof -
  note ts = token_stepD [OF ts]
  show "cstr m' t tok" using cstr_cong [of t tok m' m1] ts(1) ts(10) k by metis
  show "\<forall>a. a < s \<or> s + length bs \<le> a \<longrightarrow> m' a = m a"
  proof (intro allI impI)
    fix a assume that: "a < s \<or> s + length bs \<le> a"
    then have "a < s1 \<or> s1 + length bs' \<le> a" using ts(4,5) by linarith
    then show "m' a = m a" using k ts(8,9) that by metis
  qed
qed

lemma tokenize_loop_cstr:
  assumes "cstr m save bs" "cstr m d ds" "word_mapped m (save + length bs)" "save \<noteq> 0" "pch \<noteq> 0"
    "d + length ds < save \<or> save + length bs < d"
  shows "\<exists>m' ps. tokenize_loop pch d save buf m = Some (m', buf @ pch # ps) \<and>
    list_all2 (cstr m') ps (split_tokens (set ds) bs) \<and> (\<forall>a. a < save \<or> save + length bs \<le> a \<longrightarrow> m' a = m a)"
  using assms
proof (induction "length bs" arbitrary: m save bs pch buf rule: less_induct)
  case less
  note p = less.prems
  define r where "r = dropWhile (\<lambda>b. b \<in> set ds) bs"
  show ?case
  proof (cases "r = []")
    case True
    have "strtok_r 0 d save m = Some (m, 0, save + length bs)"
      using strtok_r_cstr [OF p(1-3), of 0 save] p(4) True by (simp add: strtok_result_def Let_def r_def)
    then have "tokenize_loop pch d save buf m = Some (m, buf @ [pch])"
      using p(5) by (subst tokenize_loop.simps, simp) (subst tokenize_loop.simps, simp)
    then show ?thesis using True split_tokens_empty [of "set ds" bs] by (simp add: r_def)
  next
    case False
    from strtok_r_step [OF p(1-3) _ p(4) r_def [symmetric] False, of 0 save]
      split_tokens_step [OF r_def [symmetric] False] obtain m1 t s1 tok bs' where
      s: "strtok_r 0 d save m = Some (m1, t, s1)" "token_step m save bs tok bs' m1 t s1"
        "split_tokens (set ds) bs = tok # split_tokens (set ds) bs'" by auto
    note a = after_token [OF s(2) p(2-4,6)]
    from less.hyps [OF token_stepD(6) [OF s(2)] a(1-6), of "buf @ [pch]"] obtain m' ps where
      ih: "tokenize_loop t d s1 (buf @ [pch]) m1 = Some (m', (buf @ [pch]) @ t # ps)"
        "list_all2 (cstr m') ps (split_tokens (set ds) bs')" "\<forall>a. a < s1 \<or> s1 + length bs' \<le> a \<longrightarrow> m' a = m1 a"
      by blast
    have "tokenize_loop pch d save buf m = Some (m', buf @ pch # t # ps)"
      using p(5) s(1) ih(1) by (subst tokenize_loop.simps) simp
    then show ?thesis using ih(2) s(3) after_token_kept [OF s(2) ih(3)]
      by (intro exI [of _ m'] exI [of _ "t # ps"]) simp
  qed
qed

lemma tokenize_cstr:
  assumes "cstr m str bs" "cstr m sep ds" "word_mapped m (str + length bs)" "str \<noteq> 0"
    "sep + length ds < str \<or> str + length bs < sep"
  shows "\<exists>m' ps. tokenize str sep m = Some (m', ps) \<and> list_all2 (cstr m') ps (split_tokens (set ds) bs)"
proof (cases "dropWhile (\<lambda>b. b \<in> set ds) bs = []")
  case True
  then have "strtok_r str sep 0 m = Some (m, 0, str + length bs)"
    using strtok_r_cstr [OF assms(1-3), of str 0] assms(4) by (simp add: strtok_result_def Let_def)
  then show ?thesis using True split_tokens_empty [of "set ds" bs] by (simp add: tokenize_def)
next
  case False
  from strtok_r_step [OF assms(1-3) _ assms(4) refl False, of str 0] assms(4)
    split_tokens_step [OF refl False] obtain m1 t s1 tok bs' where
    s: "strtok_r str sep 0 m = Some (m1, t, s1)" "token_step m str bs tok bs' m1 t s1"
      "split_tokens (set ds) bs = tok # split_tokens (set ds) bs'" by auto
  note a = after_token [OF s(2) assms(2-5)]
  from tokenize_loop_cstr [OF a(1-6), of "[]"] obtain m' ps where
    "tokenize_loop t sep s1 [] m1 = Some (m', t # ps)" "list_all2 (cstr m') ps (split_tokens (set ds) bs')"
    "\<forall>a. a < s1 \<or> s1 + length bs' \<le> a \<longrightarrow> m' a = m1 a" by auto
  then show ?thesis using s a(5) after_token_kept [OF s(2)]
    by (intro exI [of _ m'] exI [of _ "t # ps"]) (simp add: tokenize_def)
qed

lemma copied_cstr:
  assumes "cstr m s bs"
  shows "cstr (copied m d s (Suc (length bs))) d bs"
proof -
  have "cstr (copied m d s n) d bs" if "cstr m s bs" "length bs < n" for n d s
    using that
  proof (induction bs arbitrary: d s n)
    case Nil
    then show ?case by (simp add: copied_def)
  next
    case (Cons b bs)
    have "cstr (copied m (d + 1) (s + 1) (n - 1)) (d + 1) bs" using Cons by (intro Cons.IH) auto
    moreover have "copied m d s n a = copied m (d + 1) (s + 1) (n - 1) a" if "d + 1 \<le> a" "a \<le> d + 1 + length bs" for a
      using that Cons.prems(2) by (auto simp: copied_def Suc_diff_Suc)
    ultimately have "cstr (copied m d s n) (d + 1) bs" using cstr_cong [of "d + 1" bs] by blast
    then show ?case using Cons.prems by (simp add: copied_def)
  qed
  then show ?thesis using assms by simp
qed

section \<open>Properties\<close>

definition ex_mem :: "u8 list \<Rightarrow> mem" where
  "ex_mem bs = (\<lambda>a. if a < length bs then Some (bs ! a) else None)"

text \<open>
  Property C10.  For a readable source and a writable destination of \<open>n\<close> bytes each, whatever their
  overlap and alignment, \<^verbatim>\<open>memmove\<close> returns and the destination holds exactly the bytes the source
  held before the call; no other byte changes.
\<close>

theorem memmove_correct:
  assumes "mapped m src n" "mapped m dest n"
  shows "memmove dest src n m =
    Some (\<lambda>a. if dest \<le> a \<and> a < dest + n then m (src + (a - dest)) else m a)"
  using memmove_copies [OF assms] by (simp add: copied_def)

theorem memmove_correct_witness:
  "mapped (ex_mem (replicate 32 7)) 1 24 \<and> mapped (ex_mem (replicate 32 7)) 5 24 \<and>
   memmove 5 1 24 (ex_mem (replicate 32 7)) =
     Some (\<lambda>a. if 5 \<le> a \<and> a < 5 + 24 then ex_mem (replicate 32 7) (1 + (a - 5)) else ex_mem (replicate 32 7) a)"
proof -
  have m: "mapped (ex_mem (replicate 32 7)) 1 24" "mapped (ex_mem (replicate 32 7)) 5 24"
    by (auto simp: mapped_def ex_mem_def)
  show ?thesis using memmove_correct [OF m] m by blast
qed

text \<open>\<^verbatim>\<open>memcpy\<close> of regions that do not overlap copies \<open>n\<close> bytes, whatever the alignment.\<close>

lemma memcpy_disjoint:
  assumes "mapped m src n" "mapped m dest n" "dest + n \<le> src \<or> src + n \<le> dest"
  shows "memcpy dest src n m = Some (\<lambda>a. if dest \<le> a \<and> a < dest + n then m (src + (a - dest)) else m a)"
proof -
  have su: "safe_up dest src n" using assms(3) by (auto simp: safe_up_def)
  show ?thesis using memcpy_copies [OF assms(1,2) su] by (simp add: copied_def)
qed

text \<open>
  Property C27.  On a zero-terminated string \<^verbatim>\<open>strlen\<close> returns the number of bytes before the
  terminator, although it scans a word at a time and reads past the terminator: it only needs the
  aligned word that holds the terminator to be mapped.
\<close>

theorem strlen_correct:
  assumes "cstr m s bs" "word_mapped m (s + length bs)"
  shows "strlen s m = Some (length bs)"
  by (rule strlen_cstr [OF assms])

theorem strlen_correct_witness:
  "cstr (ex_mem [0, 0, 0, 97, 98, 99, 100, 101, 102, 0, 1, 1, 1, 1, 1, 1]) 3 [97, 98, 99, 100, 101, 102] \<and>
   word_mapped (ex_mem [0, 0, 0, 97, 98, 99, 100, 101, 102, 0, 1, 1, 1, 1, 1, 1]) (3 + length [97, 98, 99, 100, 101, 102 :: u8]) \<and>
   strlen 3 (ex_mem [0, 0, 0, 97, 98, 99, 100, 101, 102, 0, 1, 1, 1, 1, 1, 1]) = Some (length [97, 98, 99, 100, 101, 102 :: u8])"
proof -
  let ?m = "ex_mem [0, 0, 0, 97, 98, 99, 100, 101, 102, 0, 1, 1, 1, 1, 1, 1]"
  have c: "cstr ?m 3 [97, 98, 99, 100, 101, 102]" by (simp add: ex_mem_def)
  have w: "word_mapped ?m (3 + length [97, 98, 99, 100, 101, 102 :: u8])"
    by (simp add: word_mapped_def mapped_def ex_mem_def)
  show ?thesis using strlen_correct [OF c w] c w by blast
qed

text \<open>
  \<^verbatim>\<open>strcmp\<close> of two zero-terminated strings, the first shorter than the range of its
  32-bit index, returns, and returns 0 exactly when the strings are equal.
\<close>

theorem strcmp_zero_iff_equal:
  assumes "cstr m l xs" "cstr m r ys" "length xs < 2 ^ 32"
  shows "\<exists>v. strcmp l r m = Some v \<and> (v = 0 \<longleftrightarrow> xs = ys)"
  using strcmp_cstr [of m l 0 xs r ys] assms
  by (simp add: strcmp_def)

theorem strcmp_zero_iff_equal_witness:
  "cstr (ex_mem [97, 98, 0, 97, 200, 0]) 0 [97, 98] \<and> cstr (ex_mem [97, 98, 0, 97, 200, 0]) 3 [97, 200] \<and>
   (\<exists>v. strcmp 0 3 (ex_mem [97, 98, 0, 97, 200, 0]) = Some v \<and> (v = 0 \<longleftrightarrow> [97, 98 :: u8] = [97, 200]))"
proof -
  have c: "cstr (ex_mem [97, 98, 0, 97, 200, 0]) 0 [97, 98]" "cstr (ex_mem [97, 98, 0, 97, 200, 0]) 3 [97, 200]"
    by (simp_all add: ex_mem_def)
  show ?thesis using strcmp_zero_iff_equal [OF c] c by simp
qed

text \<open>
  Property C7.  \<^verbatim>\<open>tokenize\<close> of a string (not itself holding the separators) returns pointers to
  exactly the maximal runs of non-separator bytes, in order, each of them a zero-terminated string
  in the memory it leaves.
\<close>

theorem tokenize_splits:
  assumes "cstr m str bs" "cstr m sep ds" "word_mapped m (str + length bs)" "str \<noteq> 0"
    "sep + length ds < str \<or> str + length bs < sep"
  shows "\<exists>m' ps. tokenize str sep m = Some (m', ps) \<and> list_all2 (cstr m') ps (split_tokens (set ds) bs)"
  by (rule tokenize_cstr [OF assms])

theorem tokenize_splits_witness:
  "\<exists>m' ps. tokenize 8 1 (ex_mem ([0, 47, 0, 0, 0, 0, 0, 0] @ [47, 97, 98, 47, 47, 99, 47, 0])) = Some (m', ps) \<and>
     list_all2 (cstr m') ps [[97, 98], [99]]"
proof -
  let ?m = "ex_mem ([0, 47, 0, 0, 0, 0, 0, 0] @ [47, 97, 98, 47, 47, 99, 47, 0])"
  have h: "cstr ?m 8 [47, 97, 98, 47, 47, 99, 47]" "cstr ?m 1 [47]" by (simp_all add: ex_mem_def)
  have w: "word_mapped ?m (8 + length [47, 97, 98, 47, 47, 99, 47 :: u8])"
    by (simp add: word_mapped_def mapped_def ex_mem_def)
  have "split_tokens (set [47]) [47, 97, 98, 47, 47, 99, 47 :: u8] = [[97, 98], [99]]"
    by (simp add: split_tokens.simps)
  then show ?thesis using tokenize_splits [OF h w] by simp
qed

text \<open>
  \<^verbatim>\<open>strdup\<close> into a fresh block leaves there the same string, and the original is
  still there.
\<close>

theorem strdup_copies:
  assumes "cstr m c bs" "word_mapped m (c + length bs)" "mapped m out (Suc (length bs))"
    "out + length bs < c \<or> c + length bs < out"
  shows "\<exists>m'. strdup c out m = Some (m', out) \<and> cstr m' out bs \<and> cstr m' c bs"
proof -
  let ?m = "copied m out c (Suc (length bs))"
  have "memcpy out c (Suc (length bs)) m = Some ?m"
    using assms(3,4) by (intro memcpy_copies cstr_mapped [OF assms(1)]) (auto simp: safe_up_def)
  then have "strdup c out m = Some (?m, out)" using strlen_cstr [OF assms(1,2)] by (simp add: strdup_def)
  moreover have "cstr ?m c bs" using cstr_cong [of c bs ?m m] assms(1,4) by (auto simp: copied_def)
  ultimately show ?thesis using copied_cstr [OF assms(1)] by blast
qed

theorem strdup_copies_witness:
  "\<exists>m'. strdup 0 8 (ex_mem [65, 66, 0, 0, 0, 0, 0, 0, 9, 9, 9]) = Some (m', 8) \<and> cstr m' 8 [65, 66] \<and> cstr m' 0 [65, 66]"
proof -
  let ?m = "ex_mem [65, 66, 0, 0, 0, 0, 0, 0, 9, 9, 9]"
  have c: "cstr ?m 0 [65, 66]" by (simp add: ex_mem_def)
  have w: "word_mapped ?m (0 + length [65, 66 :: u8])" "mapped ?m 8 (Suc (length [65, 66 :: u8]))"
    by (simp_all add: word_mapped_def mapped_def ex_mem_def)
  show ?thesis using strdup_copies [OF c w] by simp
qed

end
