(* ===== verification/Khashmap.thy ===== *)
theory Khashmap
  imports Kstring
begin

text \<open>
  The kernel's hash maps, \<^verbatim>\<open>src/kernel/misc/hashmap.c\<close>: a table of chains, with the hash, comparison
  and key-copy functions in the map (\<^verbatim>\<open>hashmap_create\<close> for string keys, \<^verbatim>\<open>hashmap_create_int\<close> for
  integers).  A chain is the list of its entries; keys are taken by value, so that copying a key
  and freeing it do not appear.  The walks are \<^verbatim>\<open>do ... while\<close> loops and are modelled as such: entering
  one with a null pointer is a fault, which is what \<^verbatim>\<open>hashmap_remove\<close> can do.
\<close>

record 'k hashmap_t =
  hash_func :: "'k \<Rightarrow> u32"
  hash_comp :: "'k \<Rightarrow> 'k \<Rightarrow> bool"
  hm_size :: u64
  hm_entries :: "('k \<times> addr) list list"

text \<open>\<^verbatim>\<open>char\<close> is signed: the byte is sign-extended before it is added.\<close>

definition sdbm_step :: "u32 \<Rightarrow> u8 \<Rightarrow> u32" where
  "sdbm_step hash c = scast c + push_bit 6 hash + push_bit 16 hash - hash"

definition hashmap_string_hash :: "u8 list \<Rightarrow> u32" where
  "hashmap_string_hash key = foldl sdbm_step 0 key"

definition hashmap_string_comp :: "u8 list \<Rightarrow> u8 list \<Rightarrow> bool" where
  "hashmap_string_comp a b \<longleftrightarrow> \<not> (scmp a b \<noteq> 0)"

definition hashmap_int_hash :: "u64 \<Rightarrow> u32" where
  "hashmap_int_hash key = ucast key"

definition hashmap_int_comp :: "u64 \<Rightarrow> u64 \<Rightarrow> bool" where
  "hashmap_int_comp a b \<longleftrightarrow> a = b"

text \<open>\<open>None\<close>: a negative size asks \<^verbatim>\<open>malloc\<close> for almost the whole address space.\<close>

definition hashmap_create :: "u32 \<Rightarrow> u8 list hashmap_t option" where
  "hashmap_create sz =
     (if sint sz < 0 then None
      else Some \<lparr> hash_func = hashmap_string_hash, hash_comp = hashmap_string_comp, hm_size = scast sz,
                  hm_entries = replicate (nat (sint sz)) [] \<rparr>)"

definition hashmap_create_int :: "u32 \<Rightarrow> u64 hashmap_t option" where
  "hashmap_create_int sz =
     (if sint sz < 0 then None
      else Some \<lparr> hash_func = hashmap_int_hash, hash_comp = hashmap_int_comp, hm_size = scast sz,
                  hm_entries = replicate (nat (sint sz)) [] \<rparr>)"

text \<open>\<^verbatim>\<open>unsigned int hash = map->hash_func(key) % map->size\<close>, a division fault for a table of size 0.\<close>

definition hash_index :: "'k hashmap_t \<Rightarrow> 'k \<Rightarrow> nat option" where
  "hash_index hm key =
     (if hm_size hm = 0 then None
      else Some (unat (ucast (ucast (hash_func hm key) mod hm_size hm) :: u32)))"

definition bucket :: "'k hashmap_t \<Rightarrow> nat \<Rightarrow> ('k \<times> addr) list option" where
  "bucket hm i = (if i < length (hm_entries hm) then Some (hm_entries hm ! i) else None)"

definition set_bucket :: "nat \<Rightarrow> ('k \<times> addr) list \<Rightarrow> 'k hashmap_t \<Rightarrow> 'k hashmap_t" where
  "set_bucket i c hm = hm\<lparr>hm_entries := (hm_entries hm)[i := c]\<rparr>"

fun set_do :: "('k \<Rightarrow> 'k \<Rightarrow> bool) \<Rightarrow> ('k \<times> addr) list \<Rightarrow> 'k \<Rightarrow> addr \<Rightarrow> (('k \<times> addr) list \<times> addr) option" where
  "set_do eq [] key v = None"
| "set_do eq ((k, w) # xs) key v =
     (if eq k key then Some ((k, v) # xs, w)
      else if xs = [] then Some ([(k, w), (key, v)], NULL)
      else do { (ys, out) \<leftarrow> set_do eq xs key v; Some ((k, w) # ys, out) })"

definition hashmap_set :: "'k hashmap_t \<Rightarrow> 'k \<Rightarrow> addr \<Rightarrow> ('k hashmap_t \<times> addr) option" where
  "hashmap_set hm key value = do {
     hash \<leftarrow> hash_index hm key;
     x \<leftarrow> bucket hm hash;
     if x = [] then Some (set_bucket hash [(key, value)] hm, NULL)
     else do { (c, out) \<leftarrow> set_do (hash_comp hm) x key value; Some (set_bucket hash c hm, out) }
   }"

fun get_do :: "('k \<Rightarrow> 'k \<Rightarrow> bool) \<Rightarrow> ('k \<times> addr) list \<Rightarrow> 'k \<Rightarrow> addr option" where
  "get_do eq [] key = None"
| "get_do eq ((k, w) # xs) key =
     (if eq k key then Some w else if xs = [] then Some NULL else get_do eq xs key)"

definition hashmap_get :: "'k hashmap_t \<Rightarrow> 'k \<Rightarrow> addr option" where
  "hashmap_get hm key = do {
     hash \<leftarrow> hash_index hm key;
     x \<leftarrow> bucket hm hash;
     if x = [] then Some NULL else get_do (hash_comp hm) x key
   }"

fun remove_do :: "('k \<Rightarrow> 'k \<Rightarrow> bool) \<Rightarrow> ('k \<times> addr) list \<Rightarrow> 'k \<Rightarrow> (('k \<times> addr) list \<times> addr) option" where
  "remove_do eq [] key = None"
| "remove_do eq ((k, w) # xs) key =
     (if eq k key then Some (xs, w)
      else if xs = [] then Some ([(k, w)], NULL)
      else do { (ys, out) \<leftarrow> remove_do eq xs key; Some ((k, w) # ys, out) })"

definition hashmap_remove :: "'k hashmap_t \<Rightarrow> 'k \<Rightarrow> ('k hashmap_t \<times> addr) option" where
  "hashmap_remove hm key = do {
     hash \<leftarrow> hash_index hm key;
     x \<leftarrow> bucket hm hash;
     (case x of
        [] \<Rightarrow> Some (hm, NULL)
      | (k, w) # xs \<Rightarrow>
          if hash_comp hm k key then Some (set_bucket hash xs hm, w)
          else do { (ys, out) \<leftarrow> remove_do (hash_comp hm) xs key; Some (set_bucket hash ((k, w) # ys) hm, out) })
   }"

fun has_do :: "('k \<Rightarrow> 'k \<Rightarrow> bool) \<Rightarrow> ('k \<times> addr) list \<Rightarrow> 'k \<Rightarrow> bool option" where
  "has_do eq [] key = None"
| "has_do eq ((k, w) # xs) key =
     (if eq k key then Some True else if xs = [] then Some False else has_do eq xs key)"

definition hashmap_has :: "'k hashmap_t \<Rightarrow> 'k \<Rightarrow> bool option" where
  "hashmap_has hm key = do {
     hash \<leftarrow> hash_index hm key;
     x \<leftarrow> bucket hm hash;
     if x = [] then Some False else has_do (hash_comp hm) x key
   }"

text \<open>\<^verbatim>\<open>list_insert\<close> of a value appends it (\<open>Klist\<close>); the list is built bucket by bucket.\<close>

fun keys_chain :: "('k \<times> addr) list \<Rightarrow> 'k list \<Rightarrow> 'k list" where
  "keys_chain [] l = l"
| "keys_chain ((k, w) # xs) l = keys_chain xs (l @ [k])"

fun values_chain :: "('k \<times> addr) list \<Rightarrow> addr list \<Rightarrow> addr list" where
  "values_chain [] l = l"
| "values_chain ((k, w) # xs) l = values_chain xs (l @ [w])"

definition hashmap_keys :: "'k hashmap_t \<Rightarrow> 'k list" where
  "hashmap_keys hm = foldl (\<lambda>l i. keys_chain (hm_entries hm ! i) l) [] [0..<unat (hm_size hm)]"

definition hashmap_values :: "'k hashmap_t \<Rightarrow> addr list" where
  "hashmap_values hm = foldl (\<lambda>l i. values_chain (hm_entries hm ! i) l) [] [0..<unat (hm_size hm)]"

definition hashmap_is_empty :: "'k hashmap_t \<Rightarrow> bool" where
  "hashmap_is_empty hm = (\<forall>i \<in> set [0..<unat (hm_size hm)]. hm_entries hm ! i = [])"

section \<open>The map a table stands for\<close>

definition hm_at :: "'k hashmap_t \<Rightarrow> 'k \<Rightarrow> nat" where
  "hm_at m k = unat (hash_func m k) mod unat (hm_size m)"

definition hm_abs :: "'k hashmap_t \<Rightarrow> 'k \<rightharpoonup> addr" where
  "hm_abs m k = map_of (hm_entries m ! hm_at m k) k"

text \<open>
  The table has as many chains as its size says, at least one and at most what an \<^verbatim>\<open>int\<close> can ask for;
  every key is in the chain its hash selects, once; the comparison is equality of keys.
\<close>

definition hm_ok :: "'k hashmap_t \<Rightarrow> bool" where
  "hm_ok m \<longleftrightarrow>
     hash_comp m = (=) \<and> 0 < unat (hm_size m) \<and> unat (hm_size m) < 2 ^ 31 \<and> length (hm_entries m) = unat (hm_size m) \<and>
     (\<forall>i < length (hm_entries m). distinct (map fst (hm_entries m ! i)) \<and>
        (\<forall>k \<in> fst ` set (hm_entries m ! i). hm_at m k = i))"

lemma hm_at_less: "hm_ok m \<Longrightarrow> hm_at m k < length (hm_entries m)"
  by (simp add: hm_ok_def hm_at_def)

lemma hash_index_ok:
  assumes "hm_ok m"
  shows "hash_index m k = Some (hm_at m k)"
proof -
  let ?r = "(ucast (hash_func m k) :: u64) mod hm_size m"
  have nz: "hm_size m \<noteq> 0" using assms by (auto simp: hm_ok_def)
  have "unat (hash_func m k) < 2 ^ 64" using unsigned_less [of "hash_func m k", where 'a = nat] by simp
  then have r: "unat ?r = hm_at m k"
    by (simp add: unat_mod_distrib hm_at_def unsigned_ucast_eq take_bit_nat_eq_self)
  have "hm_at m k < 2 ^ 32" using hm_at_less [OF assms, of k] assms by (auto simp: hm_ok_def)
  then have "unat (ucast ?r :: u32) = hm_at m k"
    using r by (simp add: unsigned_ucast_eq take_bit_nat_eq_self)
  then show ?thesis using nz by (simp add: hash_index_def)
qed

lemma bucket_ok: "hm_ok m \<Longrightarrow> bucket m (hm_at m k) = Some (hm_entries m ! hm_at m k)"
  using hm_at_less [of m k] by (simp add: bucket_def)

lemma set_bucket_simps [simp]:
  "hash_func (set_bucket i c m) = hash_func m" "hash_comp (set_bucket i c m) = hash_comp m"
  "hm_size (set_bucket i c m) = hm_size m"
  by (simp_all add: set_bucket_def)

lemma hm_at_set_bucket [simp]: "hm_at (set_bucket i c m) = hm_at m"
  by (simp add: hm_at_def fun_eq_iff)

lemma hm_set_bucket_ok:
  assumes "hm_ok m" "i < length (hm_entries m)" "distinct (map fst c)" "\<forall>k \<in> fst ` set c. hm_at m k = i"
  shows "hm_ok (set_bucket i c m)"
  using assms by (auto simp: hm_ok_def nth_list_update set_bucket_def hm_at_def)

lemma hm_set_bucket_abs:
  assumes "hm_ok m"
  shows "hm_abs (set_bucket i c m) k = (if hm_at m k = i then map_of c k else hm_abs m k)"
  using hm_at_less [OF assms, of k] unfolding hm_abs_def hm_at_set_bucket
  by (simp add: set_bucket_def nth_list_update)


section \<open>The walks along a chain\<close>

definition or_null :: "addr option \<Rightarrow> addr" where
  "or_null r = (case r of None \<Rightarrow> NULL | Some v \<Rightarrow> v)"

lemma or_null_simps [simp]: "or_null None = NULL" "or_null (Some v) = v"
  by (simp_all add: or_null_def)

lemma get_do_chain:
  "c \<noteq> [] \<Longrightarrow> get_do (=) c k = Some (or_null (map_of c k))"
  by (induction c rule: list_nonempty_induct) auto

lemma has_do_chain:
  "c \<noteq> [] \<Longrightarrow> has_do (=) c k = Some (map_of c k \<noteq> None)"
  by (induction c rule: list_nonempty_induct) auto

lemma set_do_chain:
  assumes "c \<noteq> []" "distinct (map fst c)"
  shows "\<exists>c'. set_do (=) c k v = Some (c', or_null (map_of c k)) \<and> map_of c' = (map_of c)(k \<mapsto> v) \<and>
    distinct (map fst c') \<and> fst ` set c' = insert k (fst ` set c)"
  using assms
proof (induction c rule: list_nonempty_induct)
  case (single x)
  then show ?case by (cases x) (auto simp: fun_eq_iff)
next
  case (cons x xs)
  obtain k' w where x: "x = (k', w)" by (cases x)
  show ?case
  proof (cases "k' = k")
    case True
    then have "map_of ((k, v) # xs) = (map_of (x # xs))(k \<mapsto> v)" using x by (auto simp: fun_eq_iff)
    then show ?thesis using cons.prems x True by auto
  next
    case False
    have "distinct (map fst xs)" using cons.prems by simp
    from cons.IH [OF this] obtain c' where c': "set_do (=) xs k v = Some (c', or_null (map_of xs k))"
      "map_of c' = (map_of xs)(k \<mapsto> v)" "distinct (map fst c')" "fst ` set c' = insert k (fst ` set xs)" by blast
    have "k' \<notin> fst ` set c'" using cons.prems x c'(4) False by auto
    moreover have "map_of ((k', w) # c') = (map_of (x # xs))(k \<mapsto> v)"
      using c'(2) x False by (auto simp: fun_eq_iff)
    ultimately show ?thesis using False x cons.hyps c' by auto
  qed
qed

lemma remove_do_chain:
  assumes "c \<noteq> []" "distinct (map fst c)"
  shows "\<exists>c'. remove_do (=) c k = Some (c', or_null (map_of c k)) \<and> map_of c' = (map_of c)(k := None) \<and>
    distinct (map fst c') \<and> fst ` set c' = fst ` set c - {k}"
  using assms
proof (induction c rule: list_nonempty_induct)
  case (single x)
  then show ?case by (cases x) (auto simp: fun_eq_iff)
next
  case (cons x xs)
  obtain k' w where x: "x = (k', w)" by (cases x)
  show ?case
  proof (cases "k' = k")
    case True
    have "map_of xs k = None" using cons.prems x True by (auto simp: map_of_eq_None_iff)
    then have "map_of xs = (map_of (x # xs))(k := None)" using x True by (auto simp: fun_eq_iff)
    moreover have "remove_do (=) (x # xs) k = Some (xs, or_null (map_of (x # xs) k))" using x True by simp
    moreover have "distinct (map fst xs)" "fst ` set xs = fst ` set (x # xs) - {k}" using cons.prems x True by auto
    ultimately show ?thesis by blast
  next
    case False
    have "distinct (map fst xs)" using cons.prems by simp
    from cons.IH [OF this] obtain c' where c': "remove_do (=) xs k = Some (c', or_null (map_of xs k))"
      "map_of c' = (map_of xs)(k := None)" "distinct (map fst c')" "fst ` set c' = fst ` set xs - {k}" by blast
    moreover have "map_of ((k', w) # c') = (map_of (x # xs))(k := None)"
      using c'(2) x False by (auto simp: fun_eq_iff)
    ultimately show ?thesis using False x cons.hyps cons.prems by auto
  qed
qed

section \<open>The operations on the map\<close>

lemma hm_okD:
  assumes "hm_ok m"
  shows "hash_comp m = (=)" "distinct (map fst (hm_entries m ! hm_at m k))"
    "k' \<in> fst ` set (hm_entries m ! hm_at m k) \<Longrightarrow> hm_at m k' = hm_at m k"
  using assms hm_at_less [OF assms, of k] by (auto simp: hm_ok_def)

lemma hashmap_get_abs: "hm_ok m \<Longrightarrow> hashmap_get m k = Some (or_null (hm_abs m k))"
  by (cases "hm_entries m ! hm_at m k = []")
    (simp_all add: hashmap_get_def hash_index_ok bucket_ok hm_abs_def get_do_chain hm_okD(1))

lemma hashmap_has_abs: "hm_ok m \<Longrightarrow> hashmap_has m k = Some (hm_abs m k \<noteq> None)"
  by (cases "hm_entries m ! hm_at m k = []")
    (simp_all add: hashmap_has_def hash_index_ok bucket_ok hm_abs_def has_do_chain hm_okD(1))

lemma hm_chain_update:
  assumes ok: "hm_ok m" and c: "distinct (map fst c)" "fst ` set c \<subseteq> insert k (fst ` set (hm_entries m ! hm_at m k))"
    "map_of c = (map_of (hm_entries m ! hm_at m k))(k := r)"
  shows "hm_ok (set_bucket (hm_at m k) c m)" "hm_abs (set_bucket (hm_at m k) c m) = (hm_abs m)(k := r)"
proof -
  show "hm_ok (set_bucket (hm_at m k) c m)"
    using c(1,2) hm_okD(3) [OF ok] by (intro hm_set_bucket_ok [OF ok hm_at_less [OF ok]]) blast+
  show "hm_abs (set_bucket (hm_at m k) c m) = (hm_abs m)(k := r)"
    by (rule ext, subst hm_set_bucket_abs [OF ok]) (simp add: c(3) hm_abs_def)
qed

lemma hashmap_set_abs:
  assumes ok: "hm_ok m"
  shows "\<exists>m'. hashmap_set m k v = Some (m', or_null (hm_abs m k)) \<and> hm_ok m' \<and> hm_abs m' = (hm_abs m)(k \<mapsto> v) \<and>
    hash_comp m' = hash_comp m \<and> hash_func m' = hash_func m"
proof (cases "hm_entries m ! hm_at m k = []")
  case True
  then have "hashmap_set m k v = Some (set_bucket (hm_at m k) [(k, v)] m, or_null (hm_abs m k))"
    by (simp add: hashmap_set_def hash_index_ok bucket_ok ok hm_abs_def)
  then show ?thesis using hm_chain_update [OF ok, of "[(k, v)]" k "Some v"] True
    by (intro exI [of _ "set_bucket (hm_at m k) [(k, v)] m"]) simp
next
  case False
  from set_do_chain [OF False hm_okD(2) [OF ok]] obtain c where
    c: "set_do (=) (hm_entries m ! hm_at m k) k v = Some (c, or_null (hm_abs m k))"
      "map_of c = (map_of (hm_entries m ! hm_at m k))(k \<mapsto> v)" "distinct (map fst c)"
      "fst ` set c = insert k (fst ` set (hm_entries m ! hm_at m k))"
    unfolding hm_abs_def by blast
  then have "hashmap_set m k v = Some (set_bucket (hm_at m k) c m, or_null (hm_abs m k))"
    using False by (simp add: hashmap_set_def hash_index_ok bucket_ok ok hm_okD(1))
  then show ?thesis using hm_chain_update [OF ok c(3) _ c(2)] c(4)
    by (intro exI [of _ "set_bucket (hm_at m k) c m"]) simp
qed

lemma hashmap_remove_abs:
  assumes ok: "hm_ok m" and ne: "length (hm_entries m ! hm_at m k) = 1 \<longrightarrow> hm_abs m k \<noteq> None"
  shows "\<exists>m'. hashmap_remove m k = Some (m', or_null (hm_abs m k)) \<and> hm_ok m' \<and> hm_abs m' = (hm_abs m)(k := None)"
proof (cases "hm_entries m ! hm_at m k")
  case Nil
  then have "hm_abs m k = None" by (simp add: hm_abs_def)
  then show ?thesis using Nil by (auto simp: hashmap_remove_def hash_index_ok bucket_ok ok fun_eq_iff)
next
  case (Cons x xs)
  obtain k' w where x: "x = (k', w)" by (cases x)
  note d = hm_okD(2) [OF ok, of k, unfolded Cons x]
  show ?thesis
  proof (cases "k' = k")
    case True
    have "hashmap_remove m k = Some (set_bucket (hm_at m k) xs m, or_null (hm_abs m k))"
      using Cons x True by (simp add: hashmap_remove_def hash_index_ok bucket_ok ok hm_abs_def hm_okD(1))
    moreover have "map_of xs = (map_of (hm_entries m ! hm_at m k))(k := None)"
      using Cons x True d by (auto simp: fun_eq_iff map_of_eq_None_iff)
    ultimately show ?thesis using hm_chain_update [OF ok, of xs k None] d Cons
      by (intro exI [of _ "set_bucket (hm_at m k) xs m"]) auto
  next
    case False
    have ne': "xs \<noteq> []" using ne Cons x False by (auto simp: hm_abs_def)
    have dx: "distinct (map fst xs)" using d by simp
    from remove_do_chain [OF ne' dx] obtain c where
      c: "remove_do (=) xs k = Some (c, or_null (map_of xs k))" "map_of c = (map_of xs)(k := None)"
        "distinct (map fst c)" "fst ` set c = fst ` set xs - {k}" by blast
    have "hashmap_remove m k = Some (set_bucket (hm_at m k) ((k', w) # c) m, or_null (hm_abs m k))"
      using Cons x False c(1) by (simp add: hashmap_remove_def hash_index_ok bucket_ok ok hm_abs_def hm_okD(1))
    moreover have "map_of ((k', w) # c) = (map_of (hm_entries m ! hm_at m k))(k := None)"
      using Cons x False c(2) by (auto simp: fun_eq_iff)
    ultimately show ?thesis using hm_chain_update [OF ok, of "(k', w) # c" k None] c(3,4) d Cons x
      by (intro exI [of _ "set_bucket (hm_at m k) ((k', w) # c) m"]) auto
  qed
qed

lemma hashmap_remove_single:
  assumes "hm_ok m" "hm_entries m ! hm_at m k = [(k', w)]" "k' \<noteq> k"
  shows "hashmap_remove m k = None"
  using assms by (simp add: hashmap_remove_def hash_index_ok bucket_ok hm_okD(1))

section \<open>Enumerating\<close>

lemma keys_chain_append: "keys_chain c l = l @ map fst c"
  by (induction c l rule: keys_chain.induct) auto

lemma values_chain_append: "values_chain c l = l @ map snd c"
  by (induction c l rule: values_chain.induct) auto

lemma foldl_append_concat: "foldl (\<lambda>l i. l @ f i) l xs = l @ concat (map f xs)"
  by (induction xs arbitrary: l) auto

lemma hashmap_keys_concat: "hm_ok m \<Longrightarrow> hashmap_keys m = concat (map (map fst) (hm_entries m))"
  by (simp add: hashmap_keys_def keys_chain_append foldl_append_concat hm_ok_def)
    (metis (no_types, lifting) map_map map_nth comp_def map_eq_conv)

lemma hashmap_values_concat: "hm_ok m \<Longrightarrow> hashmap_values m = concat (map (map snd) (hm_entries m))"
  by (simp add: hashmap_values_def values_chain_append foldl_append_concat hm_ok_def)
    (metis (no_types, lifting) map_map map_nth comp_def map_eq_conv)

lemma hm_abs_None_iff: "hm_ok m \<Longrightarrow> hm_abs m k = None \<longleftrightarrow> k \<notin> fst ` set (hm_entries m ! hm_at m k)"
  by (simp add: hm_abs_def map_of_eq_None_iff)

lemma in_some_bucket:
  assumes ok: "hm_ok m"
  shows "(\<exists>c \<in> set (hm_entries m). k \<in> fst ` set c) \<longleftrightarrow> k \<in> fst ` set (hm_entries m ! hm_at m k)"
proof
  assume "\<exists>c \<in> set (hm_entries m). k \<in> fst ` set c"
  then obtain c where c: "c \<in> set (hm_entries m)" "k \<in> fst ` set c" by blast
  then obtain i where i: "i < length (hm_entries m)" "c = hm_entries m ! i" by (metis in_set_conv_nth)
  then have "hm_at m k = i" using ok c(2) by (auto simp: hm_ok_def)
  with c i show "k \<in> fst ` set (hm_entries m ! hm_at m k)" by simp
next
  assume "k \<in> fst ` set (hm_entries m ! hm_at m k)"
  then show "\<exists>c \<in> set (hm_entries m). k \<in> fst ` set c" using hm_at_less [OF ok, of k] nth_mem by blast
qed

lemma hashmap_keys_set:
  assumes ok: "hm_ok m"
  shows "set (hashmap_keys m) = dom (hm_abs m)"
proof (rule set_eqI)
  fix k
  have "k \<in> set (hashmap_keys m) \<longleftrightarrow> (\<exists>c \<in> set (hm_entries m). k \<in> fst ` set c)"
    by (auto simp: hashmap_keys_concat [OF ok])
  then show "k \<in> set (hashmap_keys m) \<longleftrightarrow> k \<in> dom (hm_abs m)"
    unfolding in_some_bucket [OF ok] using hm_abs_None_iff [OF ok, of k] by (simp add: domIff)
qed

lemma hashmap_keys_distinct:
  assumes ok: "hm_ok m"
  shows "distinct (hashmap_keys m)"
proof -
  have "distinct (concat (map (map fst) es))"
    if "\<forall>i < length es. distinct (map fst (es ! i)) \<and> (\<forall>k \<in> fst ` set (es ! i). f k = i + n)" for es :: "('a \<times> addr) list list" and f :: "'a \<Rightarrow> nat" and n
    using that
  proof (induction es arbitrary: n)
    case (Cons e es)
    have "distinct (concat (map (map fst) es))" using Cons.prems by (intro Cons.IH [of "Suc n"]) force
    moreover have "f k = n" if "k \<in> fst ` set e" for k using Cons.prems that by force
    moreover have "f k \<noteq> n" if "k \<in> set (concat (map (map fst) es))" for k
    proof -
      from that obtain e' where "e' \<in> set es" "k \<in> fst ` set e'" by auto
      then obtain i where "i < length es" "k \<in> fst ` set (es ! i)" by (metis in_set_conv_nth)
      then show ?thesis using Cons.prems [rule_format, of "Suc i"] by auto
    qed
    ultimately show ?case using Cons.prems [rule_format, of 0] by auto
  qed simp
  from this [of "hm_entries m" "hm_at m" 0] show ?thesis using ok by (auto simp: hashmap_keys_concat hm_ok_def)
qed

section \<open>The map contract\<close>

text \<open>
  What the users of a map rely on (environments, the table of shared memory, the ARP cache, the
  process table): a set replaces or adds one binding and returns the old one, a get returns the
  binding or null.
\<close>

fun put_list :: "('s \<Rightarrow> 'k \<Rightarrow> addr \<Rightarrow> ('s \<times> addr) option) \<Rightarrow> 's \<Rightarrow> ('k \<times> addr) list \<Rightarrow> 's option" where
  "put_list put s [] = Some s"
| "put_list put s ((k, v) # kvs) = do { (s, old) \<leftarrow> put s k v; put_list put s kvs }"

locale key_map =
  fixes invar :: "'s \<Rightarrow> bool" and look :: "'s \<Rightarrow> 'k \<Rightarrow> addr option"
    and put :: "'s \<Rightarrow> 'k \<Rightarrow> addr \<Rightarrow> ('s \<times> addr) option" and get :: "'s \<Rightarrow> 'k \<Rightarrow> addr option"
  assumes put_law: "invar s \<Longrightarrow>
      \<exists>s'. put s k v = Some (s', or_null (look s k)) \<and> invar s' \<and> look s' = (look s)(k \<mapsto> v)"
    and get_law: "invar s \<Longrightarrow> get s k = Some (or_null (look s k))"
begin

lemma put_list_look:
  "invar s \<Longrightarrow> \<exists>s'. put_list put s kvs = Some s' \<and> invar s' \<and> look s' = look s ++ map_of (rev kvs)"
proof (induction kvs arbitrary: s)
  case (Cons kv kvs)
  obtain k v where kv: "kv = (k, v)" by (cases kv)
  from put_law [OF Cons.prems, of k v] obtain s1 where
    s1: "put s k v = Some (s1, or_null (look s k))" "invar s1" "look s1 = (look s)(k \<mapsto> v)" by blast
  have "(look s)(k \<mapsto> v) ++ map_of (rev kvs) = look s ++ map_of (rev kvs @ [(k, v)])"
    by (auto simp: map_add_def fun_eq_iff split: option.splits)
  moreover from Cons.IH [OF s1(2)] obtain s' where
    "put_list put s1 kvs = Some s'" "invar s'" "look s' = look s1 ++ map_of (rev kvs)" by blast
  ultimately show ?case using s1(1,3) kv by (intro exI [of _ s']) simp
qed simp

lemma last_put_wins:
  assumes "invar s" "look s = (\<lambda>_. None)"
  shows "\<exists>s'. put_list put s kvs = Some s' \<and> get s' k = Some (or_null (map_of (rev kvs) k))"
  using put_list_look [OF assms(1), of kvs] assms(2) get_law by (auto simp: map_add_def)

end

lemma hashmap_put:
  assumes "hm_ok m"
  shows "\<exists>m'. hashmap_set m k v = Some (m', or_null (hm_abs m k)) \<and> hm_ok m' \<and> hm_abs m' = (hm_abs m)(k \<mapsto> v)"
proof -
  from hashmap_set_abs [OF assms, of k v] obtain m' where "hashmap_set m k v = Some (m', or_null (hm_abs m k)) \<and>
    hm_ok m' \<and> hm_abs m' = (hm_abs m)(k \<mapsto> v) \<and> hash_comp m' = hash_comp m \<and> hash_func m' = hash_func m" ..
  then show ?thesis by (intro exI [of _ m']) simp
qed

interpretation smap: key_map "\<lambda>m :: u8 list hashmap_t. hm_ok m" hm_abs hashmap_set hashmap_get
  by unfold_locales (erule hashmap_put, erule hashmap_get_abs)

interpretation imap: key_map "\<lambda>m :: u64 hashmap_t. hm_ok m" hm_abs hashmap_set hashmap_get
  by unfold_locales (erule hashmap_put, erule hashmap_get_abs)

lemma string_comp_eq: "hashmap_string_comp = (=)"
  by (auto simp: hashmap_string_comp_def fun_eq_iff)

lemma int_comp_eq: "hashmap_int_comp = (=)"
  by (intro ext) (simp add: hashmap_int_comp_def)

lemma size_sint:
  fixes n :: u32
  assumes "0 < sint n"
  shows "unat (scast n :: u64) = nat (sint n)" "nat (sint n) < 2 ^ 31"
proof -
  have lt: "sint n < 2 ^ 31" using sint_less [of n] by simp
  have "uint (scast n :: u64) = sint n mod 2 ^ 64"
    by (simp only: scast_eq uint_word_of_int_eq take_bit_eq_mod) simp
  also have "\<dots> = sint n" using assms lt by (intro mod_pos_pos_trivial) auto
  finally show "unat (scast n :: u64) = nat (sint n)" by (simp only: nat_uint_eq [symmetric])
  show "nat (sint n) < 2 ^ 31" using lt assms by simp
qed

lemma hm_create_ok:
  fixes n :: u32
  assumes "0 < sint n" "hash_comp m = (=)" "hm_size m = scast n" "hm_entries m = replicate (nat (sint n)) []"
  shows "hm_ok m" "hm_abs m = (\<lambda>_. None)"
proof -
  show ok: "hm_ok m" using size_sint [OF assms(1)] assms by (simp add: hm_ok_def)
  show "hm_abs m = (\<lambda>_. None)" using hm_at_less [OF ok] assms(4) by (simp add: hm_abs_def fun_eq_iff)
qed

section \<open>Properties\<close>

text \<open>
  Property C11.  A map for string keys, created with a positive size, behaves as a finite map: after any
  sequence of \<^verbatim>\<open>hashmap_set\<close> calls, \<^verbatim>\<open>hashmap_get\<close> of any key returns the value set last for that key,
  and null for a key that was never set, whatever the collisions.
\<close>

theorem hashmap_string_last_set:
  assumes "0 < sint n" "hashmap_create n = Some m"
  shows "\<exists>m'. put_list hashmap_set m kvs = Some m' \<and> hashmap_get m' k = Some (or_null (map_of (rev kvs) k))"
proof -
  from assms have m: "hash_comp m = (=)" "hm_size m = scast n" "hm_entries m = replicate (nat (sint n)) []"
    by (auto simp: hashmap_create_def string_comp_eq split: if_splits)
  show ?thesis by (rule smap.last_put_wins [OF hm_create_ok [OF assms(1) m]])
qed

theorem hashmap_string_last_set_witness:
  "\<exists>m m'. hashmap_create 2 = Some m \<and>
     put_list hashmap_set m [([97], 1), ([99], 2), ([97], 3)] = Some m' \<and> hashmap_get m' [97] = Some 3"
proof -
  obtain m where m: "hashmap_create 2 = Some m" by (simp add: hashmap_create_def)
  have "0 < sint (2 :: u32)" by simp
  from hashmap_string_last_set [OF this m, of "[([97], 1), ([99], 2), ([97], 3)]" "[97]"] m show ?thesis by simp
qed

text \<open>
  \<^verbatim>\<open>hashmap_remove\<close> returns the old value, deletes that binding only and keeps the table
  well-formed, provided the chain of the key is not a single entry with another key.
\<close>

theorem hashmap_remove_deletes:
  assumes "hm_ok m" "hm_abs m k \<noteq> None \<or> length (hm_entries m ! hm_at m k) \<noteq> 1"
  shows "\<exists>m'. hashmap_remove m k = Some (m', or_null (hm_abs m k)) \<and> hm_ok m' \<and> hm_abs m' = (hm_abs m)(k := None)"
  using hashmap_remove_abs [of m k] assms by blast

definition ex_imap :: "u64 hashmap_t" where
  "ex_imap = \<lparr> hash_func = hashmap_int_hash, hash_comp = hashmap_int_comp, hm_size = 2, hm_entries = [[(4, 7), (6, 8)], [(1, 9)]] \<rparr>"

lemma ex_imap_simps:
  "hm_entries ex_imap = [[(4, 7), (6, 8)], [(1, 9)]]" "hash_comp ex_imap = (=)" "hm_size ex_imap = 2"
  "hm_at ex_imap 4 = 0" "hm_at ex_imap 6 = 0" "hm_at ex_imap 1 = 1"
  by (simp_all add: ex_imap_def int_comp_eq hm_at_def hashmap_int_hash_def)

lemma ex_imap_ok: "hm_ok ex_imap"
  unfolding hm_ok_def
proof (intro conjI allI impI)
  fix i assume "i < length (hm_entries ex_imap)"
  then have "i < 2" by (simp add: ex_imap_simps)
  then have i: "i = 0 \<or> i = 1" using less_2_cases [of i] by simp
  then show "distinct (map fst (hm_entries ex_imap ! i))" by (elim disjE) (simp_all add: ex_imap_simps)
  from i show "\<forall>k \<in> fst ` set (hm_entries ex_imap ! i). hm_at ex_imap k = i"
    by (elim disjE) (simp_all add: ex_imap_simps)
qed (simp_all add: ex_imap_simps)

theorem hashmap_remove_deletes_witness:
  "\<exists>m'. hashmap_remove ex_imap 6 = Some (m', or_null (hm_abs ex_imap 6)) \<and> hm_ok m' \<and> hm_abs m' = (hm_abs ex_imap)(6 := None)"
proof -
  have "hm_abs ex_imap 6 \<noteq> None"
    by (simp add: hm_abs_def hm_at_def ex_imap_def hashmap_int_hash_def)
  then show ?thesis using hashmap_remove_deletes [OF ex_imap_ok, of 6] by simp
qed

text \<open>
  \<^verbatim>\<open>hashmap_remove\<close> of a key that is absent, but whose chain holds one other entry,
  dereferences a null pointer: the \<^verbatim>\<open>do\<close> loop is entered with the \<^verbatim>\<open>next\<close> of that entry.
\<close>

theorem hashmap_remove_absent_faults:
  assumes "hm_ok m" "hm_entries m ! hm_at m k = [(k', w)]" "k' \<noteq> k"
  shows "hm_abs m k = None \<and> hashmap_remove m k = None"
  using hashmap_remove_single [OF assms] assms by (simp add: hm_abs_def)

theorem hashmap_remove_absent_faults_witness:
  "hm_abs ex_imap 3 = None \<and> hashmap_remove ex_imap 3 = None"
  by (rule hashmap_remove_absent_faults [OF ex_imap_ok, of 3 1 9])
    (simp_all add: hm_at_def ex_imap_def hashmap_int_hash_def)

text \<open>
  \<^verbatim>\<open>hashmap_keys\<close> lists every key of the map exactly once.
\<close>

theorem hashmap_keys_enumerate:
  assumes "hm_ok m"
  shows "set (hashmap_keys m) = dom (hm_abs m) \<and> distinct (hashmap_keys m)"
  using hashmap_keys_set [OF assms] hashmap_keys_distinct [OF assms] by blast

theorem hashmap_keys_enumerate_witness:
  "set (hashmap_keys ex_imap) = dom (hm_abs ex_imap) \<and> distinct (hashmap_keys ex_imap)"
  by (rule hashmap_keys_enumerate [OF ex_imap_ok])

end
