(* ===== verification/Ktree.thy ===== *)
theory Ktree
  imports Klist
begin

text \<open>
  The kernel's n-ary trees, \<^verbatim>\<open>src/kernel/misc/tree.c\<close>, which carry the process tree and the table of
  mount points.  A tree node holds a value, the list of its children (a \<^verbatim>\<open>list_t\<close> of \<open>Klist\<close> whose
  values are tree nodes) and its parent; the store of tree nodes stands beside the store of lists.
  Recursion over the children is one \<open>partial_function\<close> over the nodes of a child list, so that a
  cyclic structure is a computation that does not return.  Freeing a value hands it to \<^verbatim>\<open>free\<close>; the
  model returns the values freed.
\<close>

record tree_node_t =
  tn_value :: addr
  tn_children :: addr
  tn_parent :: addr

record tree_t =
  t_nodes :: u64
  t_root :: addr

record theap =
  tk :: kheap
  tnodes :: "addr \<rightharpoonup> tree_node_t"

definition rd_tn :: "theap \<Rightarrow> addr \<Rightarrow> tree_node_t option" where
  "rd_tn th p = (if p = NULL then None else tnodes th p)"

definition upd_tn :: "addr \<Rightarrow> (tree_node_t \<Rightarrow> tree_node_t) \<Rightarrow> theap \<Rightarrow> theap option" where
  "upd_tn p f th = (case rd_tn th p of None \<Rightarrow> None | Some n \<Rightarrow> Some (th\<lparr>tnodes := (tnodes th)(p \<mapsto> f n)\<rparr>))"

definition tree_create :: tree_t where
  "tree_create = \<lparr> t_nodes = 0, t_root = NULL \<rparr>"

text \<open>\<open>a\<close> and \<open>l\<close> are what \<^verbatim>\<open>malloc\<close> returns for the node and for its list of children.\<close>

definition tree_node_create :: "theap \<Rightarrow> addr \<Rightarrow> addr \<Rightarrow> addr \<Rightarrow> (theap \<times> addr) option" where
  "tree_node_create th v a l = do {
     (h, l) \<leftarrow> list_create (tk th) ''tree node children'' a l;
     if a = NULL then None
     else Some (th\<lparr>tk := h, tnodes := (tnodes th)(a \<mapsto> \<lparr> tn_value = v, tn_children = l, tn_parent = NULL \<rparr>)\<rparr>, a)
   }"

definition tree_set_root :: "theap \<Rightarrow> tree_t \<Rightarrow> addr \<Rightarrow> addr \<Rightarrow> addr \<Rightarrow> (theap \<times> tree_t) option" where
  "tree_set_root th tree v a l = do {
     (th, root) \<leftarrow> tree_node_create th v a l;
     Some (th, tree\<lparr>t_root := root, t_nodes := 1\<rparr>)
   }"

definition children_head :: "theap \<Rightarrow> addr \<Rightarrow> addr option" where
  "children_head th p = do { n \<leftarrow> rd_tn th p; l \<leftarrow> rd_list (tk th) (tn_children n); Some (l_head l) }"

partial_function (option) tree_destroy_from :: "theap \<Rightarrow> addr \<Rightarrow> addr list option" where
  "tree_destroy_from th i =
     (if i = NULL then Some []
      else do {
        c \<leftarrow> rd_node (tk th) i;
        n \<leftarrow> rd_tn th (node_value c);
        k \<leftarrow> children_head th (node_value c);
        below \<leftarrow> tree_destroy_from th k;
        rest \<leftarrow> tree_destroy_from th (node_next c);
        Some (below @ [tn_value n] @ rest)
      })"

definition tree_node_destroy :: "theap \<Rightarrow> addr \<Rightarrow> addr list option" where
  "tree_node_destroy th node = do {
     n \<leftarrow> rd_tn th node;
     k \<leftarrow> children_head th node;
     below \<leftarrow> tree_destroy_from th k;
     Some (below @ [tn_value n])
   }"

definition tree_destroy :: "theap \<Rightarrow> tree_t \<Rightarrow> addr list option" where
  "tree_destroy th tree = (if t_root tree \<noteq> NULL then tree_node_destroy th (t_root tree) else Some [])"

text \<open>Freeing the nodes of a branch; a null child is skipped, as in the code.\<close>

definition free_tn :: "addr \<Rightarrow> theap \<Rightarrow> theap" where
  "free_tn p th = th\<lparr>tnodes := (tnodes th)(p := None)\<rparr>"

partial_function (option) tree_free_from :: "theap \<Rightarrow> addr \<Rightarrow> theap option" where
  "tree_free_from th i =
     (if i = NULL then Some th
      else do {
        c \<leftarrow> rd_node (tk th) i;
        th \<leftarrow> (if node_value c = NULL then Some th
              else do {
                k \<leftarrow> children_head th (node_value c);
                th \<leftarrow> tree_free_from th k;
                Some (free_tn (node_value c) th)
              });
        tree_free_from th (node_next c)
      })"

definition tree_node_free :: "theap \<Rightarrow> addr \<Rightarrow> theap option" where
  "tree_node_free th node =
     (if node = NULL then Some th
      else do {
        k \<leftarrow> children_head th node;
        th \<leftarrow> tree_free_from th k;
        Some (free_tn node th)
      })"

definition tree_free :: "theap \<Rightarrow> tree_t \<Rightarrow> theap option" where
  "tree_free th tree = tree_node_free th (t_root tree)"

text \<open>\<open>i\<close> is the list node \<^verbatim>\<open>list_insert\<close> allocates.\<close>

definition tree_node_insert_child_node ::
    "theap \<Rightarrow> tree_t \<Rightarrow> addr \<Rightarrow> addr \<Rightarrow> addr \<Rightarrow> (theap \<times> tree_t) option" where
  "tree_node_insert_child_node th tree parent node i = do {
     p \<leftarrow> rd_tn th parent;
     (h, i) \<leftarrow> list_insert (tk th) (tn_children p) node i;
     th \<leftarrow> upd_tn node (\<lambda>n. n\<lparr>tn_parent := parent\<rparr>) (th\<lparr>tk := h\<rparr>);
     Some (th, tree\<lparr>t_nodes := t_nodes tree + 1\<rparr>)
   }"

definition tree_node_insert_child ::
    "theap \<Rightarrow> tree_t \<Rightarrow> addr \<Rightarrow> addr \<Rightarrow> addr \<Rightarrow> addr \<Rightarrow> addr \<Rightarrow> (theap \<times> tree_t \<times> addr) option" where
  "tree_node_insert_child th tree parent v a l i = do {
     (th, out) \<leftarrow> tree_node_create th v a l;
     (th, tree) \<leftarrow> tree_node_insert_child_node th tree parent out i;
     Some (th, tree, out)
   }"

partial_function (option) find_parent_from :: "theap \<Rightarrow> addr \<Rightarrow> addr \<Rightarrow> addr \<Rightarrow> addr option" where
  "find_parent_from th haystack i needle =
     (if i = NULL then Some NULL
      else do {
        c \<leftarrow> rd_node (tk th) i;
        if node_value c = needle then Some haystack
        else do {
          k \<leftarrow> children_head th (node_value c);
          found \<leftarrow> find_parent_from th (node_value c) k needle;
          if found \<noteq> NULL then Some found else find_parent_from th haystack (node_next c) needle
        }
      })"

definition tree_node_find_parent :: "theap \<Rightarrow> addr \<Rightarrow> addr \<Rightarrow> addr option" where
  "tree_node_find_parent th haystack needle = do {
     k \<leftarrow> children_head th haystack;
     find_parent_from th haystack k needle
   }"

definition tree_find_parent :: "theap \<Rightarrow> tree_t \<Rightarrow> addr \<Rightarrow> addr option" where
  "tree_find_parent th tree node =
     (if t_root tree = NULL then Some NULL else tree_node_find_parent th (t_root tree) node)"

text \<open>
  \<open>count_from\<close> adds up \<^verbatim>\<open>tree_count_children\<close> of the children from list node \<open>i\<close> on.
\<close>

partial_function (option) count_from :: "theap \<Rightarrow> addr \<Rightarrow> u64 option" where
  "count_from th i =
     (if i = NULL then Some 0
      else do {
        c \<leftarrow> rd_node (tk th) i;
        out \<leftarrow> (if node_value c = NULL then Some 0
               else do {
                 n \<leftarrow> rd_tn th (node_value c);
                 if tn_children n = NULL then Some 0
                 else do {
                   l \<leftarrow> rd_list (tk th) (tn_children n);
                   s \<leftarrow> count_from th (l_head l);
                   Some (l_length l + s)
                 }
               });
        rest \<leftarrow> count_from th (node_next c);
        Some (out + rest)
      })"

definition tree_count_children :: "theap \<Rightarrow> addr \<Rightarrow> u64 option" where
  "tree_count_children th node =
     (if node = NULL then Some 0
      else do {
        n \<leftarrow> rd_tn th node;
        if tn_children n = NULL then Some 0
        else do {
          l \<leftarrow> rd_list (tk th) (tn_children n);
          s \<leftarrow> count_from th (l_head l);
          Some (l_length l + s)
        }
      })"

text \<open>\<^verbatim>\<open>list_delete(parent->children, list_find(parent->children, node))\<close>\<close>

definition unlink_child :: "theap \<Rightarrow> addr \<Rightarrow> addr \<Rightarrow> theap option" where
  "unlink_child th parent node = do {
     p \<leftarrow> rd_tn th parent;
     i \<leftarrow> list_find (tk th) (tn_children p) node;
     h \<leftarrow> list_delete (tk th) (tn_children p) i;
     Some (th\<lparr>tk := h\<rparr>)
   }"

definition tree_node_parent_remove :: "theap \<Rightarrow> tree_t \<Rightarrow> addr \<Rightarrow> addr \<Rightarrow> (theap \<times> tree_t) option" where
  "tree_node_parent_remove th tree parent node = do {
     n \<leftarrow> tree_count_children th node;
     let tree = tree\<lparr>t_nodes := t_nodes tree - (n + 1)\<rparr>;
     th \<leftarrow> unlink_child th parent node;
     th \<leftarrow> tree_node_free th node;
     Some (th, tree)
   }"

definition tree_node_remove :: "theap \<Rightarrow> tree_t \<Rightarrow> addr \<Rightarrow> (theap \<times> tree_t) option" where
  "tree_node_remove th tree node = do {
     n \<leftarrow> rd_tn th node;
     let parent = tn_parent n;
     (th, tree) \<leftarrow>
       (if parent = NULL \<and> node = t_root tree then do {
          th \<leftarrow> tree_node_free th node;
          Some (th, tree\<lparr>t_nodes := 0, t_root := NULL\<rparr>)
        } else Some (th, tree));
     tree_node_parent_remove th tree parent node
   }"

partial_function (option) set_parents :: "theap \<Rightarrow> addr \<Rightarrow> addr \<Rightarrow> theap option" where
  "set_parents th i parent =
     (if i = NULL then Some th
      else do {
        c \<leftarrow> rd_node (tk th) i;
        th \<leftarrow> upd_tn (node_value c) (\<lambda>n. n\<lparr>tn_parent := parent\<rparr>) th;
        set_parents th (node_next c) parent
      })"

definition tree_remove :: "theap \<Rightarrow> tree_t \<Rightarrow> addr \<Rightarrow> (theap \<times> tree_t) option" where
  "tree_remove th tree node = do {
     n \<leftarrow> rd_tn th node;
     let parent = tn_parent n;
     if parent = NULL then Some (th, tree)
     else do {
       th \<leftarrow> unlink_child th parent node;
       k \<leftarrow> children_head th node;
       th \<leftarrow> set_parents th k parent;
       p \<leftarrow> rd_tn th parent;
       n \<leftarrow> rd_tn th node;
       h \<leftarrow> list_merge (tk th) (tn_children p) (tn_children n);
       Some (free_tn node (th\<lparr>tk := h\<rparr>), tree\<lparr>t_nodes := t_nodes tree - 1\<rparr>)
     }
   }"

definition tree_remove_reparent_root :: "theap \<Rightarrow> tree_t \<Rightarrow> addr \<Rightarrow> (theap \<times> tree_t) option" where
  "tree_remove_reparent_root th tree node = do {
     n \<leftarrow> rd_tn th node;
     let parent = tn_parent n;
     if parent = NULL then Some (th, tree)
     else do {
       th \<leftarrow> unlink_child th parent node;
       k \<leftarrow> children_head th node;
       th \<leftarrow> set_parents th k (t_root tree);
       r \<leftarrow> rd_tn th (t_root tree);
       n \<leftarrow> rd_tn th node;
       h \<leftarrow> list_merge (tk th) (tn_children r) (tn_children n);
       Some (free_tn node (th\<lparr>tk := h\<rparr>), tree\<lparr>t_nodes := t_nodes tree - 1\<rparr>)
     }
   }"

definition tree_break_off :: "theap \<Rightarrow> tree_t \<Rightarrow> addr \<Rightarrow> theap option" where
  "tree_break_off th tree node = do {
     n \<leftarrow> rd_tn th node;
     if tn_parent n = NULL then Some th else unlink_child th (tn_parent n) node
   }"

partial_function (option) find_from :: "theap \<Rightarrow> addr \<Rightarrow> addr \<Rightarrow> (addr \<Rightarrow> addr \<Rightarrow> bool) \<Rightarrow> addr option" where
  "find_from th i search comparator =
     (if i = NULL then Some NULL
      else do {
        c \<leftarrow> rd_node (tk th) i;
        n \<leftarrow> rd_tn th (node_value c);
        found \<leftarrow> (if comparator (tn_value n) search then Some (node_value c)
                 else do { k \<leftarrow> children_head th (node_value c); find_from th k search comparator });
        if found \<noteq> NULL then Some found else find_from th (node_next c) search comparator
      })"

definition tree_node_find :: "theap \<Rightarrow> addr \<Rightarrow> addr \<Rightarrow> (addr \<Rightarrow> addr \<Rightarrow> bool) \<Rightarrow> addr option" where
  "tree_node_find th node search comparator = do {
     n \<leftarrow> rd_tn th node;
     if comparator (tn_value n) search then Some node
     else do { k \<leftarrow> children_head th node; find_from th k search comparator }
   }"

definition tree_find :: "theap \<Rightarrow> tree_t \<Rightarrow> addr \<Rightarrow> (addr \<Rightarrow> addr \<Rightarrow> bool) \<Rightarrow> addr option" where
  "tree_find th tree v comparator = tree_node_find th (t_root tree) v comparator"

section \<open>The tree a store holds\<close>

datatype rtree = RNode (rptr: addr) (rval: addr) (rkids: "rtree list")

text \<open>
  \<open>tree_at th t par\<close>: the node \<open>rptr t\<close> of the store carries the value and the children of \<open>t\<close>, in
  order, and names \<open>par\<close> as its parent.
\<close>

inductive tree_at :: "theap \<Rightarrow> addr \<Rightarrow> rtree \<Rightarrow> bool" for th where
  tree_at: "rd_tn th p = Some n \<Longrightarrow> tn_value n = v \<Longrightarrow> tn_parent n = par \<Longrightarrow>
    is_list (tk th) (tn_children n) ns \<Longrightarrow> values_of (tk th) ns = map rptr ts \<Longrightarrow>
    (\<forall>t \<in> set ts. tree_at th p t) \<Longrightarrow> tree_at th par (RNode p v ts)"

inductive_cases tree_atE: "tree_at th par (RNode p v ts)"

fun preorder :: "rtree \<Rightarrow> (addr \<times> addr) list" where
  "preorder (RNode p v ts) = (p, v) # concat (map preorder ts)"

lemma lseg_values:
  "lseg (nodes h) l q (a # ns) NULL \<Longrightarrow> \<exists>n. rd_node h a = Some n \<and> node_next n = hdp ns NULL \<and>
     values_of h (a # ns) = node_value n # values_of h ns"
  by (auto simp: rd_node_def values_of_def split: option.splits)

lemma is_list_head: "is_list h l ns \<Longrightarrow> \<exists>L. rd_list h l = Some L \<and> l_head L = hdp ns NULL \<and>
    l_length L = of_nat (length ns) \<and> l \<noteq> NULL \<and> lseg (nodes h) l NULL ns NULL"
  by (auto simp: is_list_def rd_list_def split: option.splits if_splits)

lemma tree_at_rd: "tree_at th par t \<Longrightarrow> \<exists>n. rd_tn th (rptr t) = Some n \<and> tn_value n = rval t \<and> rptr t \<noteq> NULL"
  by (cases rule: tree_at.cases) (auto simp: rd_tn_def split: if_splits)

lemma count_from_children:
  assumes "lseg (nodes (tk th)) l q ns NULL" "values_of (tk th) ns = map rptr ts"
    "\<forall>t \<in> set ts. \<exists>par. tree_at th par t"
    "\<forall>t \<in> set ts. tree_count_children th (rptr t) = Some (of_nat (c t))"
  shows "count_from th (hdp ns NULL) = Some (of_nat (sum_list (map c ts)))"
  using assms
proof (induction ns arbitrary: q ts)
  case Nil
  then have "ts = []" by (simp add: values_of_def)
  then show ?case by (subst count_from.simps) simp
next
  case (Cons a ns)
  from lseg_values [OF Cons.prems(1)] obtain n where n: "rd_node (tk th) a = Some n" "node_next n = hdp ns NULL"
    "values_of (tk th) (a # ns) = node_value n # values_of (tk th) ns" by blast
  then obtain t us where ts: "ts = t # us" "node_value n = rptr t" "values_of (tk th) ns = map rptr us"
    using Cons.prems(2) by (cases ts) auto
  have "count_from th (hdp ns NULL) = Some (of_nat (sum_list (map c us)))"
    using Cons.prems(1,3,4) ts by (intro Cons.IH [of a us]) auto
  moreover have "tree_count_children th (rptr t) = Some (of_nat (c t))" using Cons.prems(4) ts by simp
  moreover have "rptr t \<noteq> NULL" using tree_at_rd Cons.prems(3) ts(1) by fastforce
  moreover have "a \<noteq> NULL" using Cons.prems(1) by simp
  ultimately show ?case using n ts
    by (subst count_from.simps) (simp add: tree_count_children_def)
qed

lemma tree_count_children_at:
  "tree_at th par t \<Longrightarrow> tree_count_children th (rptr t) = Some (of_nat (length (preorder t) - 1))"
proof (induction t arbitrary: par)
  case (RNode p v ts)
  from RNode.prems obtain n ns where n: "rd_tn th p = Some n" "is_list (tk th) (tn_children n) ns"
    "values_of (tk th) ns = map rptr ts" "\<forall>t \<in> set ts. tree_at th p t" by (rule tree_atE)
  from is_list_head [OF n(2)] obtain L where L: "rd_list (tk th) (tn_children n) = Some L" "l_head L = hdp ns NULL"
    "l_length L = of_nat (length ns)" "tn_children n \<noteq> NULL" "lseg (nodes (tk th)) (tn_children n) NULL ns NULL" by blast
  have "count_from th (l_head L) = Some (of_nat (sum_list (map (\<lambda>t. length (preorder t) - 1) ts)))"
    using n(4) RNode.IH unfolding L(2) by (intro count_from_children [OF L(5) n(3)]) auto
  moreover have "length ns = length ts" using n(3) by (metis length_map values_of_def)
  moreover have "length ts + sum_list (map (\<lambda>t. length (preorder t) - 1) us) = sum_list (map (\<lambda>t. length (preorder t)) us)"
    if "length ts = length us" for us
  proof -
    have "0 < length (preorder t)" for t by (cases t) simp
    then show ?thesis unfolding that by (induction us) (auto simp: Suc_le_eq)
  qed
  ultimately show ?case using n(1) L
    by (simp add: tree_count_children_def rd_tn_def length_concat comp_def split: if_splits) (metis of_nat_add)
qed

lemma find_from_children:
  assumes "lseg (nodes (tk th)) l q ns NULL" "values_of (tk th) ns = map rptr ts"
    "\<forall>t \<in> set ts. \<exists>par. tree_at th par t"
    "\<forall>t \<in> set ts. tree_node_find th (rptr t) x cmp = Some (f t)"
  shows "find_from th (hdp ns NULL) x cmp = Some (case find (\<lambda>p. p \<noteq> NULL) (map f ts) of None \<Rightarrow> NULL | Some p \<Rightarrow> p)"
  using assms
proof (induction ns arbitrary: q ts)
  case Nil
  then have "ts = []" by (simp add: values_of_def)
  then show ?case by (subst find_from.simps) simp
next
  case (Cons a ns)
  from lseg_values [OF Cons.prems(1)] obtain n where n: "rd_node (tk th) a = Some n" "node_next n = hdp ns NULL"
    "values_of (tk th) (a # ns) = node_value n # values_of (tk th) ns" by blast
  then obtain t us where ts: "ts = t # us" "node_value n = rptr t" "values_of (tk th) ns = map rptr us"
    using Cons.prems(2) by (cases ts) auto
  have ih: "find_from th (hdp ns NULL) x cmp = Some (case find (\<lambda>p. p \<noteq> NULL) (map f us) of None \<Rightarrow> NULL | Some p \<Rightarrow> p)"
    using Cons.prems(1,3,4) ts by (intro Cons.IH [of a us]) auto
  have t: "tree_node_find th (rptr t) x cmp = Some (f t)" using Cons.prems(4) ts by simp
  obtain m where m: "rd_tn th (rptr t) = Some m" using tree_at_rd Cons.prems(3) ts(1) by fastforce
  have "a \<noteq> NULL" using Cons.prems(1) by simp
  then show ?case using n ts ih t m
    by (subst find_from.simps) (cases "cmp (tn_value m) x"; auto simp: tree_node_find_def)
qed

definition first_match :: "(addr \<Rightarrow> addr \<Rightarrow> bool) \<Rightarrow> addr \<Rightarrow> (addr \<times> addr) list \<Rightarrow> addr" where
  "first_match cmp x pvs = (case find (\<lambda>(p, v). cmp v x) pvs of None \<Rightarrow> NULL | Some (p, v) \<Rightarrow> p)"

lemma first_match_append:
  "NULL \<notin> fst ` set xs \<Longrightarrow>
   first_match cmp x (xs @ ys) = (if first_match cmp x xs \<noteq> NULL then first_match cmp x xs else first_match cmp x ys)"
  by (induction xs) (auto simp: first_match_def)

lemma first_match_concat:
  "\<forall>xs \<in> set xss. NULL \<notin> fst ` set xs \<Longrightarrow>
   (case find (\<lambda>p. p \<noteq> NULL) (map (first_match cmp x) xss) of None \<Rightarrow> NULL | Some p \<Rightarrow> p) = first_match cmp x (concat xss)"
proof (induction xss)
  case Nil
  then show ?case by (simp add: first_match_def)
next
  case (Cons xs xss)
  then show ?case by (simp add: first_match_append)
qed

lemma preorder_not_null: "tree_at th par t \<Longrightarrow> NULL \<notin> fst ` set (preorder t)"
proof (induction t arbitrary: par)
  case (RNode p v ts)
  from RNode.prems obtain n ns where n: "rd_tn th p = Some n" "\<forall>t \<in> set ts. tree_at th p t" by (rule tree_atE)
  then have "p \<noteq> NULL" by (auto simp: rd_tn_def)
  moreover have "NULL \<notin> fst ` set (preorder t)" if "t \<in> set ts" for t using RNode.IH [OF that] n(2) that by blast
  ultimately show ?case by auto
qed

lemma tree_node_find_at:
  "tree_at th par t \<Longrightarrow> tree_node_find th (rptr t) x cmp = Some (first_match cmp x (preorder t))"
proof (induction t arbitrary: par)
  case (RNode p v ts)
  from RNode.prems obtain n ns where n: "rd_tn th p = Some n" "tn_value n = v" "is_list (tk th) (tn_children n) ns"
    "values_of (tk th) ns = map rptr ts" "\<forall>t \<in> set ts. tree_at th p t" by (rule tree_atE)
  from is_list_head [OF n(3)] obtain L where L: "rd_list (tk th) (tn_children n) = Some L" "l_head L = hdp ns NULL"
    "lseg (nodes (tk th)) (tn_children n) NULL ns NULL" by blast
  have "find_from th (l_head L) x cmp = Some (case find (\<lambda>p. p \<noteq> NULL) (map (\<lambda>t. first_match cmp x (preorder t)) ts)
      of None \<Rightarrow> NULL | Some p \<Rightarrow> p)"
    using n(5) RNode.IH unfolding L(2) by (intro find_from_children [OF L(3) n(4)]) auto
  also have "\<dots> = Some (first_match cmp x (concat (map preorder ts)))"
    using first_match_concat [of "map preorder ts" cmp x] preorder_not_null n(5) by (simp add: comp_def) blast
  finally show ?case using n(1,2) L
    by (auto simp: tree_node_find_def children_head_def first_match_def)
qed

section \<open>Moving and removing nodes\<close>

lemma set_parents_seg:
  assumes "lseg (nodes (tk th)) l q ns NULL" "\<forall>k \<in> set (values_of (tk th) ns). rd_tn th k \<noteq> None"
  shows "\<exists>th'. set_parents th (hdp ns NULL) par = Some th' \<and> tk th' = tk th \<and>
    (\<forall>k. tnodes th' k = (if k \<in> set (values_of (tk th) ns) then map_option (tn_parent_update (\<lambda>_. par)) (tnodes th k)
                        else tnodes th k))"
  using assms
proof (induction ns arbitrary: th q)
  case Nil
  then show ?case by (subst set_parents.simps) (simp add: values_of_def)
next
  case (Cons a ns)
  from lseg_values [OF Cons.prems(1)] obtain n where n: "rd_node (tk th) a = Some n" "node_next n = hdp ns NULL"
    "values_of (tk th) (a # ns) = node_value n # values_of (tk th) ns" by blast
  obtain c where c: "rd_tn th (node_value n) = Some c" using Cons.prems(2) n(3) by auto
  let ?th = "th\<lparr>tnodes := (tnodes th)(node_value n \<mapsto> c\<lparr>tn_parent := par\<rparr>)\<rparr>"
  have "\<forall>k \<in> set (values_of (tk ?th) ns). rd_tn ?th k \<noteq> None"
    using Cons.prems(2) n(3) by (auto simp: rd_tn_def)
  then obtain th' where th': "set_parents ?th (hdp ns NULL) par = Some th'" "tk th' = tk th"
    "\<forall>k. tnodes th' k = (if k \<in> set (values_of (tk th) ns) then map_option (tn_parent_update (\<lambda>_. par)) (tnodes ?th k)
                        else tnodes ?th k)"
    using Cons.IH [of ?th a] Cons.prems(1) by auto
  have "a \<noteq> NULL" using Cons.prems(1) by simp
  then have "set_parents th a par = Some th'"
    using n c th'(1) by (subst set_parents.simps) (simp add: upd_tn_def)
  then show ?case using th'(2,3) n(3) c by (auto simp: rd_tn_def split: if_splits)
qed

lemma find_past: "find P xs = None \<Longrightarrow> P i \<Longrightarrow> find P (xs @ i # ys) = Some i"
  by (induction xs) (auto split: if_splits)

lemma find_node_value:
  assumes "is_list h l (as @ i # bs)" "rd_node h i = Some m" "node_value m = v" "v \<notin> set (values_of h as)"
  shows "list_find h l v = Some i"
proof -
  from is_list_head [OF assms(1)] obtain L where L: "rd_list h l = Some L" "l_head L = hdp (as @ i # bs) NULL"
    "lseg (nodes h) l NULL (as @ i # bs) NULL" by blast
  have i: "nodes h i = Some m" using assms(2) by (simp add: rd_node_def split: if_splits)
  have "\<exists>n. nodes h a = Some n \<and> node_value n \<noteq> v" if "a \<in> set as" for a
    using is_list_node [OF assms(1), of a] assms(4) that by (force simp: values_of_def)
  then have "find (\<lambda>a. map_option node_value (nodes h a) = Some v) as = None"
    unfolding find_None_iff by (metis option.simps(9) option.inject)
  then have "find (\<lambda>a. map_option node_value (nodes h a) = Some v) (as @ i # bs) = Some i"
    using i assms(3) by (intro find_past) auto
  then show ?thesis using list_find_from_seg [OF L(3), of v] L(1,2) by (simp add: list_find_def)
qed

lemma unlink_child_spec:
  assumes "rd_tn th parent = Some p" "is_list (tk th) (tn_children p) (as @ i # bs)"
    "rd_node (tk th) i = Some m" "node_value m = node" "node \<notin> set (values_of (tk th) as)"
  shows "\<exists>h. unlink_child th parent node = Some (th\<lparr>tk := h\<rparr>) \<and> is_list h (tn_children p) (as @ bs) \<and>
    frame (tk th) h (tn_children p) (set (as @ i # bs))"
proof -
  from list_delete_spec [OF assms(2)] obtain h where h: "list_delete (tk th) (tn_children p) i = Some h"
    "is_list h (tn_children p) (as @ bs)" "frame (tk th) h (tn_children p) (set (as @ i # bs))" by blast
  then show ?thesis using assms(1) find_node_value [OF assms(2-5)]
    by (intro exI [of _ h]) (simp add: unlink_child_def)
qed

text \<open>The children after the loop: same children list, possibly a new parent.\<close>

lemma rd_tn_reparented:
  assumes "\<forall>k. tnodes th' k = (if k \<in> S then map_option (tn_parent_update (\<lambda>_. par)) (tnodes th k) else tnodes th k)"
    "rd_tn th p = Some n"
  shows "\<exists>n'. rd_tn th' p = Some n' \<and> tn_children n' = tn_children n"
  using assms by (cases "p \<in> S") (auto simp: rd_tn_def split: if_splits)

lemma merged_into:
  assumes "is_list h (tn_children p) (as @ bs)" "frame h0 h (tn_children p) (set (as @ i # bs))"
    "is_list h0 (tn_children p) (as @ i # bs)" "is_list h0 t ts" "is_list h0 s ks" "s \<noteq> t" "s \<noteq> tn_children p"
  shows "\<exists>h' ts'. list_merge h t s = Some h' \<and> is_list h' t ts' \<and>
    values_of h' ts' = values_of h0 (if t = tn_children p then as @ bs else ts) @ values_of h0 ks \<and>
    (t \<noteq> tn_children p \<longrightarrow> is_list h' (tn_children p) (as @ bs)) \<and>
    (\<forall>l xs. is_list h0 l xs \<and> l \<notin> {t, s, tn_children p} \<longrightarrow> is_list h' l xs) \<and> (\<forall>xs. values_of h' xs = values_of h0 xs)"
proof -
  have ks: "is_list h s ks" using other_list_kept' [OF assms(2,3,5,7)] .
  let ?ts = "if t = tn_children p then as @ bs else ts"
  have ts: "is_list h t ?ts" using other_list_kept' [OF assms(2,3,4)] assms(1) by auto
  from list_merge_spec [OF ts ks _ lists_disjoint [OF ts ks]] assms(6) obtain h' where
    h': "list_merge h t s = Some h'" "is_list h' t (?ts @ ks)"
      "values_of h' (?ts @ ks) = values_of h ?ts @ values_of h ks"
      "\<forall>a. a \<notin> set ?ts \<union> set ks \<longrightarrow> nodes h' a = nodes h a" "\<forall>m. m \<noteq> t \<and> m \<noteq> s \<longrightarrow> lists h' m = lists h m"
      "\<forall>a. map_option node_value (nodes h' a) = map_option node_value (nodes h a)" by metis
  have v: "values_of h' xs = values_of h0 xs" "values_of h xs = values_of h0 xs" for xs
    using values_of_cong [of h' h xs] h'(6) values_of_frame [OF assms(2)] by simp_all
  have "is_list h' (tn_children p) (as @ bs)" if "t \<noteq> tn_children p"
    using list_merge_others [OF ts ks assms(1) _ _ h'(4,5)] that assms(7) by simp
  moreover have "is_list h' l xs" if "is_list h0 l xs" "l \<notin> {t, s, tn_children p}" for l xs
    using list_merge_others [OF ts ks other_list_kept' [OF assms(2,3) that(1)] _ _ h'(4,5)] that(2) by simp
  ultimately show ?thesis using h'(1-3) v by (intro exI [of _ h'] exI [of _ "?ts @ ks"]) simp
qed

lemma reparent_root_spec:
  assumes n: "rd_tn th node = Some n" "tn_parent n = parent" "parent \<noteq> NULL" "rd_tn th parent = Some p"
    and r: "rd_tn th (t_root tree) = Some r"
    and l: "is_list (tk th) (tn_children p) (as @ i # bs)" "rd_node (tk th) i = Some m" "node_value m = node"
      "node \<notin> set (values_of (tk th) as)"
    and k: "is_list (tk th) (tn_children n) ks" "is_list (tk th) (tn_children r) rs"
      "tn_children n \<noteq> tn_children r" "tn_children n \<noteq> tn_children p"
      "\<forall>c \<in> set (values_of (tk th) ks). rd_tn th c \<noteq> None" "node \<notin> set (values_of (tk th) ks)"
  shows "\<exists>th' rs'. tree_remove_reparent_root th tree node = Some (th', tree\<lparr>t_nodes := t_nodes tree - 1\<rparr>) \<and>
    is_list (tk th') (tn_children r) rs' \<and>
    values_of (tk th') rs' =
      values_of (tk th) (if tn_children r = tn_children p then as @ bs else rs) @ values_of (tk th) ks \<and>
    (\<forall>c \<in> set (values_of (tk th) ks). map_option tn_parent (tnodes th' c) = Some (t_root tree)) \<and>
    tnodes th' node = None \<and>
    (tn_children p \<noteq> tn_children r \<longrightarrow>
       is_list (tk th') (tn_children p) (as @ bs) \<and> values_of (tk th') (as @ bs) = values_of (tk th) (as @ bs)) \<and>
    (\<forall>l xs. is_list (tk th) l xs \<and> l \<notin> {tn_children p, tn_children r, tn_children n} \<longrightarrow>
       is_list (tk th') l xs \<and> values_of (tk th') xs = values_of (tk th) xs) \<and>
    (\<forall>c. c \<noteq> node \<and> c \<notin> set (values_of (tk th) ks) \<longrightarrow> tnodes th' c = tnodes th c)"
proof -
  from unlink_child_spec [OF n(4) l] obtain h where h: "unlink_child th parent node = Some (th\<lparr>tk := h\<rparr>)"
    "is_list h (tn_children p) (as @ bs)" "frame (tk th) h (tn_children p) (set (as @ i # bs))" by blast
  let ?th = "th\<lparr>tk := h\<rparr>"
  have kk: "is_list h (tn_children n) ks" using other_list_kept' [OF h(3) l(1) k(1,4)] .
  have vk: "values_of h ks = values_of (tk th) ks" by (rule values_of_frame [OF h(3)])
  from is_list_head [OF kk] obtain L where L: "rd_list h (tn_children n) = Some L" "l_head L = hdp ks NULL"
    "lseg (nodes h) (tn_children n) NULL ks NULL" by blast
  have ch: "children_head ?th node = Some (hdp ks NULL)" using n(1) L by (simp add: children_head_def rd_tn_def split: if_splits)
  have "\<forall>c \<in> set (values_of (tk ?th) ks). rd_tn ?th c \<noteq> None" using k(5) vk by (auto simp: rd_tn_def split: if_splits)
  from set_parents_seg [of ?th "tn_children n" NULL ks "t_root tree", OF _ this] L(3) vk obtain th' where
    th': "set_parents ?th (hdp ks NULL) (t_root tree) = Some th'" "tk th' = h"
      "\<forall>c. tnodes th' c = (if c \<in> set (values_of (tk th) ks)
         then map_option (tn_parent_update (\<lambda>_. t_root tree)) (tnodes th c) else tnodes th c)"
    by auto
  from rd_tn_reparented [OF th'(3) r] obtain r' where r': "rd_tn th' (t_root tree) = Some r'" "tn_children r' = tn_children r" by blast
  from rd_tn_reparented [OF th'(3) n(1)] obtain n' where n': "rd_tn th' node = Some n'" "tn_children n' = tn_children n" by blast
  from merged_into [OF h(2,3) l(1) k(2,1,3,4)] obtain h' rs' where
    h': "list_merge h (tn_children r) (tn_children n) = Some h'" "is_list h' (tn_children r) rs'"
      "values_of h' rs' = values_of (tk th) (if tn_children r = tn_children p then as @ bs else rs) @ values_of (tk th) ks"
      "tn_children r \<noteq> tn_children p \<longrightarrow> is_list h' (tn_children p) (as @ bs)"
      "\<forall>l xs. is_list (tk th) l xs \<and> l \<notin> {tn_children r, tn_children n, tn_children p} \<longrightarrow> is_list h' l xs"
      "\<forall>xs. values_of h' xs = values_of (tk th) xs"
    by blast
  have res: "tree_remove_reparent_root th tree node = Some (free_tn node (th'\<lparr>tk := h'\<rparr>), tree\<lparr>t_nodes := t_nodes tree - 1\<rparr>)"
    using n h(1) ch th'(1,2) r' n' h'(1) by (simp add: tree_remove_reparent_root_def Let_def)
  have "map_option tn_parent (tnodes th' c) = Some (t_root tree)" if "c \<in> set (values_of (tk th) ks)" for c
    using th'(3) that k(5) by (force simp: rd_tn_def split: if_splits)
  moreover have "tk (free_tn node (th'\<lparr>tk := h'\<rparr>)) = h'" "tnodes (free_tn node (th'\<lparr>tk := h'\<rparr>)) = (tnodes th')(node := None)"
    by (simp_all add: free_tn_def)
  ultimately show ?thesis using res h'(2-6) k(6) th'(3)
    by (intro exI [of _ "free_tn node (th'\<lparr>tk := h'\<rparr>)"] exI [of _ rs']) auto
qed

section \<open>Properties\<close>

text \<open>
  \<^verbatim>\<open>tree_find\<close> on a well-formed tree returns the first node, in preorder, whose value the
  comparator accepts, and null when there is none.
\<close>

theorem tree_find_first_in_preorder:
  assumes "tree_at th par t" "t_root tree = rptr t"
  shows "tree_find th tree v comparator = Some (first_match comparator v (preorder t))"
  using tree_node_find_at [OF assms(1)] assms(2) by (simp add: tree_find_def)

definition ex_theap :: theap where
  "ex_theap = \<lparr> tk = \<lparr> nodes = [7 \<mapsto> \<lparr> node_next = 0, node_prev = 0, node_value = 2, node_owner = 10 \<rparr>],
       lists = [10 \<mapsto> \<lparr> l_head = 7, l_tail = 7, l_length = 1, l_name = [], l_metadata = 0 \<rparr>,
                11 \<mapsto> \<lparr> l_head = 0, l_tail = 0, l_length = 0, l_name = [], l_metadata = 0 \<rparr>] \<rparr>,
     tnodes = [1 \<mapsto> \<lparr> tn_value = 100, tn_children = 10, tn_parent = 0 \<rparr>,
               2 \<mapsto> \<lparr> tn_value = 200, tn_children = 11, tn_parent = 1 \<rparr>] \<rparr>"

lemma ex_theap_lists: "is_list (tk ex_theap) 10 [7]" "is_list (tk ex_theap) 11 []" "values_of (tk ex_theap) [7] = [2]"
  by (simp_all add: ex_theap_def is_list_def rd_list_def values_of_def)

lemma ex_theap_at: "tree_at ex_theap 0 (RNode 1 100 [RNode 2 200 []])"
proof (rule tree_at.intros)
  show "rd_tn ex_theap 1 = Some \<lparr> tn_value = 100, tn_children = 10, tn_parent = 0 \<rparr>" by (simp add: ex_theap_def rd_tn_def)
  have "tree_at ex_theap 1 (RNode 2 200 [])"
  proof (rule tree_at.intros)
    show "rd_tn ex_theap 2 = Some \<lparr> tn_value = 200, tn_children = 11, tn_parent = 1 \<rparr>" by (simp add: ex_theap_def rd_tn_def)
  qed (use ex_theap_lists(2) in \<open>simp_all add: values_of_def\<close>)
  then show "\<forall>t \<in> set [RNode 2 200 []]. tree_at ex_theap 1 t" by simp
qed (use ex_theap_lists in simp_all)

theorem tree_find_first_in_preorder_witness:
  "tree_find ex_theap \<lparr> t_nodes = 2, t_root = 1 \<rparr> 200 (=) = Some 2"
  using tree_find_first_in_preorder [OF ex_theap_at, of "\<lparr> t_nodes = 2, t_root = 1 \<rparr>" 200 "(=)"]
  by (simp add: first_match_def)

text \<open>
  \<^verbatim>\<open>tree_count_children\<close> counts all the descendants of a node (and not only its children).
\<close>

theorem tree_count_children_descendants:
  assumes "tree_at th par t"
  shows "tree_count_children th (rptr t) = Some (of_nat (length (preorder t) - 1))"
  by (rule tree_count_children_at [OF assms])

theorem tree_count_children_descendants_witness: "tree_count_children ex_theap 1 = Some 1"
  using tree_count_children_descendants [OF ex_theap_at] by simp

text \<open>
  Property C32.  \<^verbatim>\<open>tree_remove_reparent_root\<close>, which the kernel uses when a process exits: the node is
  taken out of the list of its parent and freed, its children are appended in order to the children
  of the root, and each of them now names the root as its parent.  When the parent is not the root, its
  list is left with the siblings of the node in their order.  All other lists keep their elements and
  all other nodes of the tree are unchanged.
\<close>

theorem tree_remove_reparent_root_moves:
  assumes "rd_tn th node = Some n" "tn_parent n = parent" "parent \<noteq> NULL" "rd_tn th parent = Some p"
    "rd_tn th (t_root tree) = Some r"
    "is_list (tk th) (tn_children p) (as @ i # bs)" "rd_node (tk th) i = Some m" "node_value m = node"
    "node \<notin> set (values_of (tk th) as)"
    "is_list (tk th) (tn_children n) ks" "is_list (tk th) (tn_children r) rs"
    "tn_children n \<noteq> tn_children r" "tn_children n \<noteq> tn_children p"
    "\<forall>c \<in> set (values_of (tk th) ks). rd_tn th c \<noteq> None" "node \<notin> set (values_of (tk th) ks)"
  shows "\<exists>th' rs'. tree_remove_reparent_root th tree node = Some (th', tree\<lparr>t_nodes := t_nodes tree - 1\<rparr>) \<and>
    is_list (tk th') (tn_children r) rs' \<and>
    values_of (tk th') rs' =
      values_of (tk th) (if tn_children r = tn_children p then as @ bs else rs) @ values_of (tk th) ks \<and>
    (\<forall>c \<in> set (values_of (tk th) ks). map_option tn_parent (tnodes th' c) = Some (t_root tree)) \<and>
    tnodes th' node = None \<and>
    (tn_children p \<noteq> tn_children r \<longrightarrow>
       is_list (tk th') (tn_children p) (as @ bs) \<and> values_of (tk th') (as @ bs) = values_of (tk th) (as @ bs)) \<and>
    (\<forall>l xs. is_list (tk th) l xs \<and> l \<notin> {tn_children p, tn_children r, tn_children n} \<longrightarrow>
       is_list (tk th') l xs \<and> values_of (tk th') xs = values_of (tk th) xs) \<and>
    (\<forall>c. c \<noteq> node \<and> c \<notin> set (values_of (tk th) ks) \<longrightarrow> tnodes th' c = tnodes th c)"
  by (rule reparent_root_spec [OF assms])

text \<open>Below the root 1 is 2, with the children 3 and 6; 3 has the children 4 and 5.\<close>

definition ex_ptree :: theap where
  "ex_ptree = \<lparr> tk = \<lparr> nodes = [21 \<mapsto> \<lparr> node_next = 0, node_prev = 0, node_value = 2, node_owner = 10 \<rparr>,
         22 \<mapsto> \<lparr> node_next = 23, node_prev = 0, node_value = 3, node_owner = 11 \<rparr>,
         23 \<mapsto> \<lparr> node_next = 0, node_prev = 22, node_value = 6, node_owner = 11 \<rparr>,
         24 \<mapsto> \<lparr> node_next = 25, node_prev = 0, node_value = 4, node_owner = 12 \<rparr>,
         25 \<mapsto> \<lparr> node_next = 0, node_prev = 24, node_value = 5, node_owner = 12 \<rparr>],
       lists = [10 \<mapsto> \<lparr> l_head = 21, l_tail = 21, l_length = 1, l_name = [], l_metadata = 0 \<rparr>,
                11 \<mapsto> \<lparr> l_head = 22, l_tail = 23, l_length = 2, l_name = [], l_metadata = 0 \<rparr>,
                12 \<mapsto> \<lparr> l_head = 24, l_tail = 25, l_length = 2, l_name = [], l_metadata = 0 \<rparr>,
                13 \<mapsto> \<lparr> l_head = 0, l_tail = 0, l_length = 0, l_name = [], l_metadata = 0 \<rparr>,
                14 \<mapsto> \<lparr> l_head = 0, l_tail = 0, l_length = 0, l_name = [], l_metadata = 0 \<rparr>,
                15 \<mapsto> \<lparr> l_head = 0, l_tail = 0, l_length = 0, l_name = [], l_metadata = 0 \<rparr>] \<rparr>,
     tnodes = [1 \<mapsto> \<lparr> tn_value = 100, tn_children = 10, tn_parent = 0 \<rparr>,
               2 \<mapsto> \<lparr> tn_value = 200, tn_children = 11, tn_parent = 1 \<rparr>,
               3 \<mapsto> \<lparr> tn_value = 300, tn_children = 12, tn_parent = 2 \<rparr>,
               4 \<mapsto> \<lparr> tn_value = 400, tn_children = 13, tn_parent = 3 \<rparr>,
               5 \<mapsto> \<lparr> tn_value = 500, tn_children = 14, tn_parent = 3 \<rparr>,
               6 \<mapsto> \<lparr> tn_value = 600, tn_children = 15, tn_parent = 2 \<rparr>] \<rparr>"

lemma ex_ptree_lists:
  "is_list (tk ex_ptree) 10 [21]" "is_list (tk ex_ptree) 11 [22, 23]" "is_list (tk ex_ptree) 12 [24, 25]"
  "values_of (tk ex_ptree) [21] = [2]" "values_of (tk ex_ptree) [23] = [6]" "values_of (tk ex_ptree) [24, 25] = [4, 5]"
  by (simp_all add: ex_ptree_def is_list_def rd_list_def values_of_def)

theorem tree_remove_reparent_root_moves_witness:
  "\<exists>th' rs'. tree_remove_reparent_root ex_ptree \<lparr> t_nodes = 6, t_root = 1 \<rparr> 3 = Some (th', \<lparr> t_nodes = 5, t_root = 1 \<rparr>) \<and>
     is_list (tk th') 10 rs' \<and> values_of (tk th') rs' = [2, 4, 5] \<and>
     is_list (tk th') 11 [23] \<and> values_of (tk th') [23] = [6] \<and> tnodes th' 3 = None \<and>
     map_option tn_parent (tnodes th' 4) = Some 1 \<and> map_option tn_parent (tnodes th' 5) = Some 1 \<and> tnodes th' 2 = tnodes ex_ptree 2"
proof -
  have d: "rd_tn ex_ptree 3 = Some \<lparr> tn_value = 300, tn_children = 12, tn_parent = 2 \<rparr>"
    "rd_tn ex_ptree 2 = Some \<lparr> tn_value = 200, tn_children = 11, tn_parent = 1 \<rparr>"
    "rd_tn ex_ptree 1 = Some \<lparr> tn_value = 100, tn_children = 10, tn_parent = 0 \<rparr>"
    "rd_node (tk ex_ptree) 22 = Some \<lparr> node_next = 23, node_prev = 0, node_value = 3, node_owner = 11 \<rparr>"
    "rd_tn ex_ptree 4 \<noteq> None" "rd_tn ex_ptree 5 \<noteq> None"
    by (simp_all add: ex_ptree_def rd_tn_def rd_node_def)
  from tree_remove_reparent_root_moves [where parent = 2 and tree = "\<lparr> t_nodes = 6, t_root = 1 \<rparr>" and as = "[]" and bs = "[23]" and
      ks = "[24, 25]" and rs = "[21]" and r = "\<lparr> tn_value = 100, tn_children = 10, tn_parent = 0 \<rparr>", OF d(1) _ _ d(2) _ _ d(4)]
    ex_ptree_lists d
  have "\<exists>th' rs'. tree_remove_reparent_root ex_ptree \<lparr> t_nodes = 6, t_root = 1 \<rparr> 3 = Some (th', \<lparr> t_nodes = 5, t_root = 1 \<rparr>) \<and>
     is_list (tk th') 10 rs' \<and> values_of (tk th') rs' = [2, 4, 5] \<and>
     (\<forall>c \<in> {4, 5}. map_option tn_parent (tnodes th' c) = Some 1) \<and> tnodes th' 3 = None \<and>
     is_list (tk th') 11 [23] \<and> values_of (tk th') [23] = [6] \<and>
     (\<forall>c. c \<noteq> 3 \<and> c \<noteq> 4 \<and> c \<noteq> 5 \<longrightarrow> tnodes th' c = tnodes ex_ptree c)"
    by (simp add: values_of_def [of _ "[]"]) blast
  then show ?thesis by fastforce
qed

text \<open>
  \<^verbatim>\<open>tree_node_remove\<close> of a node without a parent, and so of the root, always faults: after
  the branch for the root it goes on to remove the node from the children of a null parent.
\<close>

theorem tree_node_remove_root_faults:
  assumes "rd_tn th node = Some n" "tn_parent n = NULL"
  shows "tree_node_remove th tree node = None"
proof -
  have "tree_node_parent_remove th' tree' NULL node = None" for th' tree'
    by (cases "tree_count_children th' node") (simp_all add: tree_node_parent_remove_def unlink_child_def rd_tn_def)
  then show ?thesis using assms by (auto simp: tree_node_remove_def Let_def)
qed

theorem tree_node_remove_root_faults_witness:
  "tree_node_remove ex_theap \<lparr> t_nodes = 2, t_root = 1 \<rparr> 1 = None"
  by (rule tree_node_remove_root_faults [of _ _ "\<lparr> tn_value = 100, tn_children = 10, tn_parent = 0 \<rparr>"])
    (simp_all add: ex_theap_def rd_tn_def)

end
