(* ===== verification/Kring.thy ===== *)
theory Kring
  imports Razion_Prelude "HOL-Library.Monad_Syntax"
begin

text \<open>
  Ring buffers with blocking reads and writes, \<^verbatim>\<open>src/kernel/misc/ringbuffer.c\<close>, and the sleeping mutex of
  \<^verbatim>\<open>src/kernel/sys/mutex.c\<close>.

  What a read or a write does between taking the lock of the buffer and releasing it is one pass over
  the buffer.  A process that has to wait leaves the lock and sleeps; whatever the rest of the system
  does until it wakes up is an argument of the model, a list of pairs of "was the sleep interrupted"
  and of the change to the buffer meanwhile.  Wait queues are lists of processes; the operations
  return the processes they make ready (and alert) in the order in which they do it.
\<close>

section \<open>The buffer\<close>

record ring_buffer_t =
  rb_buffer :: "u8 list"
  rb_write_ptr :: u64
  rb_read_ptr :: u64
  rb_size :: u64
  rb_readers :: "addr list"
  rb_writers :: "addr list"
  rb_internal_stop :: bool
  rb_alert_waiters :: "addr list option"
  rb_discard :: bool
  rb_soft_stop :: bool

definition ring_buffer_unread :: "ring_buffer_t \<Rightarrow> u64" where
  "ring_buffer_unread rb =
     (if rb_read_ptr rb = rb_write_ptr rb then 0
      else if rb_read_ptr rb > rb_write_ptr rb then (rb_size rb - rb_read_ptr rb) + rb_write_ptr rb
      else rb_write_ptr rb - rb_read_ptr rb)"

definition ring_buffer_available :: "ring_buffer_t \<Rightarrow> u64" where
  "ring_buffer_available rb =
     (if rb_read_ptr rb = rb_write_ptr rb then rb_size rb - 1
      else if rb_read_ptr rb > rb_write_ptr rb then rb_read_ptr rb - rb_write_ptr rb - 1
      else (rb_size rb - rb_write_ptr rb) + rb_read_ptr rb - 1)"

definition ring_buffer_increment_read :: "ring_buffer_t \<Rightarrow> ring_buffer_t" where
  "ring_buffer_increment_read rb =
     (let r = rb_read_ptr rb + 1 in rb\<lparr>rb_read_ptr := (if r = rb_size rb then 0 else r)\<rparr>)"

definition ring_buffer_increment_write :: "ring_buffer_t \<Rightarrow> ring_buffer_t" where
  "ring_buffer_increment_write rb =
     (let w = rb_write_ptr rb + 1 in rb\<lparr>rb_write_ptr := (if w = rb_size rb then 0 else w)\<rparr>)"

text \<open>\<open>wakeup_queue\<close> pops the queue, last sleeper first.\<close>

definition wake_readers :: "ring_buffer_t \<Rightarrow> ring_buffer_t \<times> addr list" where
  "wake_readers rb = (rb\<lparr>rb_readers := []\<rparr>, rev (rb_readers rb))"

definition wake_writers :: "ring_buffer_t \<Rightarrow> ring_buffer_t \<times> addr list" where
  "wake_writers rb = (rb\<lparr>rb_writers := []\<rparr>, rev (rb_writers rb))"

definition ring_buffer_alert_waiters :: "ring_buffer_t \<Rightarrow> ring_buffer_t \<times> addr list" where
  "ring_buffer_alert_waiters rb =
     (case rb_alert_waiters rb of
        None \<Rightarrow> (rb, [])
      | Some ps \<Rightarrow> (rb\<lparr>rb_alert_waiters := Some []\<rparr>, ps))"

text \<open>\<open>node_waits\<close> is that list of the process, to which the buffer itself is added.\<close>

definition ring_buffer_select_wait ::
    "ring_buffer_t \<Rightarrow> addr \<Rightarrow> addr \<Rightarrow> addr list \<Rightarrow> ring_buffer_t \<times> addr list" where
  "ring_buffer_select_wait rb self process node_waits =
     (let ps = (case rb_alert_waiters rb of None \<Rightarrow> [] | Some ps \<Rightarrow> ps);
          ps = (if process \<in> set ps then ps else ps @ [process])
      in (rb\<lparr>rb_alert_waiters := Some ps\<rparr>, node_waits @ [self]))"

definition ring_buffer_discard :: "ring_buffer_t \<Rightarrow> ring_buffer_t" where
  "ring_buffer_discard rb = rb\<lparr>rb_read_ptr := rb_write_ptr rb\<rparr>"

text \<open>The inner loops; an index outside the buffer is a fault.\<close>

fun rb_drain :: "ring_buffer_t \<Rightarrow> nat \<Rightarrow> (ring_buffer_t \<times> u8 list) option" where
  "rb_drain rb 0 = Some (rb, [])"
| "rb_drain rb (Suc n) =
     (if ring_buffer_unread rb > 0 then
        (if unat (rb_read_ptr rb) < length (rb_buffer rb) then do {
           let b = rb_buffer rb ! unat (rb_read_ptr rb);
           (rb, bs) \<leftarrow> rb_drain (ring_buffer_increment_read rb) n;
           Some (rb, b # bs)
         } else None)
      else Some (rb, []))"

fun rb_fill :: "ring_buffer_t \<Rightarrow> u8 list \<Rightarrow> (ring_buffer_t \<times> nat) option" where
  "rb_fill rb [] = Some (rb, 0)"
| "rb_fill rb (b # bs) =
     (if ring_buffer_available rb > 0 then
        (if unat (rb_write_ptr rb) < length (rb_buffer rb) then do {
           (rb, k) \<leftarrow> rb_fill (ring_buffer_increment_write
                      (rb\<lparr>rb_buffer := (rb_buffer rb)[unat (rb_write_ptr rb) := b]\<rparr>)) bs;
           Some (rb, Suc k)
         } else None)
      else Some (rb, 0))"

section \<open>Blocking reads and writes\<close>

type_synonym sleeps = "(bool \<times> (ring_buffer_t \<Rightarrow> ring_buffer_t)) list"

text \<open>
  \<open>Asleep rb\<close>: the process is on the wait queue and the given list of wake-ups is used up.
  \<open>Returned rb r bs ws\<close>: the call returned \<open>r\<close> with the bytes \<open>bs\<close> in the caller's buffer.
\<close>

datatype io_result = Asleep ring_buffer_t | Returned ring_buffer_t int "u8 list" "addr list"

fun ring_buffer_read :: "ring_buffer_t \<Rightarrow> addr \<Rightarrow> nat \<Rightarrow> sleeps \<Rightarrow> addr list \<Rightarrow> io_result option" where
  "ring_buffer_read rb proc sz es woken = do {
     (rb, bs) \<leftarrow> rb_drain rb sz;
     let (rb, ws) = wake_writers rb;
     if bs = [] then
       (if rb_internal_stop rb \<or> rb_soft_stop rb
        then Some (Returned (rb\<lparr>rb_soft_stop := False\<rparr>) 0 [] (woken @ ws))
        else
          (let rb = rb\<lparr>rb_readers := rb_readers rb @ [proc]\<rparr>
           in case es of
                [] \<Rightarrow> Some (Asleep rb)
              | (interrupted, world) # es \<Rightarrow>
                  if interrupted then Some (Returned (world rb) (- ERESTARTSYS) [] (woken @ ws))
                  else ring_buffer_read (world rb) proc sz es (woken @ ws)))
     else
       (let (rb, ws') = wake_writers rb
        in Some (Returned rb (int (length bs)) bs (woken @ ws @ ws')))
   }"

definition write_done :: "ring_buffer_t \<Rightarrow> nat \<Rightarrow> addr list \<Rightarrow> io_result" where
  "write_done rb written woken =
     (let (rb, ws) = wake_readers rb; (rb, as) = ring_buffer_alert_waiters rb
      in Returned rb (int written) [] (woken @ ws @ as))"

fun ring_buffer_write :: "ring_buffer_t \<Rightarrow> addr \<Rightarrow> u8 list \<Rightarrow> nat \<Rightarrow> sleeps \<Rightarrow> addr list \<Rightarrow> io_result option" where
  "ring_buffer_write rb proc bs written es woken =
     (if bs = [] then Some (write_done rb written woken)
      else do {
        (rb, k) \<leftarrow> rb_fill rb bs;
        let (rb, ws) = wake_readers rb;
        let (rb, as) = ring_buffer_alert_waiters rb;
        let woken = woken @ ws @ as;
        let written = written + k;
        if k < length bs then
          (if rb_discard rb then Some (write_done rb written woken)
           else
             (let rb = rb\<lparr>rb_writers := rb_writers rb @ [proc]\<rparr>
              in case es of
                   [] \<Rightarrow> Some (Asleep rb)
                 | (interrupted, world) # es \<Rightarrow>
                     if interrupted then
                       (if written = 0 then Some (Returned (world rb) (- ERESTARTSYS) [] woken)
                        else Some (write_done (world rb) written woken))
                     else if rb_internal_stop (world rb) then Some (write_done (world rb) written woken)
                     else ring_buffer_write (world rb) proc (drop k bs) written es woken))
        else Some (write_done rb written woken)
      })"

declare ring_buffer_read.simps [simp del] ring_buffer_write.simps [simp del]

text \<open>\<open>mem\<close> is the uninitialised memory the buffer gets.\<close>

definition ring_buffer_create :: "u64 \<Rightarrow> u8 list \<Rightarrow> ring_buffer_t" where
  "ring_buffer_create sz mem =
     \<lparr> rb_buffer = mem, rb_write_ptr = 0, rb_read_ptr = 0, rb_size = sz, rb_readers = [], rb_writers = [],
       rb_internal_stop = False, rb_alert_waiters = None, rb_discard = False, rb_soft_stop = False \<rparr>"

definition ring_buffer_interrupt :: "ring_buffer_t \<Rightarrow> ring_buffer_t \<times> addr list" where
  "ring_buffer_interrupt rb =
     (let (rb, rs) = wake_readers (rb\<lparr>rb_internal_stop := True\<rparr>); (rb, ws) = wake_writers rb in (rb, rs @ ws))"

definition ring_buffer_eof :: "ring_buffer_t \<Rightarrow> ring_buffer_t \<times> addr list" where
  "ring_buffer_eof rb =
     (let (rb, rs) = wake_readers (rb\<lparr>rb_soft_stop := True\<rparr>); (rb, ws) = wake_writers rb in (rb, rs @ ws))"

text \<open>\<open>ring_buffer_destroy\<close>: the buffer and the queues are freed; what is left to see is who was woken.\<close>

definition ring_buffer_destroy :: "ring_buffer_t \<Rightarrow> addr list" where
  "ring_buffer_destroy rb =
     (let (rb, ws) = wake_writers rb; (rb, rs) = wake_readers rb; (rb, as) = ring_buffer_alert_waiters rb
      in ws @ rs @ as)"

section \<open>The queue a buffer stands for\<close>

definition rb_list :: "ring_buffer_t \<Rightarrow> u8 list" where
  "rb_list rb = map (\<lambda>i. rb_buffer rb ! ((unat (rb_read_ptr rb) + i) mod unat (rb_size rb))) [0..<unat (ring_buffer_unread rb)]"

definition rb_ok :: "ring_buffer_t \<Rightarrow> bool" where
  "rb_ok rb \<longleftrightarrow> 0 < rb_size rb \<and> length (rb_buffer rb) = unat (rb_size rb) \<and>
     rb_read_ptr rb < rb_size rb \<and> rb_write_ptr rb < rb_size rb"

definition rb_capacity :: "ring_buffer_t \<Rightarrow> nat" where
  "rb_capacity rb = unat (rb_size rb) - 1"

text \<open>The word arithmetic of the code is the arithmetic of a ring.\<close>

definition dist :: "nat \<Rightarrow> nat \<Rightarrow> nat \<Rightarrow> nat" where
  "dist n r w = (if r \<le> w then w - r else n - r + w)"

lemma unread_dist: "rb_ok rb \<Longrightarrow> unat (ring_buffer_unread rb) = dist (unat (rb_size rb)) (unat (rb_read_ptr rb)) (unat (rb_write_ptr rb))"
proof -
  assume ok: "rb_ok rb"
  then have lt: "unat (rb_read_ptr rb) < unat (rb_size rb)" "unat (rb_write_ptr rb) < unat (rb_size rb)"
    by (simp_all add: rb_ok_def word_less_nat_alt)
  consider "rb_read_ptr rb = rb_write_ptr rb" | "rb_read_ptr rb < rb_write_ptr rb" | "rb_read_ptr rb > rb_write_ptr rb"
    by (metis linorder_less_linear)
  then show ?thesis
  proof cases
    case 1
    then show ?thesis by (simp add: ring_buffer_unread_def dist_def)
  next
    case 2
    then have "unat (rb_write_ptr rb - rb_read_ptr rb) = unat (rb_write_ptr rb) - unat (rb_read_ptr rb)"
      by (simp add: unat_sub_if_size word_le_nat_alt word_less_nat_alt)
    then show ?thesis using 2 by (auto simp: ring_buffer_unread_def dist_def word_less_nat_alt)
  next
    case 3
    have a: "unat (rb_size rb - rb_read_ptr rb) = unat (rb_size rb) - unat (rb_read_ptr rb)"
      using lt by (simp add: unat_sub_if_size word_le_nat_alt)
    have "unat (rb_size rb) < 2 ^ 64" using unsigned_less [of "rb_size rb", where 'a = nat] by simp
    then have "unat (rb_size rb - rb_read_ptr rb) + unat (rb_write_ptr rb) < 2 ^ 64"
      using lt a 3 by (simp add: word_less_nat_alt)
    then have "unat (rb_size rb - rb_read_ptr rb + rb_write_ptr rb) = unat (rb_size rb) - unat (rb_read_ptr rb) + unat (rb_write_ptr rb)"
      using a by (simp add: unat_add_lem [THEN iffD1])
    then show ?thesis using 3 by (auto simp: ring_buffer_unread_def dist_def word_less_nat_alt)
  qed
qed

lemma avail_dist:
  assumes ok: "rb_ok rb"
  shows "unat (ring_buffer_available rb) = rb_capacity rb - dist (unat (rb_size rb)) (unat (rb_read_ptr rb)) (unat (rb_write_ptr rb))"
proof -
  let ?n = "unat (rb_size rb)" and ?r = "unat (rb_read_ptr rb)" and ?w = "unat (rb_write_ptr rb)"
  have lt: "?r < ?n" "?w < ?n" "?n < 2 ^ 64"
    using ok unsigned_less [of "rb_size rb", where 'a = nat] by (simp_all add: rb_ok_def word_less_nat_alt)
  have one: "unat (x - 1) = unat x - 1" if "0 < unat x" for x :: u64
    using that by (simp add: unat_sub_if_size)
  consider "rb_read_ptr rb = rb_write_ptr rb" | "?r < ?w" | "?w < ?r" by (metis linorder_less_linear unsigned_word_eqI)
  then show ?thesis
  proof cases
    case 1
    then show ?thesis using one lt by (simp add: ring_buffer_available_def dist_def rb_capacity_def)
  next
    case 2
    have a: "unat (rb_size rb - rb_write_ptr rb) = ?n - ?w" using lt by (simp add: unat_sub_if_size)
    then have "unat (rb_size rb - rb_write_ptr rb + rb_read_ptr rb) = ?n - ?w + ?r"
      using 2 lt by (simp add: unat_add_lem [THEN iffD1])
    then have "unat (rb_size rb - rb_write_ptr rb + rb_read_ptr rb - 1) = ?n - ?w + ?r - 1" using one lt by simp
    then show ?thesis using 2 lt by (auto simp: ring_buffer_available_def dist_def rb_capacity_def word_less_nat_alt)
  next
    case 3
    have "unat (rb_read_ptr rb - rb_write_ptr rb) = ?r - ?w" using 3 by (simp add: unat_sub_if_size)
    then have "unat (rb_read_ptr rb - rb_write_ptr rb - 1) = ?r - ?w - 1" using one 3 by simp
    then show ?thesis using 3 lt by (auto simp: ring_buffer_available_def dist_def rb_capacity_def word_less_nat_alt)
  qed
qed

lemma dist_less: "r < n \<Longrightarrow> w < n \<Longrightarrow> dist n r w < n"
  by (auto simp: dist_def)

lemma dist_mod: "r < n \<Longrightarrow> w < n \<Longrightarrow> (r + dist n r w) mod n = w"
  by (auto simp: dist_def)

lemma dist_next_write: "r < n \<Longrightarrow> w < n \<Longrightarrow> dist n r w < n - 1 \<Longrightarrow> dist n r ((w + 1) mod n) = Suc (dist n r w)"
  by (cases "w + 1 = n") (auto simp: dist_def split: if_splits)

lemma dist_next_read: "r < n \<Longrightarrow> w < n \<Longrightarrow> 0 < dist n r w \<Longrightarrow> dist n ((r + 1) mod n) w = dist n r w - 1"
  by (cases "r + 1 = n") (auto simp: dist_def split: if_splits)

lemma ring_index_inj:
  fixes n :: nat
  assumes "r < n" "i < n" "j < n" "(r + i) mod n = (r + j) mod n"
  shows "i = j"
  using assms mod_if [of "r + i" n] mod_if [of "r + j" n] by (auto split: if_splits)

lemma next_ptr:
  fixes p n :: u64
  assumes "p < n"
  shows "unat (if p + 1 = n then 0 else p + 1) = (unat p + 1) mod unat n" "(if p + 1 = n then 0 else p + 1) < n"
proof -
  have lt: "unat p < unat n" "unat n < 2 ^ 64"
    using assms unsigned_less [of n, where 'a = nat] by (simp_all add: word_less_nat_alt)
  then have u: "unat (p + 1) = unat p + 1" using unat_add_lem [of p 1] by simp
  show g: "unat (if p + 1 = n then 0 else p + 1) = (unat p + 1) mod unat n"
  proof (cases "p + 1 = n")
    case True
    then have "unat p + 1 = unat n" using u by simp
    then show ?thesis using True by simp
  next
    case False
    then have "unat p + 1 \<noteq> unat n" using u by (metis unsigned_word_eqI)
    then show ?thesis using False u lt by simp
  qed
  have "0 < unat n" using lt by linarith
  then show "(if p + 1 = n then 0 else p + 1) < n" unfolding word_less_nat_alt g by simp
qed

lemma rb_list_dist:
  assumes "rb_ok rb" "unat (rb_size rb) = n" "unat (rb_read_ptr rb) = r" "unat (rb_write_ptr rb) = w"
  shows "rb_list rb = map (\<lambda>i. rb_buffer rb ! ((r + i) mod n)) [0..<dist n r w]" "r < n" "w < n" "length (rb_buffer rb) = n"
  using assms unread_dist [OF assms(1)] by (auto simp: rb_list_def rb_ok_def word_less_nat_alt)

lemma put_one:
  fixes b :: u8
  assumes ok: "rb_ok rb" and av: "ring_buffer_available rb > 0"
  defines "rb' \<equiv> ring_buffer_increment_write (rb\<lparr>rb_buffer := (rb_buffer rb)[unat (rb_write_ptr rb) := b]\<rparr>)"
  shows "rb_ok rb'" "rb_list rb' = rb_list rb @ [b]" "rb_size rb' = rb_size rb"
proof -
  let ?n = "unat (rb_size rb)" and ?r = "unat (rb_read_ptr rb)" and ?w = "unat (rb_write_ptr rb)"
  have l: "rb_list rb = map (\<lambda>i. rb_buffer rb ! ((?r + i) mod ?n)) [0..<dist ?n ?r ?w]" "?r < ?n" "?w < ?n"
    "length (rb_buffer rb) = ?n" using rb_list_dist [OF ok refl refl refl] by blast+
  have d: "dist ?n ?r ?w < ?n - 1" using av avail_dist [OF ok] by (simp add: rb_capacity_def word_less_nat_alt)
  have lt: "rb_write_ptr rb < rb_size rb" using ok by (simp add: rb_ok_def)
  have f: "rb_size rb' = rb_size rb" "rb_read_ptr rb' = rb_read_ptr rb" "rb_buffer rb' = (rb_buffer rb)[?w := b]"
    "rb_write_ptr rb' = (if rb_write_ptr rb + 1 = rb_size rb then 0 else rb_write_ptr rb + 1)"
    by (simp_all add: rb'_def ring_buffer_increment_write_def Let_def)
  show "rb_size rb' = rb_size rb" by (rule f(1))
  show ok': "rb_ok rb'" using ok next_ptr(2) [OF lt] by (simp add: rb_ok_def f)
  have w': "unat (rb_write_ptr rb') = (?w + 1) mod ?n" using next_ptr(1) [OF lt] by (simp only: f(4))
  have "rb_list rb' = map (\<lambda>i. (rb_buffer rb)[?w := b] ! ((?r + i) mod ?n)) [0..<Suc (dist ?n ?r ?w)]"
    using rb_list_dist(1) [OF ok', of ?n ?r "(?w + 1) mod ?n"] f w' dist_next_write [OF l(2,3) d] by simp
  moreover have "(rb_buffer rb)[?w := b] ! ((?r + dist ?n ?r ?w) mod ?n) = b"
    using dist_mod [OF l(2,3)] l(3,4) by simp
  moreover have "(rb_buffer rb)[?w := b] ! ((?r + i) mod ?n) = rb_buffer rb ! ((?r + i) mod ?n)" if "i < dist ?n ?r ?w" for i
  proof -
    have "(?r + i) mod ?n \<noteq> ?w"
      using ring_index_inj [OF l(2), of i "dist ?n ?r ?w"] dist_mod [OF l(2,3)] dist_less [OF l(2,3)] that by auto
    then show ?thesis by simp
  qed
  ultimately show "rb_list rb' = rb_list rb @ [b]" by (simp add: l(1))
qed

lemma get_one:
  assumes ok: "rb_ok rb" and un: "ring_buffer_unread rb > 0"
  defines "rb' \<equiv> ring_buffer_increment_read rb"
  shows "rb_ok rb'" "rb_list rb = rb_buffer rb ! unat (rb_read_ptr rb) # rb_list rb'" "rb_size rb' = rb_size rb"
    "unat (rb_read_ptr rb) < length (rb_buffer rb)"
proof -
  let ?n = "unat (rb_size rb)" and ?r = "unat (rb_read_ptr rb)" and ?w = "unat (rb_write_ptr rb)"
  have l: "rb_list rb = map (\<lambda>i. rb_buffer rb ! ((?r + i) mod ?n)) [0..<dist ?n ?r ?w]" "?r < ?n" "?w < ?n"
    "length (rb_buffer rb) = ?n" using rb_list_dist [OF ok refl refl refl] by blast+
  show "?r < length (rb_buffer rb)" using l by simp
  have d: "0 < dist ?n ?r ?w" using un unread_dist [OF ok] by (simp add: word_less_nat_alt)
  have lt: "rb_read_ptr rb < rb_size rb" using ok by (simp add: rb_ok_def)
  have f: "rb_size rb' = rb_size rb" "rb_write_ptr rb' = rb_write_ptr rb" "rb_buffer rb' = rb_buffer rb"
    "rb_read_ptr rb' = (if rb_read_ptr rb + 1 = rb_size rb then 0 else rb_read_ptr rb + 1)"
    by (simp_all add: rb'_def ring_buffer_increment_read_def Let_def)
  show "rb_size rb' = rb_size rb" by (rule f(1))
  show ok': "rb_ok rb'" using ok next_ptr(2) [OF lt] by (simp add: rb_ok_def f)
  have r': "unat (rb_read_ptr rb') = (?r + 1) mod ?n" using next_ptr(1) [OF lt] by (simp only: f(4))
  have "rb_list rb' = map (\<lambda>i. rb_buffer rb ! (((?r + 1) mod ?n + i) mod ?n)) [0..<dist ?n ?r ?w - 1]"
    using rb_list_dist(1) [OF ok', of ?n "(?r + 1) mod ?n" ?w] f r' dist_next_read [OF l(2,3) d] by simp
  also have "\<dots> = map (\<lambda>i. rb_buffer rb ! ((?r + i) mod ?n)) (map Suc [0..<dist ?n ?r ?w - 1])"
    by (simp add: mod_simps)
  also have "map Suc [0..<dist ?n ?r ?w - 1] = [1..<dist ?n ?r ?w]" using d by (simp add: map_Suc_upt)
  finally show "rb_list rb = rb_buffer rb ! ?r # rb_list rb'"
    using d l(1,2) by (simp add: upt_conv_Cons)
qed

lemma length_rb_list: "rb_ok rb \<Longrightarrow> length (rb_list rb) \<le> rb_capacity rb"
  using dist_less [of "unat (rb_read_ptr rb)" "unat (rb_size rb)" "unat (rb_write_ptr rb)"] unread_dist [of rb]
  by (auto simp: rb_list_def rb_capacity_def rb_ok_def word_less_nat_alt)

lemma unread_pos: "rb_ok rb \<Longrightarrow> ring_buffer_unread rb > 0 \<longleftrightarrow> rb_list rb \<noteq> []"
  by (simp add: rb_list_def word_less_nat_alt)

lemma avail_pos: "rb_ok rb \<Longrightarrow> ring_buffer_available rb > 0 \<longleftrightarrow> length (rb_list rb) < rb_capacity rb"
  using avail_dist [of rb] unread_dist [of rb] by (auto simp: rb_list_def word_less_nat_alt)

lemma rb_fill_spec:
  "rb_ok rb \<Longrightarrow> \<exists>rb'. rb_fill rb bs = Some (rb', min (length bs) (rb_capacity rb - length (rb_list rb))) \<and> rb_ok rb' \<and>
     rb_list rb' = rb_list rb @ take (rb_capacity rb - length (rb_list rb)) bs \<and> rb_capacity rb' = rb_capacity rb"
proof (induction bs arbitrary: rb)
  case (Cons b bs)
  show ?case
  proof (cases "length (rb_list rb) < rb_capacity rb")
    case True
    let ?rb = "ring_buffer_increment_write (rb\<lparr>rb_buffer := (rb_buffer rb)[unat (rb_write_ptr rb) := b]\<rparr>)"
    have av: "ring_buffer_available rb > 0" using avail_pos [OF Cons.prems] True by simp
    note p = put_one [OF Cons.prems av, of b]
    have c: "rb_capacity ?rb = rb_capacity rb" using p(3) by (simp add: rb_capacity_def)
    have lt: "unat (rb_write_ptr rb) < length (rb_buffer rb)" using Cons.prems by (simp add: rb_ok_def word_less_nat_alt)
    from Cons.IH [OF p(1)] obtain rb' where
      "rb_fill ?rb bs = Some (rb', min (length bs) (rb_capacity rb - length (rb_list ?rb)))" "rb_ok rb'"
      "rb_list rb' = rb_list ?rb @ take (rb_capacity rb - length (rb_list ?rb)) bs" "rb_capacity rb' = rb_capacity rb"
      unfolding c by blast
    then show ?thesis using av lt p(2) True by (intro exI [of _ rb']) (simp add: Suc_diff_Suc take_Cons')
  next
    case False
    then have "\<not> ring_buffer_available rb > 0" "length (rb_list rb) = rb_capacity rb"
      using avail_pos [OF Cons.prems] length_rb_list [OF Cons.prems] by simp_all
    then show ?thesis using Cons.prems by simp
  qed
qed simp

lemma rb_drain_spec:
  "rb_ok rb \<Longrightarrow> \<exists>rb'. rb_drain rb n = Some (rb', take n (rb_list rb)) \<and> rb_ok rb' \<and> rb_list rb' = drop n (rb_list rb) \<and>
     rb_capacity rb' = rb_capacity rb"
proof (induction n arbitrary: rb)
  case (Suc n)
  show ?case
  proof (cases "rb_list rb = []")
    case True
    then show ?thesis using unread_pos [OF Suc.prems] Suc.prems by simp
  next
    case False
    then have un: "ring_buffer_unread rb > 0" using unread_pos [OF Suc.prems] by simp
    note g = get_one [OF Suc.prems un]
    from Suc.IH [OF g(1)] obtain rb' where "rb_drain (ring_buffer_increment_read rb) n = Some (rb', take n (rb_list (ring_buffer_increment_read rb)))"
      "rb_ok rb'" "rb_list rb' = drop n (rb_list (ring_buffer_increment_read rb))" "rb_capacity rb' = rb_capacity rb"
      using g(3) by (auto simp: rb_capacity_def)
    then show ?thesis using un g(2,4) by (intro exI [of _ rb']) simp
  qed
qed simp

section \<open>The byte queue contract\<close>

text \<open>
  The history of a buffer shared by any number of readers and writers: each pass under the lock is a
  step; \<open>w\<close> collects the bytes writers handed over, \<open>r\<close> those readers received.
\<close>

inductive stream_step ::
    "('s \<Rightarrow> u8 list \<Rightarrow> ('s \<times> nat) option) \<Rightarrow> ('s \<Rightarrow> nat \<Rightarrow> ('s \<times> u8 list) option) \<Rightarrow>
     's \<times> u8 list \<times> u8 list \<Rightarrow> 's \<times> u8 list \<times> u8 list \<Rightarrow> bool" for fill drain where
  step_fill: "fill s bs = Some (s', k) \<Longrightarrow> stream_step fill drain (s, w, r) (s', w @ take k bs, r)"
| step_drain: "drain s n = Some (s', out) \<Longrightarrow> stream_step fill drain (s, w, r) (s', w, r @ out)"

inductive_cases stream_stepE: "stream_step fill drain (s, w, r) c"

locale byte_queue =
  fixes invar :: "'s \<Rightarrow> bool" and content :: "'s \<Rightarrow> u8 list"
    and fill :: "'s \<Rightarrow> u8 list \<Rightarrow> ('s \<times> nat) option" and drain :: "'s \<Rightarrow> nat \<Rightarrow> ('s \<times> u8 list) option"
  assumes fill_law: "invar s \<Longrightarrow> \<exists>s' k. fill s bs = Some (s', k) \<and> invar s' \<and> content s' = content s @ take k bs"
    and drain_law: "invar s \<Longrightarrow> \<exists>s' out. drain s n = Some (s', out) \<and> invar s' \<and> content s = out @ content s'"
begin

lemma stream_step_kept:
  assumes "stream_step fill drain (s, w, r) (s', w', r')" "invar s" "w = r @ content s"
  shows "invar s' \<and> w' = r' @ content s'"
  using assms(1)
proof (cases rule: stream_step.cases)
  case (step_fill bs k)
  then show ?thesis using fill_law [OF assms(2), of bs] assms(3) by auto
next
  case (step_drain n out)
  then show ?thesis using drain_law [OF assms(2), of n] assms(3) by auto
qed

lemma stream_fifo:
  assumes "(stream_step fill drain)\<^sup>*\<^sup>* (s, [], []) (s', w, r)" "invar s" "content s = []"
  shows "invar s' \<and> w = r @ content s'"
proof -
  have "case c of (s', w, r) \<Rightarrow> invar s' \<and> w = r @ content s'" if "(stream_step fill drain)\<^sup>*\<^sup>* (s, [], []) c" for c
    using that
  proof (induction rule: rtranclp_induct)
    case base
    then show ?case using assms(2,3) by simp
  next
    case (step c d)
    obtain s1 w1 r1 s2 w2 r2 where cd: "c = (s1, w1, r1)" "d = (s2, w2, r2)" by (metis prod_cases3)
    have "invar s2 \<and> w2 = r2 @ content s2" using step.hyps(2) step.IH unfolding cd by (intro stream_step_kept) auto
    then show ?case by (simp add: cd)
  qed
  from this [OF assms(1)] show ?thesis by simp
qed

end

text \<open>A queue that takes what fits and gives what it has.\<close>

locale bounded_byte_queue = byte_queue invar content fill drain
  for invar :: "'s \<Rightarrow> bool" and content :: "'s \<Rightarrow> u8 list"
    and fill :: "'s \<Rightarrow> u8 list \<Rightarrow> ('s \<times> nat) option" and drain :: "'s \<Rightarrow> nat \<Rightarrow> ('s \<times> u8 list) option" +
  fixes room :: "'s \<Rightarrow> nat"
  assumes fill_count: "invar s \<Longrightarrow> fill s bs = Some (s', k) \<Longrightarrow> k = min (length bs) (room s)"
    and drain_count: "invar s \<Longrightarrow> drain s n = Some (s', out) \<Longrightarrow> length out = min n (length (content s))"
begin

lemma fits_round_trip:
  assumes "invar s" "content s = []" "length bs \<le> room s"
  shows "\<exists>s' s''. fill s bs = Some (s', length bs) \<and> drain s' (length bs) = Some (s'', bs) \<and> invar s'' \<and> content s'' = []"
proof -
  from fill_law [OF assms(1), of bs] obtain s' k where f: "fill s bs = Some (s', k)" "invar s'" "content s' = take k bs"
    using assms(2) by auto
  have k: "k = length bs" using fill_count [OF assms(1) f(1)] assms(3) by simp
  from drain_law [OF f(2), of "length bs"] obtain s'' out where
    d: "drain s' (length bs) = Some (s'', out)" "invar s''" "content s' = out @ content s''" by blast
  have l: "length out = length bs" using drain_count [OF f(2) d(1)] f(3) k by simp
  have e: "bs = out @ content s''" using d(3) f(3) k by simp
  then have "length bs = length out + length (content s'')" by (metis length_append)
  then have "content s'' = []" using l by simp
  moreover then have "out = bs" using e by simp
  ultimately show ?thesis using f(1) k d(1,2) by (intro exI [of _ s'] exI [of _ s'']) simp
qed

end

lemma rb_fill_law: "rb_ok rb \<Longrightarrow> \<exists>rb' k. rb_fill rb bs = Some (rb', k) \<and> rb_ok rb' \<and> rb_list rb' = rb_list rb @ take k bs"
proof -
  assume "rb_ok rb"
  from rb_fill_spec [OF this, of bs] obtain rb' where
    f: "rb_fill rb bs = Some (rb', min (length bs) (rb_capacity rb - length (rb_list rb)))" "rb_ok rb'"
      "rb_list rb' = rb_list rb @ take (rb_capacity rb - length (rb_list rb)) bs" by blast
  have "take (min (length bs) n) bs = take n bs" for n by (simp add: min_def)
  then show ?thesis using f by (intro exI [of _ rb'] exI [of _ "min (length bs) (rb_capacity rb - length (rb_list rb))"]) simp
qed

lemma rb_drain_law: "rb_ok rb \<Longrightarrow> \<exists>rb' out. rb_drain rb n = Some (rb', out) \<and> rb_ok rb' \<and> rb_list rb = out @ rb_list rb'"
  using rb_drain_spec [of rb n] by (metis append_take_drop_id)

interpretation ring: bounded_byte_queue rb_ok rb_list rb_fill rb_drain "\<lambda>rb. rb_capacity rb - length (rb_list rb)"
proof unfold_locales
  fix rb bs rb' k
  assume "rb_ok rb" "rb_fill rb bs = Some (rb', k)"
  then show "k = min (length bs) (rb_capacity rb - length (rb_list rb))" using rb_fill_spec [of rb bs] by auto
next
  fix rb n rb' out
  assume "rb_ok rb" "rb_drain rb n = Some (rb', out)"
  then show "length out = min n (length (rb_list rb))" using rb_drain_spec [of rb n] by auto
qed (erule rb_fill_law, erule rb_drain_law)

lemma ring_create_ok: "0 < sz \<Longrightarrow> length mem = unat sz \<Longrightarrow> rb_ok (ring_buffer_create sz mem) \<and> rb_list (ring_buffer_create sz mem) = [] \<and>
    rb_capacity (ring_buffer_create sz mem) = unat sz - 1"
  by (simp add: rb_ok_def ring_buffer_create_def rb_list_def ring_buffer_unread_def rb_capacity_def)

section \<open>Blocking\<close>

lemma rb_list_cong:
  "rb_buffer a = rb_buffer b \<Longrightarrow> rb_write_ptr a = rb_write_ptr b \<Longrightarrow> rb_read_ptr a = rb_read_ptr b \<Longrightarrow> rb_size a = rb_size b \<Longrightarrow>
   rb_list a = rb_list b \<and> rb_ok a = rb_ok b"
  by (simp add: rb_list_def rb_ok_def ring_buffer_unread_def)

lemma wake_keeps [simp]:
  "rb_list (rb\<lparr>rb_writers := ws\<rparr>) = rb_list rb" "rb_ok (rb\<lparr>rb_writers := ws\<rparr>) = rb_ok rb"
  "rb_list (rb\<lparr>rb_readers := ws\<rparr>) = rb_list rb" "rb_ok (rb\<lparr>rb_readers := ws\<rparr>) = rb_ok rb"
  "rb_list (rb\<lparr>rb_alert_waiters := as\<rparr>) = rb_list rb" "rb_ok (rb\<lparr>rb_alert_waiters := as\<rparr>) = rb_ok rb"
  "rb_list (rb\<lparr>rb_soft_stop := b\<rparr>) = rb_list rb" "rb_ok (rb\<lparr>rb_soft_stop := b\<rparr>) = rb_ok rb"
  "rb_list (rb\<lparr>rb_internal_stop := b\<rparr>) = rb_list rb" "rb_ok (rb\<lparr>rb_internal_stop := b\<rparr>) = rb_ok rb"
  by (rule conjunct1 [OF rb_list_cong] conjunct2 [OF rb_list_cong]; simp)+

fun io_ok :: "(ring_buffer_t \<Rightarrow> int \<Rightarrow> u8 list \<Rightarrow> bool) \<Rightarrow> io_result \<Rightarrow> bool" where
  "io_ok P (Asleep rb) = rb_ok rb"
| "io_ok P (Returned rb r bs ws) = (rb_ok rb \<and> P rb r bs)"

lemma write_done_ok: "rb_ok rb \<Longrightarrow> (\<forall>rb. P rb (int n) []) \<Longrightarrow> io_ok P (write_done rb n woken)"
  by (simp add: write_done_def wake_readers_def ring_buffer_alert_waiters_def split: option.split)

text \<open>One turn of the loop of \<^verbatim>\<open>ring_buffer_write\<close> on a well-formed buffer.\<close>

lemma ring_buffer_write_pass:
  assumes "rb_ok rb" "bs \<noteq> []"
  shows "\<exists>rb1 k ws. rb_ok rb1 \<and> k \<le> length bs \<and>
    ring_buffer_write rb proc bs written es woken =
      (if k < length bs \<and> \<not> rb_discard rb1 then
         (case es of [] \<Rightarrow> Some (Asleep (rb1\<lparr>rb_writers := rb_writers rb1 @ [proc]\<rparr>))
          | (interrupted, world) # es \<Rightarrow>
              let rb = world (rb1\<lparr>rb_writers := rb_writers rb1 @ [proc]\<rparr>) in
              if interrupted \<and> written + k = 0 then Some (Returned rb (- ERESTARTSYS) [] ws)
              else if interrupted \<or> rb_internal_stop rb then Some (write_done rb (written + k) ws)
              else ring_buffer_write rb proc (drop k bs) (written + k) es ws)
       else Some (write_done rb1 (written + k) ws))"
proof -
  from ring.fill_law [OF assms(1), of bs] obtain rb1 k where f: "rb_fill rb bs = Some (rb1, k)" "rb_ok rb1" by blast
  have k: "k \<le> length bs" using ring.fill_count [OF assms(1) f(1)] by simp
  obtain rb2 ws where w: "wake_readers rb1 = (rb2, ws)" "rb_ok rb2" using f(2) by (simp add: wake_readers_def)
  obtain rb3 as where a: "ring_buffer_alert_waiters rb2 = (rb3, as)" "rb_ok rb3"
    using w(2) by (cases "rb_alert_waiters rb2") (auto simp: ring_buffer_alert_waiters_def)
  show ?thesis using assms(2) f w a k
    by (intro exI [of _ rb3] exI [of _ k] exI [of _ "woken @ ws @ as"], subst ring_buffer_write.simps)
      (simp add: Let_def split: list.splits)
qed

lemma write_blocking_ok:
  assumes "rb_ok rb" "\<forall>(i, world) \<in> set es. \<forall>rb. rb_ok rb \<longrightarrow> rb_ok (world rb)"
  shows "\<exists>x. ring_buffer_write rb proc bs written es woken = Some x \<and>
    io_ok (\<lambda>_ r _. r = - ERESTARTSYS \<or> int written \<le> r \<and> r \<le> int (written + length bs)) x"
  using assms
proof (induction es arbitrary: rb bs written woken)
  case Nil
  show ?case
  proof (cases "bs = []")
    case True
    then show ?thesis using Nil by (subst ring_buffer_write.simps) (simp add: write_done_ok)
  next
    case False
    from ring_buffer_write_pass [OF Nil(1) False, of proc written "[]" woken, unfolded list.case] obtain rb1 k ws where
      p: "rb_ok rb1" "k \<le> length bs" "ring_buffer_write rb proc bs written [] woken =
        (if k < length bs \<and> \<not> rb_discard rb1 then Some (Asleep (rb1\<lparr>rb_writers := rb_writers rb1 @ [proc]\<rparr>))
         else Some (write_done rb1 (written + k) ws))" by blast
    then show ?thesis by (cases "k < length bs \<and> \<not> rb_discard rb1") (simp_all add: write_done_ok)
  qed
next
  case (Cons e es)
  obtain i world where e: "e = (i, world)" by (cases e)
  show ?case
  proof (cases "bs = []")
    case True
    then show ?thesis using Cons.prems by (subst ring_buffer_write.simps) (simp add: write_done_ok)
  next
    case False
    from ring_buffer_write_pass [OF Cons.prems(1) False, of proc written "(i, world) # es" woken, unfolded list.case prod.case] obtain rb1 k ws where
      p: "rb_ok rb1" "k \<le> length bs" "ring_buffer_write rb proc bs written ((i, world) # es) woken =
        (if k < length bs \<and> \<not> rb_discard rb1 then
           let rb = world (rb1\<lparr>rb_writers := rb_writers rb1 @ [proc]\<rparr>) in
           if i \<and> written + k = 0 then Some (Returned rb (- ERESTARTSYS) [] ws)
           else if i \<or> rb_internal_stop rb then Some (write_done rb (written + k) ws)
           else ring_buffer_write rb proc (drop k bs) (written + k) es ws
         else Some (write_done rb1 (written + k) ws))" by blast
    let ?rb = "world (rb1\<lparr>rb_writers := rb_writers rb1 @ [proc]\<rparr>)"
    have ok: "rb_ok ?rb" using Cons.prems(2) p(1) e by simp
    from Cons.IH [OF ok, of "drop k bs" "written + k" ws] Cons.prems(2) obtain x where
      x: "ring_buffer_write ?rb proc (drop k bs) (written + k) es ws = Some x"
        "io_ok (\<lambda>_ r _. r = - ERESTARTSYS \<or> int (written + k) \<le> r \<and> r \<le> int (written + k + length (drop k bs))) x" by auto
    have "io_ok (\<lambda>_ r _. r = - ERESTARTSYS \<or> int written \<le> r \<and> r \<le> int (written + length bs)) x"
      using x(2) p(2) by (cases x) auto
    then show ?thesis using p ok x(1) unfolding e by (simp add: Let_def write_done_ok)
  qed
qed

lemma read_ready:
  assumes "rb_ok rb" "rb_list rb \<noteq> []" "0 < n"
  shows "\<exists>rb' ws. ring_buffer_read rb proc n es woken = Some (Returned rb' (int (min n (length (rb_list rb)))) (take n (rb_list rb)) ws) \<and>
    rb_ok rb' \<and> rb_list rb' = drop n (rb_list rb)"
proof -
  from rb_drain_spec [OF assms(1), of n] obtain rb1 where
    d: "rb_drain rb n = Some (rb1, take n (rb_list rb))" "rb_ok rb1" "rb_list rb1 = drop n (rb_list rb)" by blast
  have "take n (rb_list rb) \<noteq> []" using assms by simp
  then show ?thesis using d by (subst ring_buffer_read.simps) (simp add: wake_writers_def Let_def min.commute)
qed
section \<open>The sleeping mutex\<close>

record sched_mutex_t =
  m_status :: bool
  m_owner :: addr
  m_waiters :: "addr list"

definition mutex_init :: sched_mutex_t where
  "mutex_init = \<lparr> m_status = False, m_owner = NULL, m_waiters = [] \<rparr>"

text \<open>
  One turn of the loop of \<^verbatim>\<open>mutex_acquire\<close> by \<open>current\<close>, under the inner lock: it goes to sleep on the
  waiters, or owns the mutex.
\<close>

definition mutex_acquire :: "sched_mutex_t \<Rightarrow> addr \<Rightarrow> sched_mutex_t \<times> bool" where
  "mutex_acquire mutex current =
     (if m_status mutex then (mutex\<lparr>m_waiters := m_waiters mutex @ [current]\<rparr>, False)
      else (mutex\<lparr>m_status := True, m_owner := current\<rparr>, True))"

text \<open>\<open>None\<close> is the failed assertion; \<^verbatim>\<open>wakeup_queue_one\<close> pops the last waiter.\<close>

definition mutex_release :: "sched_mutex_t \<Rightarrow> addr \<Rightarrow> (sched_mutex_t \<times> addr list) option" where
  "mutex_release mutex current =
     (if m_owner mutex \<noteq> current then None
      else let ws = m_waiters mutex
           in Some (mutex\<lparr>m_owner := NULL, m_status := False, m_waiters := butlast ws\<rparr>, if ws = [] then [] else [last ws]))"

text \<open>
  The processes that use a mutex: \<open>H\<close> are those between a successful acquire and the release, which
  is all a process may do with it.
\<close>

inductive mutex_step :: "sched_mutex_t \<times> addr set \<Rightarrow> sched_mutex_t \<times> addr set \<Rightarrow> bool" where
  acquired: "p \<noteq> NULL \<Longrightarrow> p \<notin> H \<Longrightarrow> mutex_acquire m p = (m', True) \<Longrightarrow> mutex_step (m, H) (m', insert p H)"
| waits: "p \<notin> H \<Longrightarrow> mutex_acquire m p = (m', False) \<Longrightarrow> mutex_step (m, H) (m', H)"
| released: "p \<in> H \<Longrightarrow> mutex_release m p = Some (m', ws) \<Longrightarrow> mutex_step (m, H) (m', H - {p})"

inductive_cases mutex_stepE: "mutex_step (m, H) c"

definition mutex_inv :: "sched_mutex_t \<times> addr set \<Rightarrow> bool" where
  "mutex_inv c = (case c of (m, H) \<Rightarrow> if m_status m then m_owner m \<noteq> NULL \<and> H = {m_owner m} else m_owner m = NULL \<and> H = {})"

lemma mutex_step_inv: "mutex_step c d \<Longrightarrow> mutex_inv c \<Longrightarrow> mutex_inv d"
  by (induction rule: mutex_step.induct)
    (auto simp: mutex_inv_def mutex_acquire_def mutex_release_def Let_def split: if_splits)

lemma mutex_reachable_inv: "mutex_step\<^sup>*\<^sup>* (mutex_init, {}) c \<Longrightarrow> mutex_inv c"
proof (induction rule: rtranclp_induct)
  case base
  then show ?case by (simp add: mutex_inv_def mutex_init_def)
next
  case (step c d)
  then show ?case by (blast intro: mutex_step_inv)
qed

section \<open>Properties\<close>

text \<open>
  Property C1.  For any number of readers and writers and any interleaving of their passes over a
  ring buffer that started empty, the bytes the writers put in are, in order, the bytes the readers
  got followed by what is still in the buffer: none is lost, duplicated or reordered.
\<close>

theorem ring_buffer_fifo:
  assumes "0 < sz" "length mem = unat sz"
    "(stream_step rb_fill rb_drain)\<^sup>*\<^sup>* (ring_buffer_create sz mem, [], []) (rb, w, r)"
  shows "rb_ok rb \<and> w = r @ rb_list rb"
  using ring.stream_fifo [OF assms(3)] ring_create_ok [OF assms(1,2)] by blast

theorem ring_buffer_fifo_witness:
  "\<exists>rb. (stream_step rb_fill rb_drain)\<^sup>*\<^sup>* (ring_buffer_create 4 [0, 0, 0, 0], [], []) (rb, [5, 6], []) \<and> rb_list rb = [5, 6]"
proof -
  have c: "(0 :: u64) < 4" "length [0, 0, 0, 0 :: u8] = unat (4 :: u64)" by simp_all
  obtain rb k where f: "rb_fill (ring_buffer_create 4 [0, 0, 0, 0]) [5, 6] = Some (rb, k)"
    using ring.fill_law ring_create_ok [OF c] by blast
  have k: "k = 2" using ring.fill_count [OF _ f] ring_create_ok [OF c] by simp
  have "(stream_step rb_fill rb_drain)\<^sup>*\<^sup>* (ring_buffer_create 4 [0, 0, 0, 0], [], []) (rb, [] @ take k [5, 6], [])"
    by (intro r_into_rtranclp step_fill) (rule f)
  then have s: "(stream_step rb_fill rb_drain)\<^sup>*\<^sup>* (ring_buffer_create 4 [0, 0, 0, 0], [], []) (rb, [5, 6], [])"
    using k by simp
  from ring_buffer_fifo [OF c s] s show ?thesis by auto
qed

text \<open>
  Property C35.  \<^verbatim>\<open>ring_buffer_write\<close> never indexes outside the buffer, whatever happens to a well-formed
  buffer while it sleeps, and what it returns is \<^verbatim>\<open>-ERESTARTSYS\<close> or a number of bytes between 0 and
  the size asked for.
\<close>

theorem ring_buffer_write_bounds:
  assumes "rb_ok rb" "\<forall>(i, world) \<in> set es. \<forall>rb. rb_ok rb \<longrightarrow> rb_ok (world rb)"
  shows "\<exists>x. ring_buffer_write rb proc bs 0 es [] = Some x \<and>
    io_ok (\<lambda>_ r _. r = - ERESTARTSYS \<or> 0 \<le> r \<and> r \<le> int (length bs)) x"
  using write_blocking_ok [OF assms, of proc bs 0 "[]"] by simp

theorem ring_buffer_write_bounds_witness:
  "\<exists>x. ring_buffer_write (ring_buffer_create 2 [0, 0]) 9 [1, 2, 3] 0 [(True, ring_buffer_discard)] [] = Some x \<and>
     io_ok (\<lambda>_ r _. r = - ERESTARTSYS \<or> 0 \<le> r \<and> r \<le> int (length [1, 2, 3 :: u8])) x"
proof (rule ring_buffer_write_bounds)
  show "rb_ok (ring_buffer_create 2 [0, 0])" using ring_create_ok [of 2 "[0, 0]"] by simp
  show "\<forall>(i, world) \<in> set [(True, ring_buffer_discard)]. \<forall>rb. rb_ok rb \<longrightarrow> rb_ok (world rb)"
    by (simp add: ring_buffer_discard_def rb_ok_def)
qed

text \<open>
  \<^verbatim>\<open>ring_buffer_read\<close> of at least one byte from a buffer that holds data returns at once,
  with the oldest bytes, as many as were asked for or are there, and leaves the others.
\<close>

theorem ring_buffer_read_ready:
  assumes "rb_ok rb" "rb_list rb \<noteq> []" "0 < n"
  shows "\<exists>rb' ws. ring_buffer_read rb proc n es [] =
      Some (Returned rb' (int (min n (length (rb_list rb)))) (take n (rb_list rb)) ws) \<and>
    rb_ok rb' \<and> rb_list rb' = drop n (rb_list rb)"
  by (rule read_ready [OF assms])

definition ex_ring :: ring_buffer_t where
  "ex_ring = (ring_buffer_create 4 [1, 2, 3, 4])\<lparr>rb_read_ptr := 3, rb_write_ptr := 1\<rparr>"

theorem ring_buffer_read_ready_witness:
  "\<exists>rb' ws. ring_buffer_read ex_ring 9 8 [] [] = Some (Returned rb' 2 [4, 1] ws) \<and> rb_ok rb' \<and> rb_list rb' = []"
proof -
  have l: "rb_ok ex_ring" "rb_list ex_ring = [4, 1]"
    by (simp_all add: ex_ring_def rb_ok_def rb_list_def ring_buffer_unread_def ring_buffer_create_def upt_rec)
  show ?thesis using ring_buffer_read_ready [OF l(1), of 8 9 "[]"] l(2) by simp
qed

text \<open>
  Property C39.  Mutual exclusion: in every reachable state at most one process is between a successful
  \<^verbatim>\<open>mutex_acquire\<close> and its release, it is the owner the mutex records, and its release cannot fail
  the assertion.
\<close>

theorem mutex_exclusive:
  assumes "mutex_step\<^sup>*\<^sup>* (mutex_init, {}) (m, H)" "p \<in> H"
  shows "H = {p} \<and> m_owner m = p \<and> mutex_release m p \<noteq> None"
  using mutex_reachable_inv [OF assms(1)] assms(2)
  by (auto simp: mutex_inv_def mutex_release_def Let_def split: if_splits)

theorem mutex_exclusive_witness:
  "\<exists>m. mutex_step\<^sup>*\<^sup>* (mutex_init, {}) (m, {5}) \<and> m_owner m = 5 \<and> mutex_release m 5 \<noteq> None"
proof -
  have "mutex_step (mutex_init, {}) (mutex_init\<lparr>m_status := True, m_owner := 5\<rparr>, insert 5 {})"
    by (rule acquired) (simp_all add: mutex_acquire_def mutex_init_def)
  then have "mutex_step\<^sup>*\<^sup>* (mutex_init, {}) (mutex_init\<lparr>m_status := True, m_owner := 5\<rparr>, {5})"
    by (rule r_into_rtranclp)
  from mutex_exclusive [OF this, of 5] this show ?thesis by blast
qed

end
