(* ===== verification/Kpipe.thy ===== *)
theory Kpipe
  imports Kring "HOL-Library.AList"
begin

text \<open>
  The two kinds of pipe: the legacy pipes of \<^verbatim>\<open>src/kernel/vfs/pipe.c\<close>, which keep a ring of their own and
  take writes whole or not at all, and the Unix pipes of \<^verbatim>\<open>src/kernel/vfs/unixpipe.c\<close> over the ring buffer
  of \<open>Kring\<close>.  As there, a pass under the lock is a step and what happens during a sleep is an argument;
  a result says also whether \<^verbatim>\<open>SIGPIPE\<close> was sent to the caller.
\<close>

section \<open>Legacy pipes\<close>

record pipe_device_t =
  pd_buffer :: "u8 list"
  pd_write_ptr :: u64
  pd_read_ptr :: u64
  pd_size :: u64
  pd_refcount :: u64
  pd_readers :: "addr list"
  pd_writers :: "addr list"
  pd_dead :: bool
  pd_alert_waiters :: "addr list"

definition pipe_unread :: "pipe_device_t \<Rightarrow> u64" where
  "pipe_unread p =
     (if pd_read_ptr p = pd_write_ptr p then 0
      else if pd_read_ptr p > pd_write_ptr p then (pd_size p - pd_read_ptr p) + pd_write_ptr p
      else pd_write_ptr p - pd_read_ptr p)"

text \<open>The count goes through an \<^verbatim>\<open>int\<close>.\<close>

definition pipe_size :: "pipe_device_t \<Rightarrow> int" where
  "pipe_size p = sint (ucast (pipe_unread p) :: u32)"

definition pipe_available :: "pipe_device_t \<Rightarrow> u64" where
  "pipe_available p =
     (if pd_read_ptr p = pd_write_ptr p then pd_size p - 1
      else if pd_read_ptr p > pd_write_ptr p then pd_read_ptr p - pd_write_ptr p - 1
      else (pd_size p - pd_write_ptr p) + pd_read_ptr p - 1)"

definition pipe_unsize :: "pipe_device_t \<Rightarrow> int" where
  "pipe_unsize p = sint (pipe_available p)"

definition pipe_increment_read :: "pipe_device_t \<Rightarrow> pipe_device_t" where
  "pipe_increment_read p =
     (let r = pd_read_ptr p + 1 in p\<lparr>pd_read_ptr := (if r = pd_size p then 0 else r)\<rparr>)"

definition pipe_increment_write :: "pipe_device_t \<Rightarrow> pipe_device_t" where
  "pipe_increment_write p =
     (let w = pd_write_ptr p + 1 in p\<lparr>pd_write_ptr := (if w = pd_size p then 0 else w)\<rparr>)"

definition pipe_increment_write_by :: "pipe_device_t \<Rightarrow> u64 \<Rightarrow> pipe_device_t option" where
  "pipe_increment_write_by p amount =
     (if pd_size p = 0 then None else Some (p\<lparr>pd_write_ptr := (pd_write_ptr p + amount) mod pd_size p\<rparr>))"

definition pipe_alert_waiters :: "pipe_device_t \<Rightarrow> pipe_device_t \<times> addr list" where
  "pipe_alert_waiters p = (p\<lparr>pd_alert_waiters := []\<rparr>, pd_alert_waiters p)"

fun pd_drain :: "pipe_device_t \<Rightarrow> nat \<Rightarrow> (pipe_device_t \<times> u8 list) option" where
  "pd_drain p 0 = Some (p, [])"
| "pd_drain p (Suc n) =
     (if pipe_unread p > 0 then
        (if unat (pd_read_ptr p) < length (pd_buffer p) then do {
           let b = pd_buffer p ! unat (pd_read_ptr p);
           (p, bs) \<leftarrow> pd_drain (pipe_increment_read p) n;
           Some (p, b # bs)
         } else None)
      else Some (p, []))"

fun pd_fill :: "pipe_device_t \<Rightarrow> u8 list \<Rightarrow> (pipe_device_t \<times> nat) option" where
  "pd_fill p [] = Some (p, 0)"
| "pd_fill p (b # bs) =
     (if pipe_available p > 0 then
        (if unat (pd_write_ptr p) < length (pd_buffer p) then do {
           (p, k) \<leftarrow> pd_fill (pipe_increment_write (p\<lparr>pd_buffer := (pd_buffer p)[unat (pd_write_ptr p) := b]\<rparr>)) bs;
           Some (p, Suc k)
         } else None)
      else Some (p, 0))"

text \<open>
  What a pass moves: nothing unless the whole request can be served.  The size compared with the
  room is always the size of the whole request.
\<close>

definition read_pass :: "pipe_device_t \<Rightarrow> u64 \<Rightarrow> (pipe_device_t \<times> u8 list) option" where
  "read_pass p sz = (if pipe_unread p \<ge> sz then pd_drain p (unat sz) else Some (p, []))"

definition write_pass :: "pipe_device_t \<Rightarrow> u8 list \<Rightarrow> nat \<Rightarrow> (pipe_device_t \<times> nat) option" where
  "write_pass p buf written =
     (if pipe_available p > of_nat (length buf) then pd_fill p (drop written buf) else Some (p, 0))"

type_synonym pipe_sleeps = "(bool \<times> (pipe_device_t \<Rightarrow> pipe_device_t)) list"

datatype pipe_result = PAsleep pipe_device_t | PReturned pipe_device_t int "u8 list" "addr list" bool

fun read_loop :: "pipe_device_t \<Rightarrow> addr \<Rightarrow> u64 \<Rightarrow> pipe_sleeps \<Rightarrow> addr list \<Rightarrow> pipe_result option" where
  "read_loop p proc sz es woken = do {
     (p, bs) \<leftarrow> read_pass p sz;
     let woken = woken @ rev (pd_writers p);
     let p = p\<lparr>pd_writers := []\<rparr>;
     if bs = [] then
       (let p = p\<lparr>pd_readers := pd_readers p @ [proc]\<rparr>
        in case es of
             [] \<Rightarrow> Some (PAsleep p)
           | (interrupted, world) # es \<Rightarrow>
               if interrupted then Some (PReturned (world p) (- ERESTARTSYS) [] woken False)
               else read_loop (world p) proc sz es woken)
     else Some (PReturned p (int (length bs)) bs woken False)
   }"

definition read_pipe :: "pipe_device_t \<Rightarrow> addr \<Rightarrow> u64 \<Rightarrow> pipe_sleeps \<Rightarrow> pipe_result option" where
  "read_pipe p proc sz es =
     (if pd_dead p then Some (PReturned p 0 [] [] True) else read_loop p proc sz es [])"

fun write_pipe_loop :: "pipe_device_t \<Rightarrow> addr \<Rightarrow> u8 list \<Rightarrow> nat \<Rightarrow> pipe_sleeps \<Rightarrow> addr list \<Rightarrow> pipe_result option" where
  "write_pipe_loop p proc buf written es woken =
     (if written < length buf then do {
        (p, k) \<leftarrow> write_pass p buf written;
        let written = written + k;
        let woken = woken @ rev (pd_readers p);
        let (p, as) = pipe_alert_waiters (p\<lparr>pd_readers := []\<rparr>);
        let woken = woken @ as;
        if written < length buf then
          (let p = p\<lparr>pd_writers := pd_writers p @ [proc]\<rparr>
           in case es of
                [] \<Rightarrow> Some (PAsleep p)
              | (interrupted, world) # es \<Rightarrow>
                  if interrupted then Some (PReturned (world p) (if written = 0 then - ERESTARTSYS else int written) [] woken False)
                  else write_pipe_loop (world p) proc buf written es woken)
        else Some (PReturned p (int written) [] woken False)
      }
      else Some (PReturned p (int written) [] woken False))"

definition write_pipe :: "pipe_device_t \<Rightarrow> addr \<Rightarrow> u8 list \<Rightarrow> pipe_sleeps \<Rightarrow> pipe_result option" where
  "write_pipe p proc buf es =
     (if pd_dead p then Some (PReturned p 0 [] [] True) else write_pipe_loop p proc buf 0 es [])"

declare read_loop.simps [simp del] write_pipe_loop.simps [simp del]

definition open_pipe :: "pipe_device_t \<Rightarrow> pipe_device_t" where
  "open_pipe p = p\<lparr>pd_refcount := pd_refcount p + 1\<rparr>"

definition close_pipe :: "pipe_device_t \<Rightarrow> pipe_device_t" where
  "close_pipe p = p\<lparr>pd_refcount := pd_refcount p - 1\<rparr>"

definition pipe_check :: "pipe_device_t \<Rightarrow> int" where
  "pipe_check p = (if pipe_unread p > 0 then 0 else 1)"

definition pipe_wait :: "pipe_device_t \<Rightarrow> addr \<Rightarrow> addr \<Rightarrow> addr list \<Rightarrow> pipe_device_t \<times> addr list" where
  "pipe_wait p self process node_waits =
     (p\<lparr>pd_alert_waiters := (if process \<in> set (pd_alert_waiters p) then pd_alert_waiters p else pd_alert_waiters p @ [process])\<rparr>,
      node_waits @ [self])"

text \<open>\<open>pipe_destroy\<close> frees the pipe; it returns who was alerted and woken.\<close>

definition pipe_destroy :: "pipe_device_t \<Rightarrow> addr list" where
  "pipe_destroy p = (let (p, as) = pipe_alert_waiters (p\<lparr>pd_dead := True\<rparr>) in as @ rev (pd_writers p) @ rev (pd_readers p))"

definition make_pipe :: "u64 \<Rightarrow> u8 list \<Rightarrow> pipe_device_t" where
  "make_pipe sz mem =
     \<lparr> pd_buffer = mem, pd_write_ptr = 0, pd_read_ptr = 0, pd_size = sz, pd_refcount = 0, pd_readers = [], pd_writers = [],
       pd_dead = False, pd_alert_waiters = [] \<rparr>"

section \<open>Unix pipes\<close>

record unix_pipe =
  up_read_closed :: bool
  up_write_closed :: bool
  up_buffer :: "ring_buffer_t option"


definition read_unixpipe :: "unix_pipe \<Rightarrow> addr \<Rightarrow> nat \<Rightarrow> sleeps \<Rightarrow> io_result option" where
  "read_unixpipe self proc n es = do {
     rb \<leftarrow> up_buffer self;
     if up_write_closed self \<and> ring_buffer_unread rb = 0 then Some (Returned rb 0 [] [])
     else ring_buffer_read rb proc n es []
   }"







section \<open>A legacy pipe as a ring buffer\<close>

definition as_ring :: "pipe_device_t \<Rightarrow> ring_buffer_t" where
  "as_ring p = \<lparr> rb_buffer = pd_buffer p, rb_write_ptr = pd_write_ptr p, rb_read_ptr = pd_read_ptr p, rb_size = pd_size p,
     rb_readers = pd_readers p, rb_writers = pd_writers p, rb_internal_stop = False, rb_alert_waiters = Some (pd_alert_waiters p),
     rb_discard = False, rb_soft_stop = False \<rparr>"

lemma as_ring_ops:
  "pipe_unread p = ring_buffer_unread (as_ring p)" "pipe_available p = ring_buffer_available (as_ring p)"
  "as_ring (pipe_increment_read p) = ring_buffer_increment_read (as_ring p)"
  "as_ring (pipe_increment_write (p\<lparr>pd_buffer := b\<rparr>)) = ring_buffer_increment_write ((as_ring p)\<lparr>rb_buffer := b\<rparr>)"
  by (simp_all add: pipe_unread_def ring_buffer_unread_def as_ring_def pipe_available_def ring_buffer_available_def
      pipe_increment_read_def ring_buffer_increment_read_def pipe_increment_write_def ring_buffer_increment_write_def Let_def)

lemma as_ring_sel [simp]: "rb_buffer (as_ring p) = pd_buffer p" "rb_write_ptr (as_ring p) = pd_write_ptr p"
  "rb_read_ptr (as_ring p) = pd_read_ptr p" "rb_size (as_ring p) = pd_size p"
  by (simp_all add: as_ring_def)

lemma pd_drain_ring: "rb_drain (as_ring p) n = map_option (map_prod as_ring id) (pd_drain p n)"
proof (induction n arbitrary: p)
  case (Suc n)
  have "rb_drain (ring_buffer_increment_read (as_ring p)) n = map_option (map_prod as_ring id) (pd_drain (pipe_increment_read p) n)"
    using Suc.IH [of "pipe_increment_read p"] by (simp only: as_ring_ops(3))
  then show ?case by (cases "pd_drain (pipe_increment_read p) n") (auto simp: as_ring_ops(1) Let_def)
qed simp

lemma pd_fill_ring: "rb_fill (as_ring p) bs = map_option (map_prod as_ring id) (pd_fill p bs)"
proof (induction bs arbitrary: p)
  case (Cons b bs)
  let ?p = "pipe_increment_write (p\<lparr>pd_buffer := (pd_buffer p)[unat (pd_write_ptr p) := b]\<rparr>)"
  have "rb_fill (ring_buffer_increment_write ((as_ring p)\<lparr>rb_buffer := (pd_buffer p)[unat (pd_write_ptr p) := b]\<rparr>)) bs =
      map_option (map_prod as_ring id) (pd_fill ?p bs)"
    using Cons.IH [of ?p] by (simp only: as_ring_ops(4))
  then show ?case by (cases "pd_fill ?p bs") (auto simp: as_ring_ops(2))
qed simp

definition pd_ok :: "pipe_device_t \<Rightarrow> bool" where "pd_ok p = rb_ok (as_ring p)"
definition pd_list :: "pipe_device_t \<Rightarrow> u8 list" where "pd_list p = rb_list (as_ring p)"

lemma pd_fill_size: "pd_fill p bs = Some (p', k) \<Longrightarrow> pd_size p' = pd_size p"
proof (induction p bs arbitrary: p' k rule: pd_fill.induct)
  case (2 p b bs)
  show ?case
  proof (cases "pipe_available p > 0 \<and> unat (pd_write_ptr p) < length (pd_buffer p)")
    case True
    then obtain k' where "pd_fill (pipe_increment_write (p\<lparr>pd_buffer := (pd_buffer p)[unat (pd_write_ptr p) := b]\<rparr>)) bs = Some (p', k')"
      using "2.prems" by (auto simp: bind_eq_Some_conv)
    from "2.IH" [OF _ _ this] True show ?thesis by (simp add: pipe_increment_write_def Let_def)
  next
    case False
    then show ?thesis using "2.prems" by (auto split: if_splits)
  qed
qed simp

lemma pd_fill_spec:
  assumes "pd_ok p"
  shows "\<exists>p' k. pd_fill p bs = Some (p', k) \<and> pd_ok p' \<and> pd_list p' = pd_list p @ take k bs \<and> pd_size p' = pd_size p \<and>
    k = min (length bs) (unat (pipe_available p))"
proof -
  from rb_fill_spec [of "as_ring p" bs] assms obtain rb where
    f: "rb_fill (as_ring p) bs = Some (rb, min (length bs) (rb_capacity (as_ring p) - length (pd_list p)))" "rb_ok rb"
      "rb_list rb = pd_list p @ take (rb_capacity (as_ring p) - length (pd_list p)) bs"
    by (auto simp: pd_ok_def pd_list_def)
  have av: "unat (pipe_available p) = rb_capacity (as_ring p) - length (pd_list p)"
    using avail_dist [of "as_ring p"] unread_dist [of "as_ring p"] assms
    by (simp add: pd_ok_def pd_list_def rb_list_def as_ring_ops)
  obtain p' where p': "pd_fill p bs = Some (p', min (length bs) (unat (pipe_available p)))" "as_ring p' = rb"
    using f(1) pd_fill_ring [of p bs] unfolding av by (cases "pd_fill p bs") auto
  have "pd_size p' = pd_size p" using pd_fill_size [OF p'(1)] .
  moreover have "take (min (length bs) n) bs = take n bs" for n by (simp add: min_def)
  ultimately show ?thesis using p' f(2,3) av
    by (intro exI [of _ p'] exI [of _ "min (length bs) (unat (pipe_available p))"]) (simp add: pd_ok_def pd_list_def)
qed

lemma pd_drain_spec:
  assumes "pd_ok p"
  shows "\<exists>p'. pd_drain p n = Some (p', take n (pd_list p)) \<and> pd_ok p' \<and> pd_list p' = drop n (pd_list p)"
proof -
  from rb_drain_spec [of "as_ring p" n] assms obtain rb where
    "rb_drain (as_ring p) n = Some (rb, take n (pd_list p))" "rb_ok rb" "rb_list rb = drop n (pd_list p)"
    by (auto simp: pd_ok_def pd_list_def)
  then show ?thesis using pd_drain_ring [of p n] by (auto simp: pd_ok_def pd_list_def)
qed

lemma write_pass_law: "pd_ok p \<Longrightarrow> \<exists>p' k. write_pass p bs 0 = Some (p', k) \<and> pd_ok p' \<and> pd_list p' = pd_list p @ take k bs"
  using pd_fill_spec [of p bs] by (auto simp: write_pass_def)

lemma read_pass_law: "pd_ok p \<Longrightarrow> \<exists>p' out. read_pass p (of_nat n) = Some (p', out) \<and> pd_ok p' \<and> pd_list p = out @ pd_list p'"
  using pd_drain_spec [of p "unat (of_nat n :: u64)"] by (auto simp: read_pass_def)

interpretation legacy_pipe: byte_queue pd_ok pd_list "\<lambda>p bs. write_pass p bs 0" "\<lambda>p n. read_pass p (of_nat n)"
  by unfold_locales (erule write_pass_law, erule read_pass_law)

text \<open>A write pass takes all of the request or nothing of it.\<close>

lemma write_pass_whole:
  assumes "pd_ok p" "length buf < 2 ^ 64"
  shows "\<exists>p'. write_pass p buf 0 = Some (p', if unat (pipe_available p) > length buf then length buf else 0) \<and> pd_ok p' \<and> pd_size p' = pd_size p"
proof -
  have "(of_nat (length buf) :: u64) < pipe_available p \<longleftrightarrow> length buf < unat (pipe_available p)"
    using assms(2) by (simp add: word_less_nat_alt unat_of_nat_64)
  then show ?thesis using pd_fill_spec [OF assms(1), of buf] assms(1) by (auto simp: write_pass_def)
qed

lemma pd_updates [simp]:
  "pd_ok (p\<lparr>pd_readers := a\<rparr>) = pd_ok p" "pd_ok (p\<lparr>pd_writers := a\<rparr>) = pd_ok p" "pd_ok (p\<lparr>pd_alert_waiters := a\<rparr>) = pd_ok p"
  by (simp_all add: pd_ok_def as_ring_def rb_ok_def)

lemma write_loop_pass:
  assumes "pd_ok p" "length buf < 2 ^ 64" "buf \<noteq> []"
  shows "\<exists>p1 ws. pd_ok p1 \<and> pd_size p1 = pd_size p \<and> write_pipe_loop p proc buf 0 es woken =
    (if unat (pipe_available p) > length buf then Some (PReturned p1 (int (length buf)) [] ws False)
     else case es of [] \<Rightarrow> Some (PAsleep p1)
       | (interrupted, world) # es \<Rightarrow>
           if interrupted then Some (PReturned (world p1) (- ERESTARTSYS) [] ws False)
           else write_pipe_loop (world p1) proc buf 0 es ws)"
proof -
  from write_pass_whole [OF assms(1,2)] obtain p' where
    w: "write_pass p buf 0 = Some (p', if unat (pipe_available p) > length buf then length buf else 0)" "pd_ok p'"
      "pd_size p' = pd_size p" by blast
  let ?q = "p'\<lparr>pd_readers := [], pd_alert_waiters := []\<rparr>"
  show ?thesis
  proof (cases "unat (pipe_available p) > length buf")
    case True
    then show ?thesis using w assms(3)
      by (intro exI [of _ ?q], subst write_pipe_loop.simps) (simp add: pipe_alert_waiters_def Let_def)
  next
    case False
    then show ?thesis using w assms(3)
      by (intro exI [of _ "?q\<lparr>pd_writers := pd_writers ?q @ [proc]\<rparr>"], subst write_pipe_loop.simps)
        (auto simp: pipe_alert_waiters_def Let_def split: list.splits)
  qed
qed
fun pipe_io_ok :: "(int \<Rightarrow> bool) \<Rightarrow> pipe_result \<Rightarrow> bool" where
  "pipe_io_ok P (PAsleep p) = pd_ok p"
| "pipe_io_ok P (PReturned p r bs ws sig) = (pd_ok p \<and> P r)"

lemma write_loop_atomic:
  assumes "pd_ok p" "length buf < 2 ^ 64" "buf \<noteq> []" "\<forall>(i, world) \<in> set es. \<forall>p. pd_ok p \<longrightarrow> pd_ok (world p)"
  shows "\<exists>x. write_pipe_loop p proc buf 0 es woken = Some x \<and> pipe_io_ok (\<lambda>r. r = int (length buf) \<or> r = - ERESTARTSYS) x"
  using assms(1,4)
proof (induction es arbitrary: p woken)
  case Nil
  from write_loop_pass [OF Nil(1) assms(2,3), of proc "[]" woken, unfolded list.case] obtain p1 ws where
    "pd_ok p1" "write_pipe_loop p proc buf 0 [] woken =
       (if unat (pipe_available p) > length buf then Some (PReturned p1 (int (length buf)) [] ws False) else Some (PAsleep p1))"
    by blast
  then show ?case by (cases "unat (pipe_available p) > length buf") simp_all
next
  case (Cons e es)
  obtain i world where e: "e = (i, world)" by (cases e)
  from write_loop_pass [OF Cons.prems(1) assms(2,3), of proc "(i, world) # es" woken, unfolded list.case prod.case] obtain p1 ws where
    p: "pd_ok p1" "write_pipe_loop p proc buf 0 ((i, world) # es) woken =
       (if unat (pipe_available p) > length buf then Some (PReturned p1 (int (length buf)) [] ws False)
        else if i then Some (PReturned (world p1) (- ERESTARTSYS) [] ws False) else write_pipe_loop (world p1) proc buf 0 es ws)"
    by blast
  have ok: "pd_ok (world p1)" using Cons.prems(2) p(1) e by simp
  have "\<forall>(i, world) \<in> set es. \<forall>p. pd_ok p \<longrightarrow> pd_ok (world p)" using Cons.prems(2) by simp
  then show ?case using Cons.IH [OF ok, of ws] p ok unfolding e by simp
qed

lemma available_le: "pd_ok p \<Longrightarrow> unat (pipe_available p) \<le> unat (pd_size p) - 1"
  using avail_dist [of "as_ring p"] by (simp add: pd_ok_def as_ring_ops rb_capacity_def)

lemma write_loop_stuck:
  assumes "pd_ok p" "length buf < 2 ^ 64" "buf \<noteq> []" "unat (pd_size p) \<le> length buf + 1"
    "\<forall>(i, world) \<in> set es. \<forall>p. pd_ok p \<longrightarrow> pd_ok (world p) \<and> pd_size (world p) = pd_size p"
  shows "\<exists>x. write_pipe_loop p proc buf 0 es woken = Some x \<and> pipe_io_ok (\<lambda>r. r = - ERESTARTSYS) x"
  using assms(1,4,5)
proof (induction es arbitrary: p woken)
  case Nil
  have "\<not> unat (pipe_available p) > length buf" using available_le [OF Nil(1)] Nil(2) by linarith
  with write_loop_pass [OF Nil(1) assms(2,3), of proc "[]" woken] show ?case by auto
next
  case (Cons e es)
  obtain i world where e: "e = (i, world)" by (cases e)
  have "\<not> unat (pipe_available p) > length buf" using available_le [OF Cons.prems(1)] Cons.prems(2) by linarith
  with write_loop_pass [OF Cons.prems(1) assms(2,3), of proc "(i, world) # es" woken, unfolded list.case prod.case] obtain p1 ws where
    p: "pd_ok p1" "pd_size p1 = pd_size p" "write_pipe_loop p proc buf 0 ((i, world) # es) woken =
       (if i then Some (PReturned (world p1) (- ERESTARTSYS) [] ws False) else write_pipe_loop (world p1) proc buf 0 es ws)"
    by (simp only: if_False) blast
  have ok: "pd_ok (world p1)" "pd_size (world p1) = pd_size p" using Cons.prems(3) p(1,2) e by simp_all
  have "\<forall>(i, world) \<in> set es. \<forall>p. pd_ok p \<longrightarrow> pd_ok (world p) \<and> pd_size (world p) = pd_size p" using Cons.prems(3) by simp
  then show ?case using Cons.IH [OF ok(1), of ws] Cons.prems(2) p ok unfolding e by simp
qed

lemma make_pipe_ok: "0 < sz \<Longrightarrow> length mem = unat sz \<Longrightarrow> pd_ok (make_pipe sz mem) \<and> pd_list (make_pipe sz mem) = []"
  by (simp add: pd_ok_def pd_list_def make_pipe_def as_ring_def rb_ok_def rb_list_def ring_buffer_unread_def)

section \<open>The life of a Unix pipe\<close>













definition upipe_inv :: "unix_pipe \<Rightarrow> bool" where
  "upipe_inv u \<longleftrightarrow>
     (case up_buffer u of
        None \<Rightarrow> up_read_closed u \<and> up_write_closed u
      | Some rb \<Rightarrow> \<not> (up_read_closed u \<and> up_write_closed u) \<and> rb_ok rb \<and>
          (up_read_closed u \<or> up_write_closed u \<longrightarrow> rb_internal_stop rb))"

lemma drain_stop: "rb_drain rb n = Some (rb', bs) \<Longrightarrow> rb_internal_stop rb' = rb_internal_stop rb"
proof (induction rb n arbitrary: rb' bs rule: rb_drain.induct)
  case (2 rb n)
  show ?case
  proof (cases "ring_buffer_unread rb > 0 \<and> unat (rb_read_ptr rb) < length (rb_buffer rb)")
    case True
    then obtain bs' where "rb_drain (ring_buffer_increment_read rb) n = Some (rb', bs')"
      using "2.prems" by (auto simp: bind_eq_Some_conv Let_def)
    from "2.IH" [OF _ _ refl this] True show ?thesis by (simp add: ring_buffer_increment_read_def Let_def)
  next
    case False
    then show ?thesis using "2.prems" by (auto split: if_splits)
  qed
qed simp























lemma read_stopped:
  assumes "rb_ok rb" "rb_internal_stop rb"
  shows "\<exists>rb' r ws. ring_buffer_read rb proc n es [] = Some (Returned rb' r (take n (rb_list rb)) ws) \<and>
    r = int (min n (length (rb_list rb)))"
proof (cases "take n (rb_list rb) = []")
  case True
  from rb_drain_spec [OF assms(1), of n] obtain rb1 where d: "rb_drain rb n = Some (rb1, take n (rb_list rb))" by blast
  then have "rb_internal_stop rb1" using drain_stop assms(2) by simp
  then show ?thesis using d True by (subst ring_buffer_read.simps) (auto simp: wake_writers_def Let_def)
next
  case False
  then show ?thesis using read_ready [OF assms(1), of n proc es "[]"] by (cases "rb_list rb"; cases n) auto
qed
section \<open>Properties\<close>

text \<open>
  Writes to a legacy pipe are atomic: whatever the other processes do to the pipe while
  it sleeps, \<^verbatim>\<open>write_pipe\<close> on a live pipe either put in the whole request, or nothing and returns
  \<^verbatim>\<open>-ERESTARTSYS\<close>, or is still asleep; it never indexes outside the buffer.
\<close>

theorem write_pipe_atomic:
  assumes "pd_ok p" "\<not> pd_dead p" "length buf < 2 ^ 64" "buf \<noteq> []"
    "\<forall>(i, world) \<in> set es. \<forall>p. pd_ok p \<longrightarrow> pd_ok (world p)"
  shows "\<exists>x. write_pipe p proc buf es = Some x \<and> pipe_io_ok (\<lambda>r. r = int (length buf) \<or> r = - ERESTARTSYS) x"
  using write_loop_atomic [OF assms(1,3,4,5), of proc "[]"] assms(2) by (simp add: write_pipe_def)

theorem write_pipe_atomic_witness:
  "\<exists>x. write_pipe (make_pipe 4 [0, 0, 0, 0]) 9 [7, 8] [(False, id)] = Some x \<and>
     pipe_io_ok (\<lambda>r. r = int (length [7, 8 :: u8]) \<or> r = - ERESTARTSYS) x"
  by (rule write_pipe_atomic) (use make_pipe_ok [of 4 "[0, 0, 0, 0]"] in \<open>simp_all add: make_pipe_def\<close>)

text \<open>
  A write of as many bytes as a legacy pipe can hold, or more, never completes, even on an
  empty pipe and however often it is woken up: the room must exceed the request.  It sleeps until it
  is interrupted.
\<close>

theorem write_pipe_full_size_never_completes:
  assumes "pd_ok p" "\<not> pd_dead p" "length buf < 2 ^ 64" "buf \<noteq> []" "unat (pd_size p) \<le> length buf + 1"
    "\<forall>(i, world) \<in> set es. \<forall>p. pd_ok p \<longrightarrow> pd_ok (world p) \<and> pd_size (world p) = pd_size p"
  shows "\<exists>x. write_pipe p proc buf es = Some x \<and> pipe_io_ok (\<lambda>r. r = - ERESTARTSYS) x"
  using write_loop_stuck [OF assms(1,3,4,5,6), of proc "[]"] assms(2) by (simp add: write_pipe_def)

theorem write_pipe_full_size_never_completes_witness:
  "\<exists>x. write_pipe (make_pipe 3 [0, 0, 0]) 9 [7, 8] [(False, id), (True, id)] = Some x \<and> pipe_io_ok (\<lambda>r. r = - ERESTARTSYS) x"
  by (rule write_pipe_full_size_never_completes) (use make_pipe_ok [of 3 "[0, 0, 0]"] in \<open>simp_all add: make_pipe_def\<close>)

text \<open>
  Readers and writers of a legacy pipe see a first-in first-out byte stream.
\<close>

theorem legacy_pipe_fifo:
  assumes "0 < sz" "length mem = unat sz"
    "(stream_step (\<lambda>p bs. write_pass p bs 0) (\<lambda>p n. read_pass p (of_nat n)))\<^sup>*\<^sup>* (make_pipe sz mem, [], []) (p, w, r)"
  shows "w = r @ pd_list p"
  using legacy_pipe.stream_fifo [OF assms(3)] make_pipe_ok [OF assms(1,2)] by blast

theorem legacy_pipe_fifo_witness: "[] = [] @ pd_list (make_pipe 2 [0, 0])"
  by (rule legacy_pipe_fifo [of 2 "[0, 0]"]) simp_all



text \<open>
  End of file: once the write end is closed, a read of a Unix pipe never sleeps; it returns
  the bytes that are left, and 0 when there are none.
\<close>

theorem unixpipe_eof:
  assumes "upipe_inv u" "up_write_closed u" "\<not> up_read_closed u" "up_buffer u = Some rb"
  shows "\<exists>rb' ws. read_unixpipe u proc n es =
    Some (Returned rb' (int (min n (length (rb_list rb)))) (take n (rb_list rb)) ws)"
proof -
  have rb: "rb_ok rb" "rb_internal_stop rb" using assms by (auto simp: upipe_inv_def)
  show ?thesis
  proof (cases "ring_buffer_unread rb = 0")
    case True
    then have "rb_list rb = []" using unread_pos [OF rb(1)] by simp
    then show ?thesis using True assms(2,4) by (simp add: read_unixpipe_def)
  next
    case False
    then show ?thesis using read_stopped [OF rb, of proc n es] assms(4) by (auto simp: read_unixpipe_def)
  qed
qed

theorem unixpipe_eof_witness:
  "\<exists>rb' ws. read_unixpipe \<lparr> up_read_closed = False, up_write_closed = True, up_buffer = Some (ex_ring\<lparr>rb_internal_stop := True\<rparr>) \<rparr> 9 8 [] =
     Some (Returned rb' 2 [4, 1] ws)"
proof -
  have l: "rb_ok ex_ring" "rb_list ex_ring = [4, 1]"
    by (simp_all add: ex_ring_def rb_ok_def rb_list_def ring_buffer_unread_def ring_buffer_create_def upt_rec)
  let ?u = "\<lparr> up_read_closed = False, up_write_closed = True, up_buffer = Some (ex_ring\<lparr>rb_internal_stop := True\<rparr>) \<rparr>"
  have "upipe_inv ?u" using l by (simp add: upipe_inv_def)
  from unixpipe_eof [OF this, of "ex_ring\<lparr>rb_internal_stop := True\<rparr>" 9 8 "[]"] l show ?thesis by simp
qed

end
