(* ===== verification/Kpath.thy ===== *)
theory Kpath
  imports Razion_Prelude Kstring
begin

text \<open>
  Path strings of \<^verbatim>\<open>kernel/vfs/vfs.c\<close>: canonicalization, the name of the last component, the cutting of a
  path at its separators, and the tree of mount points with mounting and the search for the mount point
  of a path.  A path is the list of its bytes without the terminator.  \<^verbatim>\<open>strtok_r\<close> with the separator
  \<^verbatim>\<open>"/"\<close> yields \<^const>\<open>split_tokens\<close> (theory \<open>Kstring\<close>).
\<close>

section \<open>Canonicalization\<close>

abbreviation (input) SEP :: u8 where "SEP \<equiv> 47"

definition PATH_UP :: "u8 list" where "PATH_UP = [46, 46]"
definition PATH_DOT :: "u8 list" where "PATH_DOT = [46]"

definition canon_token :: "u8 list list \<Rightarrow> u8 list \<Rightarrow> u8 list list" where
  "canon_token out pch =
     (if scmp pch PATH_UP = 0 then butlast out
      else if scmp pch PATH_DOT = 0 then out
      else out @ [pch])"

definition canonicalize_path :: "u8 list \<Rightarrow> u8 list \<Rightarrow> u8 list" where
  "canonicalize_path cwd input =
     (let out = (if input \<noteq> [] \<and> hd input \<noteq> SEP then split_tokens {SEP} cwd else []);
          out = foldl canon_token out (split_tokens {SEP} input);
          sz = sum_list (map (\<lambda>item. length item + 1) out)
      in if sz = 0 then [SEP] else concat (map (\<lambda>item. SEP # item) out))"

section \<open>The last component\<close>

fun basename_trail :: "u8 list \<Rightarrow> nat \<Rightarrow> nat" where
  "basename_trail path 0 = 0"
| "basename_trail path (Suc i) = (if path ! Suc i = SEP then basename_trail path i else Suc i)"

fun basename_back :: "u8 list \<Rightarrow> nat \<Rightarrow> nat" where
  "basename_back path 0 = 0"
| "basename_back path (Suc i) = (if path ! Suc i = SEP then Suc i + 1 else basename_back path i)"

function basename_skip :: "u8 list \<Rightarrow> nat \<Rightarrow> nat" where
  "basename_skip path i = (if i < length path \<and> path ! i = SEP then basename_skip path (i + 1) else i)"
  by pat_completeness auto
termination by (relation "measure (\<lambda>(path, i). length path - i)") auto

declare basename_skip.simps [simp del]

text \<open>
  The result is the string that starts at the pointer the C function returns.  \<open>None\<close>: on the empty path
  the scan starts one byte before the string, and that byte is read.
\<close>

definition fs_basename :: "u8 list \<Rightarrow> u8 list option" where
  "fs_basename path =
     (if path = [] then None
      else Some (drop (basename_skip path (basename_back path (basename_trail path (length path - 1)))) path))"

section \<open>Cutting a path at its separators\<close>

text \<open>
  A cut path is the buffer with its terminator, every separator replaced by a terminator.  An offset into
  the buffer stands for a pointer, and \<open>str_at\<close> is the string it points to.
\<close>

definition str_at :: "u8 list \<Rightarrow> nat \<Rightarrow> u8 list" where
  "str_at buf off = takeWhile (\<lambda>b. b \<noteq> 0) (drop off buf)"

definition chop :: "u8 list \<Rightarrow> u8 list" where
  "chop path = map (\<lambda>b. if b = SEP then 0 else b) path @ [0]"

definition path_tokenize :: "u8 list \<Rightarrow> u8 list \<times> nat \<times> nat" where
  "path_tokenize path = (chop path, 1, length (filter (\<lambda>b. b = SEP) path))"

text \<open>\<open>None\<close>: the search for a terminator runs over the end of the buffer.\<close>

fun untokenize_loop :: "nat \<Rightarrow> u8 list \<Rightarrow> nat \<Rightarrow> u8 list option" where
  "untokenize_loop 0 out p = Some out"
| "untokenize_loop (Suc k) out p =
     (let p = p + length (str_at out p)
      in if p < length out then untokenize_loop k (out[p := SEP]) p else None)"

definition path_untokenize :: "u8 list \<Rightarrow> nat \<Rightarrow> u8 list option" where
  "path_untokenize buf depth = map_option (\<lambda>out. str_at out 0) (untokenize_loop (depth - 1) buf 0)"

section \<open>The tree of mount points\<close>

record vfs_entry =
  ve_name :: "u8 list"
  ve_file :: addr
  ve_device :: "u8 list option"
  ve_fs_type :: "u8 list option"

text \<open>A node of the tree is named by the indices of the children on the way to it.\<close>

datatype mtree = MNode (m_value: vfs_entry) (m_children: "mtree list")

fun find_child :: "u8 list \<Rightarrow> mtree list \<Rightarrow> nat option" where
  "find_child at [] = None"
| "find_child at (c # cs) =
     (if scmp (ve_name (m_value c)) at = 0 then Some 0 else map_option Suc (find_child at cs))"

definition fresh_entry :: "u8 list \<Rightarrow> vfs_entry" where
  "fresh_entry name = \<lparr> ve_name = name, ve_file = NULL, ve_device = None, ve_fs_type = None \<rparr>"

definition set_mount :: "addr \<Rightarrow> u8 list \<Rightarrow> u8 list \<Rightarrow> vfs_entry \<Rightarrow> vfs_entry" where
  "set_mount local_root fs_type options ent =
     ent\<lparr>ve_file := local_root, ve_device := Some options, ve_fs_type := Some fs_type\<rparr>"

function mount_loop :: "u8 list \<Rightarrow> nat \<Rightarrow> nat \<Rightarrow> (vfs_entry \<Rightarrow> vfs_entry) \<Rightarrow> mtree \<Rightarrow> mtree \<times> nat list" where
  "mount_loop p path_len at f node =
     (if path_len \<le> at then (MNode (f (m_value node)) (m_children node), [])
      else let name = str_at p at; kids = m_children node
           in case find_child name kids of
                Some i \<Rightarrow> (let (t, r) = mount_loop p path_len (at + length name + 1) f (kids ! i)
                           in (MNode (m_value node) (kids[i := t]), i # r))
              | None \<Rightarrow> (let (t, r) = mount_loop p path_len (at + length name + 1) f (MNode (fresh_entry name) [])
                         in (MNode (m_value node) (kids @ [t]), length kids # r)))"
  by pat_completeness auto
termination by (relation "measure (\<lambda>(p, path_len, at, f, node). path_len - at)") auto

declare mount_loop.simps [simp del]

text \<open>
  The tree after mounting, and the node the call returns.  The flag of the result tells that the root of
  the tree was set, where the caller also sets \<^verbatim>\<open>fs_root\<close>.
\<close>

definition mount_path :: "u8 list \<Rightarrow> addr \<Rightarrow> u8 list \<Rightarrow> u8 list \<Rightarrow> mtree \<Rightarrow> mtree \<times> nat list \<times> bool" where
  "mount_path path local_root fs_type options tree =
     (let p = chop path
      in if str_at p 1 = []
         then (MNode (set_mount local_root fs_type options (m_value tree)) (m_children tree), [], True)
         else let (t, r) = mount_loop p (length path) 1 (set_mount local_root fs_type options) tree
              in (t, r, False))"

fun skip_strings :: "u8 list \<Rightarrow> nat \<Rightarrow> nat \<Rightarrow> nat" where
  "skip_strings path 0 off = off"
| "skip_strings path (Suc k) off = skip_strings path k (off + length (str_at path off) + 1)"

function mount_point_loop :: "u8 list \<Rightarrow> nat \<Rightarrow> nat \<Rightarrow> mtree \<Rightarrow> nat \<Rightarrow> addr \<times> nat \<times> nat \<Rightarrow> addr \<times> nat \<times> nat" where
  "mount_point_loop buf path_end at node depth best =
     (if path_end \<le> at then best
      else case find_child (str_at buf at) (m_children node) of
        None \<Rightarrow> best
      | Some i \<Rightarrow>
          (let c = m_children node ! i; at = at + length (str_at buf at) + 1
           in mount_point_loop buf path_end at c (depth + 1)
                (if ve_file (m_value c) \<noteq> NULL then (ve_file (m_value c), at, depth) else best)))"
  by pat_completeness auto
termination by (relation "measure (\<lambda>(buf, path_end, at, node, depth, best). path_end - at)") auto

declare mount_point_loop.simps [simp del]

text \<open>The node last mounted on the way down, the offset of the rest of the path, and its depth.\<close>

definition get_mount_point :: "addr \<Rightarrow> mtree \<Rightarrow> u8 list \<Rightarrow> nat \<Rightarrow> nat \<Rightarrow> addr \<times> nat \<times> nat" where
  "get_mount_point fs_root tree path path_depth outpath =
     mount_point_loop path (skip_strings path (path_depth + 1) 0) outpath tree 1 (fs_root, outpath, 0)"

section \<open>Tokens of a path\<close>

lemma split_tokens_skip: "split_tokens D (dropWhile (\<lambda>b. b \<in> D) bs) = split_tokens D bs"
  by (subst (1 2) split_tokens.simps) (simp add: Let_def)

lemma take_drop_all:
  "\<forall>c \<in> set r. P c \<Longrightarrow> takeWhile P r = r" "\<forall>c \<in> set r. P c \<Longrightarrow> dropWhile P r = []"
  by (simp_all add: takeWhile_eq_all_conv dropWhile_eq_Nil_conv)

lemma split_tokens_one:
  assumes "r \<noteq> []" "\<forall>c \<in> set r. c \<notin> D"
  shows "split_tokens D r = [r]"
proof -
  have "dropWhile (\<lambda>c. c \<in> D) r = r" using assms by (cases r) auto
  from split_tokens_step [OF this assms(1)] show ?thesis
    unfolding take_drop_all [of r, OF assms(2)] by (simp add: split_tokens_empty)
qed

lemma split_tokens_append:
  assumes "x \<in> D"
  shows "split_tokens D (a @ x # b) = split_tokens D a @ split_tokens D b"
proof (induction "length a" arbitrary: a rule: less_induct)
  case less
  define r where "r = dropWhile (\<lambda>c. c \<in> D) a"
  show ?case
  proof (cases "r = []")
    case True
    then have all: "\<forall>c \<in> set a. c \<in> D" by (simp add: r_def dropWhile_eq_Nil_conv)
    then have "dropWhile (\<lambda>c. c \<in> D) (a @ x # b) = dropWhile (\<lambda>c. c \<in> D) b"
      using assms by (induction a) auto
    then have "split_tokens D (a @ x # b) = split_tokens D b"
      using split_tokens_skip [of D "a @ x # b"] split_tokens_skip [of D b] by (simp only:)
    then show ?thesis using True split_tokens_empty [of D a] by (simp add: r_def)
  next
    case False
    then have d: "dropWhile (\<lambda>c. c \<in> D) (a @ x # b) = r @ x # b"
      unfolding r_def by (induction a) auto
    define s where "s = dropWhile (\<lambda>c. c \<notin> D) r"
    have "r @ x # b \<noteq> []" by simp
    note sp = split_tokens_step [OF d this] split_tokens_step [OF r_def [symmetric] False, folded s_def]
    show ?thesis
    proof (cases s)
      case Nil
      then have all: "\<forall>c \<in> set r. c \<notin> D" by (simp add: s_def dropWhile_eq_Nil_conv)
      have "split_tokens D a = [r]"
        using split_tokens_one [OF False all] split_tokens_skip [of D a] by (simp add: r_def)
      moreover have "takeWhile (\<lambda>c. c \<notin> D) (r @ x # b) = r" "dropWhile (\<lambda>c. c \<notin> D) (r @ x # b) = x # b"
        using all assms by (induction r) auto
      ultimately show ?thesis by (simp only: sp(1)) simp
    next
      case (Cons y s')
      then have "s \<noteq> []" by simp
      then have "\<exists>c \<in> set r. c \<in> D" using take_drop_all(2) [of r "\<lambda>c. c \<notin> D"] unfolding s_def by blast
      then have t: "takeWhile (\<lambda>c. c \<notin> D) (r @ x # b) = takeWhile (\<lambda>c. c \<notin> D) r"
        "dropWhile (\<lambda>c. c \<notin> D) (r @ x # b) = s @ x # b"
        unfolding s_def by (induction r) auto
      have "length s \<le> length r" "length r \<le> length a" by (simp_all add: s_def r_def length_dropWhile_le)
      then have "length s' < length a" using Cons by simp
      from less [OF this] show ?thesis by (simp only: sp t Cons) simp
    qed
  qed
qed

lemma split_tokens_token:
  "t \<in> set (split_tokens D bs) \<Longrightarrow> t \<noteq> [] \<and> set t \<inter> D = {}"
proof (induction "length bs" arbitrary: bs rule: less_induct)
  case less
  define r where "r = dropWhile (\<lambda>c. c \<in> D) bs"
  show ?case
  proof (cases r)
    case Nil
    then show ?thesis using less.prems split_tokens_empty [of D bs] by (simp add: r_def)
  next
    case (Cons y r')
    then have ne: "r \<noteq> []" by simp
    have y: "y \<notin> D" using Cons hd_dropWhile [of "\<lambda>c. c \<in> D" bs] by (simp add: r_def)
    have l: "length (drop 1 (dropWhile (\<lambda>c. c \<notin> D) r)) < length bs"
      using length_dropWhile_le [of "\<lambda>c. c \<in> D" bs] length_dropWhile_le [of "\<lambda>c. c \<notin> D" r] Cons
      by (simp add: r_def)
    from less.prems consider "t = takeWhile (\<lambda>c. c \<notin> D) r" | "t \<in> set (split_tokens D (drop 1 (dropWhile (\<lambda>c. c \<notin> D) r)))"
      by (auto simp: split_tokens_step [OF r_def [symmetric] ne])
    then show ?thesis
    proof cases
      case 1
      then show ?thesis using y Cons by (auto dest: set_takeWhileD)
    qed (rule less.hyps [OF l])
  qed
qed

definition name_ok :: "u8 list \<Rightarrow> bool" where
  "name_ok t \<longleftrightarrow> t \<noteq> [] \<and> SEP \<notin> set t \<and> t \<noteq> PATH_DOT \<and> t \<noteq> PATH_UP"

definition join_path :: "u8 list list \<Rightarrow> u8 list" where
  "join_path ts = (if ts = [] then [SEP] else concat (map (\<lambda>t. SEP # t) ts))"

definition canonical :: "u8 list \<Rightarrow> bool" where
  "canonical p \<longleftrightarrow> list_all name_ok (split_tokens {SEP} p) \<and> p = join_path (split_tokens {SEP} p)"

lemma split_single: "t \<noteq> [] \<Longrightarrow> SEP \<notin> set t \<Longrightarrow> split_tokens {SEP} t = [t]"
  by (rule split_tokens_one) auto

lemma split_nil [simp]: "split_tokens D [] = []" by (rule split_tokens_empty) simp

lemma split_sep [simp]: "split_tokens {SEP} (SEP # b) = split_tokens {SEP} b"
  using split_tokens_append [of SEP "{SEP}" "[]" b] by simp

lemma split_concat:
  "list_all (\<lambda>t. t \<noteq> [] \<and> SEP \<notin> set t) ts \<Longrightarrow> split_tokens {SEP} (concat (map (\<lambda>t. SEP # t) ts)) = ts"
proof (induction ts)
  case (Cons t ts)
  have t: "split_tokens {SEP} t = [t]" using Cons.prems by (intro split_single) auto
  show ?case
  proof (cases ts)
    case (Cons u us)
    have "split_tokens {SEP} (t @ SEP # u @ concat (map (\<lambda>t. SEP # t) us)) =
        [t] @ split_tokens {SEP} (SEP # u @ concat (map (\<lambda>t. SEP # t) us))"
      using split_tokens_append [of SEP "{SEP}" t] t by simp
    then show ?thesis using Cons.IH Cons.prems Cons by simp
  qed (simp add: t)
qed simp

lemma split_join: "list_all (\<lambda>t. t \<noteq> [] \<and> SEP \<notin> set t) ts \<Longrightarrow> split_tokens {SEP} (join_path ts) = ts"
  by (simp add: join_path_def split_concat)

lemma name_okD: "list_all name_ok ts \<Longrightarrow> list_all (\<lambda>t. t \<noteq> [] \<and> SEP \<notin> set t) ts"
  by (auto simp: list_all_iff name_ok_def)

lemma canonical_join: "list_all name_ok ts \<Longrightarrow> canonical (join_path ts)"
  by (simp add: canonical_def split_join [OF name_okD])

lemma canonicalize_path_join:
  "canonicalize_path cwd input =
     join_path (foldl canon_token (if input \<noteq> [] \<and> hd input \<noteq> SEP then split_tokens {SEP} cwd else [])
       (split_tokens {SEP} input))"
  by (auto simp: canonicalize_path_def Let_def join_path_def)

lemma canon_token_ok:
  "list_all name_ok out \<Longrightarrow> t \<noteq> [] \<and> SEP \<notin> set t \<Longrightarrow> list_all name_ok (canon_token out t)"
  by (auto simp: canon_token_def name_ok_def list_all_iff dest: in_set_butlastD)

lemma canon_tokens_ok:
  "list_all name_ok out \<Longrightarrow> list_all (\<lambda>t. t \<noteq> [] \<and> SEP \<notin> set t) ts \<Longrightarrow> list_all name_ok (foldl canon_token out ts)"
  by (induction ts arbitrary: out) (auto intro: canon_token_ok)

lemma split_all: "list_all (\<lambda>t. t \<noteq> [] \<and> SEP \<notin> set t) (split_tokens {SEP} bs)"
  using split_tokens_token [of _ "{SEP}" bs] by (auto simp: list_all_iff)

lemma canon_tokens_keep: "list_all name_ok ts \<Longrightarrow> foldl canon_token out ts = out @ ts"
  by (induction ts arbitrary: out) (auto simp: canon_token_def name_ok_def)

lemma canonicalize_tokens:
  assumes "canonical cwd"
  shows "list_all name_ok (foldl canon_token (if input \<noteq> [] \<and> hd input \<noteq> SEP then split_tokens {SEP} cwd else [])
       (split_tokens {SEP} input))"
  using assms by (intro canon_tokens_ok split_all) (auto simp: canonical_def)

lemma join_path_hd: "join_path ts \<noteq> [] \<and> hd (join_path ts) = SEP"
  by (cases ts) (auto simp: join_path_def)

section \<open>The scan for the last component\<close>

lemma basename_trail_at:
  "j \<le> i \<Longrightarrow> \<forall>k. j < k \<and> k \<le> i \<longrightarrow> path ! k = SEP \<Longrightarrow> path ! j \<noteq> SEP \<or> j = 0 \<Longrightarrow> basename_trail path i = j"
  by (induction i) (auto simp: le_Suc_eq)

lemma basename_back_at:
  "a \<le> j \<Longrightarrow> \<forall>k. a \<le> k \<and> k \<le> j \<longrightarrow> path ! k \<noteq> SEP \<Longrightarrow> a = 0 \<or> path ! (a - 1) = SEP \<Longrightarrow>
   basename_back path j = (if a \<le> 1 then 0 else a)"
proof (induction j)
  case (Suc j)
  show ?case
  proof (cases "a \<le> j")
    case False
    then have "a = Suc j" using Suc.prems(1) by simp
    then show ?thesis using Suc.prems by (cases j) auto
  qed (use Suc in simp)
qed simp

lemma basename_skip_at:
  "i \<le> n \<Longrightarrow> n \<le> length path \<Longrightarrow> \<forall>k. i \<le> k \<and> k < n \<longrightarrow> path ! k = SEP \<Longrightarrow> n = length path \<or> path ! n \<noteq> SEP \<Longrightarrow>
   basename_skip path i = n"
proof (induction "n - i" arbitrary: i)
  case 0
  then show ?case by (subst basename_skip.simps) auto
next
  case (Suc d)
  then have "basename_skip path (i + 1) = n" by (intro Suc.hyps(1)) auto
  then show ?case using Suc by (subst basename_skip.simps) auto
qed

lemma fs_basename_slashes:
  assumes "path \<noteq> []" "\<forall>c \<in> set path. c = SEP"
  shows "fs_basename path = Some []"
proof -
  have n: "\<forall>k < length path. path ! k = SEP" using assms(2) by simp
  have "basename_trail path (length path - 1) = 0" using assms(1) n by (intro basename_trail_at) (auto simp: Suc_le_eq)
  moreover have "basename_skip path 0 = length path" using n by (intro basename_skip_at) auto
  ultimately show ?thesis using assms(1) by (simp add: fs_basename_def)
qed

lemma fs_basename_parts:
  assumes "path = a @ t @ trail" "t \<noteq> []" "SEP \<notin> set t" "a = [] \<or> last a = SEP" "\<forall>c \<in> set trail. c = SEP"
  shows "fs_basename path = Some (t @ trail)"
proof -
  define j where "j = length a + length t - 1"
  have len: "length path = length a + length t + length trail" "length t > 0" using assms(1,2) by auto
  have inT: "path ! k \<noteq> SEP" if "length a \<le> k" "k \<le> j" for k
  proof -
    have "k - length a < length t" using that len(2) unfolding j_def by arith
    then have "path ! k = t ! (k - length a)" using that(1) assms(1) by (simp add: nth_append)
    then show ?thesis using \<open>k - length a < length t\<close> assms(3) in_set_conv_nth [of SEP t] by metis
  qed
  have inS: "path ! k = SEP" if "j < k" "k < length path" for k
  proof -
    have k: "length a + length t \<le> k" "k - length a - length t < length trail" using that len unfolding j_def by auto
    then have "path ! k = trail ! (k - length a - length t)" using assms(1) len(2) by (auto simp: nth_append)
    then show ?thesis using assms(5) k(2) by simp
  qed
  have lj: "length a \<le> j" "j \<le> j" using len(2) unfolding j_def by linarith+
  have aS: "length a = 0 \<or> path ! (length a - 1) = SEP"
    using assms(1,4) by (cases "a = []") (auto simp: nth_append last_conv_nth)
  have "basename_trail path (length path - 1) = j"
    using inT [OF lj] inS len by (intro basename_trail_at) (auto simp: j_def)
  moreover have "basename_back path j = (if length a \<le> 1 then 0 else length a)"
    using inT aS lj by (intro basename_back_at) auto
  moreover have "basename_skip path (if length a \<le> 1 then 0 else length a) = length a"
    using inT [OF _ lj(1)] aS len by (intro basename_skip_at) (auto simp: le_Suc_eq)
  ultimately show ?thesis using assms(1,2) by (simp add: fs_basename_def)
qed

lemma last_token:
  assumes "t \<noteq> []" "SEP \<notin> set t" "a = [] \<or> last a = SEP" "\<forall>c \<in> set trail. c = SEP"
  shows "split_tokens {SEP} (a @ t @ trail) \<noteq> [] \<and> last (split_tokens {SEP} (a @ t @ trail)) = t"
proof -
  have t: "split_tokens {SEP} t = [t]" using assms(1,2) by (rule split_single)
  have tr: "split_tokens {SEP} (t @ trail) = [t]"
  proof (cases trail)
    case (Cons x xs)
    have "split_tokens {SEP} xs = []" using assms(4) Cons by (intro split_tokens_empty) auto
    then show ?thesis using split_tokens_append [of SEP "{SEP}" t xs] assms(4) t Cons by simp
  qed (simp add: t)
  show ?thesis
  proof (cases a rule: rev_cases)
    case (snoc b x)
    then show ?thesis using split_tokens_append [of SEP "{SEP}" b "t @ trail"] assms(3) tr by simp
  qed (simp add: tr)
qed

lemma fs_basename_split:
  assumes "path \<noteq> []"
  shows "fs_basename path =
     Some (if split_tokens {SEP} path = [] then []
           else last (split_tokens {SEP} path) @ takeWhile (\<lambda>c. c = SEP) (rev path))"
proof -
  define r where "r = dropWhile (\<lambda>c. c = SEP) (rev path)"
  define trail where "trail = takeWhile (\<lambda>c. c = SEP) (rev path)"
  have tr: "\<forall>c \<in> set trail. c = SEP" unfolding trail_def by (auto dest: set_takeWhileD)
  have "rev path = trail @ r" by (simp add: trail_def r_def)
  then have p: "path = rev r @ rev trail" by (metis rev_append rev_rev_ident)
  have "trail = replicate (length trail) SEP" using tr by (intro replicate_eqI) auto
  then have rt: "rev trail = trail" by (metis rev_replicate)
  show ?thesis
  proof (cases "r = []")
    case True
    then have all: "\<forall>c \<in> set path. c = SEP" using p tr by simp
    then have "split_tokens {SEP} path = []" by (intro split_tokens_empty) auto
    then show ?thesis using fs_basename_slashes [OF assms all] by simp
  next
    case False
    define t where "t = rev (takeWhile (\<lambda>c. c \<noteq> SEP) r)"
    define a where "a = rev (dropWhile (\<lambda>c. c \<noteq> SEP) r)"
    have at: "path = a @ t @ trail" using p rt unfolding a_def t_def
      by (metis append_assoc rev_append takeWhile_dropWhile_id)
    have "hd r \<noteq> SEP" using False hd_dropWhile unfolding r_def by blast
    then have t: "t \<noteq> []" "SEP \<notin> set t" using False unfolding t_def
      by (cases r; auto dest: set_takeWhileD)+
    have a: "a = [] \<or> last a = SEP" unfolding a_def
      using hd_dropWhile [of "\<lambda>c. c \<noteq> SEP" r] by (auto simp: last_rev)
    have l: "split_tokens {SEP} path \<noteq> []" "last (split_tokens {SEP} path) = t"
      using last_token [OF t a tr] unfolding at by auto
    show ?thesis using fs_basename_parts [OF at t a tr] l unfolding trail_def by simp
  qed
qed

section \<open>Cut paths\<close>

definition plain_name :: "u8 list \<Rightarrow> bool" where
  "plain_name t \<longleftrightarrow> t \<noteq> [] \<and> SEP \<notin> set t \<and> 0 \<notin> set t"

definition cut_at :: "u8 list \<Rightarrow> nat \<Rightarrow> u8 list list \<Rightarrow> bool" where
  "cut_at buf off ts \<longleftrightarrow> drop off buf = concat (map (\<lambda>t. t @ [0]) ts)"

lemma str_at_cut:
  assumes "drop off buf = t @ 0 # r" "0 \<notin> set t"
  shows "str_at buf off = t" "drop (off + length t + 1) buf = r"
proof -
  have "\<forall>x \<in> set t. x \<noteq> 0" using assms(2) by auto
  then show "str_at buf off = t" by (simp add: str_at_def assms(1))
  have "drop (length t + 1) (drop off buf) = r" by (simp add: assms(1))
  then show "drop (off + length t + 1) buf = r" by (simp add: ac_simps)
qed

lemma cut_at_Cons:
  assumes "cut_at buf off (t # ts)" "plain_name t"
  shows "str_at buf off = t" "cut_at buf (off + length t + 1) ts" "off + length t + 1 \<le> length buf" "off + 1 < length buf"
proof -
  have d: "drop off buf = t @ 0 # concat (map (\<lambda>t. t @ [0]) ts)" using assms(1) by (simp add: cut_at_def)
  show "str_at buf off = t" "cut_at buf (off + length t + 1) ts"
    using str_at_cut [OF d] assms(2) by (auto simp: plain_name_def cut_at_def)
  have l: "length buf - off \<ge> length t + 1" using arg_cong [OF d, of length] by simp
  moreover have "length t > 0" using assms(2) by (simp add: plain_name_def)
  ultimately show "off + length t + 1 \<le> length buf" "off + 1 < length buf" by linarith+
qed

lemma cut_at_Nil: "cut_at buf off [] \<longleftrightarrow> length buf \<le> off"
  by (simp add: cut_at_def)

lemma plain_chop: "plain_name t \<Longrightarrow> map (\<lambda>b. if b = SEP then 0 else b) t = t"
  by (induction t) (auto simp: plain_name_def split: if_splits)

lemma chop_tokens:
  "list_all plain_name ts \<Longrightarrow> chop (concat (map (\<lambda>t. SEP # t) ts)) = concat (map (\<lambda>t. 0 # t) ts) @ [0]"
  by (induction ts) (auto simp: chop_def plain_chop)

lemma shift_zeros: "concat (map (\<lambda>t. 0 # t) ts) @ [0] = 0 # concat (map (\<lambda>t. t @ [0 :: u8]) ts)"
  by (induction ts) auto

lemma chop_cut: "ts \<noteq> [] \<Longrightarrow> list_all plain_name ts \<Longrightarrow> cut_at (chop (join_path ts)) 1 ts"
  by (simp add: cut_at_def join_path_def chop_tokens shift_zeros)

lemma length_chop [simp]: "length (chop p) = length p + 1"
  by (simp add: chop_def)

lemma tokenize_depth: "list_all plain_name ts \<Longrightarrow> length (filter (\<lambda>b. b = SEP) (concat (map (\<lambda>t. SEP # t) ts))) = length ts"
  by (induction ts) (auto simp: plain_name_def filter_empty_conv)

lemma untokenize_loop_tokens:
  "k \<le> length ts \<Longrightarrow> list_all plain_name ts \<Longrightarrow> p \<le> length A \<Longrightarrow> 0 \<notin> set (drop p A) \<Longrightarrow>
   untokenize_loop k (A @ concat (map (\<lambda>t. 0 # t) ts) @ [0]) p =
     Some (A @ concat (map (\<lambda>t. SEP # t) (take k ts)) @ concat (map (\<lambda>t. 0 # t) (drop k ts)) @ [0])"
proof (induction k arbitrary: A ts p)
  case (Suc k)
  then obtain t us where ts: "ts = t # us" by (cases ts) auto
  let ?R = "t @ concat (map (\<lambda>t. 0 # t) us) @ [0]"
  have "drop p (A @ 0 # ?R) = drop p A @ 0 # ?R" using Suc.prems(3) by simp
  from str_at_cut(1) [OF this Suc.prems(4)] have "str_at (A @ 0 # ?R) p = drop p A" .
  then have e: "p + length (str_at (A @ 0 # ?R) p) = length A" using Suc.prems(3) by simp
  have z: "0 \<notin> set (drop (length A) (A @ SEP # t))" using Suc.prems(2) ts by (auto simp: plain_name_def)
  have "untokenize_loop (Suc k) (A @ 0 # ?R) p = untokenize_loop k ((A @ SEP # t) @ concat (map (\<lambda>t. 0 # t) us) @ [0]) (length A)"
    by (simp add: Let_def e)
  then show ?case using Suc.IH [of us "length A" "A @ SEP # t", OF _ _ _ z] Suc.prems ts by simp
qed simp

lemma path_untokenize_tokens:
  assumes "list_all plain_name ts" "ts \<noteq> []" "d \<le> length ts + 1"
  shows "path_untokenize (chop (join_path ts)) d = Some (concat (map (\<lambda>t. SEP # t) (take (d - 1) ts)))"
proof -
  let ?A = "concat (map (\<lambda>t. SEP # t) (take (d - 1) ts))"
  have "0 \<notin> set ?A" using assms(1) by (auto simp: list_all_iff plain_name_def dest: in_set_takeD)
  moreover have "concat (map (\<lambda>t. 0 # t) (drop (d - 1) ts)) @ [0] = 0 # concat (map (\<lambda>t. t @ [0 :: u8]) (drop (d - 1) ts))"
    by (rule shift_zeros)
  ultimately have "str_at (?A @ concat (map (\<lambda>t. 0 # t) (drop (d - 1) ts)) @ [0]) 0 = ?A"
    by (intro str_at_cut(1)) auto
  then show ?thesis using untokenize_loop_tokens [of "d - 1" ts 0 "[]"] assms
    by (simp add: path_untokenize_def join_path_def chop_tokens)
qed

section \<open>Mounting and lookup over the tokens\<close>

fun mput :: "(vfs_entry \<Rightarrow> vfs_entry) \<Rightarrow> u8 list list \<Rightarrow> mtree \<Rightarrow> mtree" where
  "mput f [] node = MNode (f (m_value node)) (m_children node)"
| "mput f (t # ts) node =
     (let kids = m_children node
      in case find_child t kids of
           Some i \<Rightarrow> MNode (m_value node) (kids[i := mput f ts (kids ! i)])
         | None \<Rightarrow> MNode (m_value node) (kids @ [mput f ts (MNode (fresh_entry t) [])]))"

fun mbest :: "u8 list list \<Rightarrow> mtree \<Rightarrow> nat \<Rightarrow> addr \<times> u8 list list \<times> nat \<Rightarrow> addr \<times> u8 list list \<times> nat" where
  "mbest [] node d best = best"
| "mbest (t # ts) node d best =
     (case find_child t (m_children node) of
        None \<Rightarrow> best
      | Some i \<Rightarrow> (let c = m_children node ! i
                   in mbest ts c (d + 1) (if ve_file (m_value c) \<noteq> NULL then (ve_file (m_value c), ts, d) else best)))"

lemma mount_loop_tokens:
  "cut_at buf off ts \<Longrightarrow> list_all plain_name ts \<Longrightarrow> length buf = n + 1 \<Longrightarrow>
   fst (mount_loop buf n off f node) = mput f ts node"
proof (induction ts arbitrary: off node)
  case Nil
  then show ?case by (subst mount_loop.simps) (simp add: cut_at_Nil)
next
  case (Cons t ts)
  note c = cut_at_Cons [OF Cons.prems(1)]
  have "\<not> n \<le> off" using c(4) Cons.prems(2,3) by simp
  moreover have "fst (mount_loop buf n (off + length t + 1) f x) = mput f ts x" for x
    using Cons.IH c(2) Cons.prems(2,3) by simp
  ultimately show ?case using c(1) Cons.prems(2)
    by (subst mount_loop.simps) (simp add: Let_def case_prod_unfold split: option.split)
qed

definition same_best :: "u8 list \<Rightarrow> addr \<times> nat \<times> nat \<Rightarrow> addr \<times> u8 list list \<times> nat \<Rightarrow> bool" where
  "same_best buf b c \<longleftrightarrow> fst b = fst c \<and> cut_at buf (fst (snd b)) (fst (snd c)) \<and> snd (snd b) = snd (snd c)"

lemma mount_point_loop_tokens:
  "cut_at buf off ts \<Longrightarrow> list_all plain_name ts \<Longrightarrow> same_best buf b c \<Longrightarrow>
   same_best buf (mount_point_loop buf (length buf) off node d b) (mbest ts node d c)"
proof (induction ts arbitrary: off node d b c)
  case Nil
  then show ?case by (subst mount_point_loop.simps) (simp add: cut_at_Nil)
next
  case (Cons t ts)
  note k = cut_at_Cons [OF Cons.prems(1)]
  have t: "plain_name t" "list_all plain_name ts" using Cons.prems(2) by auto
  have "\<not> length buf \<le> off" using k(4) [OF t(1)] by simp
  note s = mount_point_loop.simps [of buf "length buf" off node d b, unfolded k(1) [OF t(1)] if_not_P [OF this]]
  show ?case
  proof (cases "find_child t (m_children node)")
    case None
    then show ?thesis using Cons.prems(3) s by simp
  next
    case (Some i)
    have "same_best buf (mount_point_loop buf (length buf) (off + length t + 1) x d' b') (mbest ts x d' c')"
      if "same_best buf b' c'" for x d' b' c'
      using Cons.IH [OF k(2) [OF t(1)] t(2) that] .
    moreover have "same_best buf (q, off + length t + 1, d) (q, ts, d)" for q
      using k(2) [OF t(1)] by (simp add: same_best_def)
    ultimately show ?thesis using Cons.prems(3) Some s by (simp add: Let_def)
  qed
qed

lemma skip_strings_cut:
  "cut_at buf off ts \<Longrightarrow> list_all plain_name ts \<Longrightarrow> off \<le> length buf \<Longrightarrow> skip_strings buf (length ts) off = length buf"
proof (induction ts arbitrary: off)
  case (Cons t ts)
  note k = cut_at_Cons [OF Cons.prems(1)]
  have t: "plain_name t" "list_all plain_name ts" using Cons.prems(2) by auto
  show ?case using Cons.IH [OF k(2) [OF t(1)] t(2) k(3) [OF t(1)]] k(1) [OF t(1)] by simp
qed (simp add: cut_at_Nil)

lemma get_mount_point_tokens:
  assumes "list_all plain_name ts" "ts \<noteq> []"
  shows "same_best (chop (join_path ts)) (get_mount_point r tree (chop (join_path ts)) (length ts) 1) (mbest ts tree 1 (r, ts, 0))"
proof -
  let ?b = "chop (join_path ts)"
  note c = chop_cut [OF assms(2,1)]
  obtain t us where ts: "ts = t # us" using assms(2) by (cases ts) auto
  have "str_at ?b 0 = []" using assms by (simp add: join_path_def chop_def ts str_at_def)
  then have "skip_strings ?b (length ts + 1) 0 = skip_strings ?b (length ts) 1" by simp
  also have "\<dots> = length ?b" using c assms(1) by (intro skip_strings_cut) auto
  finally show ?thesis using mount_point_loop_tokens [OF c assms(1), of "(r, 1, 0)" "(r, ts, 0)"] c
    by (simp add: get_mount_point_def same_best_def)
qed

lemma find_child_Some:
  "find_child t cs = Some i \<Longrightarrow> i < length cs \<and> ve_name (m_value (cs ! i)) = t"
  by (induction cs arbitrary: i) (auto split: if_splits)

lemma find_child_update:
  "i < length cs \<Longrightarrow> ve_name (m_value c) = ve_name (m_value (cs ! i)) \<Longrightarrow> find_child t (cs[i := c]) = find_child t cs"
  by (induction cs arbitrary: i) (auto split: nat.splits)

lemma find_child_append:
  "find_child t (cs @ [c]) = (case find_child t cs of Some i \<Rightarrow> Some i | None \<Rightarrow> if ve_name (m_value c) = t then Some (length cs) else None)"
  by (induction cs) (auto split: option.splits)

lemma mput_name: "(\<And>e. ve_name (f e) = ve_name e) \<Longrightarrow> ve_name (m_value (mput f ts node)) = ve_name (m_value node)"
  by (cases ts) (auto simp: Let_def split: option.splits)

lemma mput_value: "ts \<noteq> [] \<Longrightarrow> m_value (mput f ts node) = m_value node"
  by (cases ts) (auto simp: Let_def split: option.splits)

lemma mbest_mput:
  assumes "\<And>e. ve_name (f e) = ve_name e" "\<And>e. ve_file (f e) = q" "q \<noteq> NULL"
  shows "ts \<noteq> [] \<Longrightarrow> mbest ts (mput f ts node) d best = (q, [], d + length ts - 1)"
proof (induction ts arbitrary: node d best)
  case (Cons t ts)
  let ?kids = "m_children node"
  define i where "i = (case find_child t ?kids of Some i \<Rightarrow> i | None \<Rightarrow> length ?kids)"
  define c where "c = (case find_child t ?kids of Some i \<Rightarrow> ?kids ! i | None \<Rightarrow> MNode (fresh_entry t) [])"
  have n: "ve_name (m_value (mput f ts c)) = t"
    using find_child_Some by (auto simp: c_def mput_name assms(1) fresh_entry_def split: option.splits)
  have fc: "find_child t (m_children (mput f (t # ts) node)) = Some i \<and> m_children (mput f (t # ts) node) ! i = mput f ts c"
  proof (cases "find_child t ?kids")
    case None
    then show ?thesis using n by (simp add: Let_def find_child_append i_def c_def nth_append)
  next
    case (Some j)
    then show ?thesis using n find_child_Some [OF Some] by (simp add: Let_def i_def c_def find_child_update)
  qed
  show ?case
  proof (cases "ts = []")
    case True
    then show ?thesis using fc assms(2,3) by (simp add: Let_def)
  next
    case False
    have "mbest (t # ts) (mput f (t # ts) node) d best = mbest ts (mput f ts c) (d + 1)
        (if ve_file (m_value (mput f ts c)) \<noteq> NULL then (ve_file (m_value (mput f ts c)), ts, d) else best)"
      using fc by (simp del: mput.simps add: Let_def)
    also have "\<dots> = (q, [], d + 1 + length ts - 1)" by (rule Cons.IH [OF False])
    finally show ?thesis by simp
  qed
qed simp

lemma mbest_leaf [simp]: "mbest us (MNode e []) d best = best"
  by (cases us) auto

lemma mbest_mput_other:
  assumes "\<And>e. ve_name (f e) = ve_name e"
  shows "take (length ts) us \<noteq> ts \<Longrightarrow> mbest us (mput f ts node) d best = mbest us node d best"
proof (induction ts arbitrary: us node d best)
  case (Cons t ts)
  let ?kids = "m_children node"
  show ?case
  proof (cases us)
    case (Cons u vs)
    have deep: "ts \<noteq> [] \<and> take (length ts) vs \<noteq> ts" if "u = t" using Cons.prems Cons that by auto
    show ?thesis
    proof (cases "find_child t ?kids")
      case None
      have new: "ve_name (m_value (mput f ts (MNode (fresh_entry t) []))) = t"
        by (simp add: mput_name assms fresh_entry_def)
      show ?thesis
      proof (cases "u = t")
        case True
        then have "mbest vs (mput f ts (MNode (fresh_entry t) [])) (d + 1) best = best"
          using Cons.IH deep by simp
        moreover have "ve_file (m_value (mput f ts (MNode (fresh_entry t) []))) = NULL"
          using deep True by (simp add: mput_value fresh_entry_def)
        ultimately show ?thesis using None True new by (simp add: Cons Let_def find_child_append)
      next
        case False
        then show ?thesis using None new find_child_Some [of u ?kids]
          by (auto simp: Cons Let_def find_child_append nth_append split: option.splits)
      qed
    next
      case (Some i)
      note i = find_child_Some [OF Some]
      have n: "ve_name (m_value (mput f ts (?kids ! i))) = ve_name (m_value (?kids ! i))" by (simp add: mput_name assms)
      have fc: "find_child u (?kids[i := mput f ts (?kids ! i)]) = find_child u ?kids"
        using i n by (simp add: find_child_update)
      show ?thesis
      proof (cases "u = t")
        case True
        then show ?thesis using Some fc i deep Cons.IH by (simp add: Cons Let_def mput_value)
      next
        case False
        have "j \<noteq> i" if "find_child u ?kids = Some j" for j using find_child_Some [OF that] i False by auto
        then show ?thesis using Some fc by (auto simp: Cons Let_def split: option.splits)
      qed
    qed
  qed simp
qed simp

section \<open>Properties\<close>

text \<open>
  Property C28.  Whatever the input, \<^verbatim>\<open>canonicalize_path\<close> relative to a canonical working directory returns a
  canonical path: it is \<^verbatim>\<open>/\<close>, or a sequence of names each preceded by one separator, none of them empty,
  \<^verbatim>\<open>.\<close> or \<^verbatim>\<open>..\<close>.
\<close>

theorem canonicalize_path_canonical:
  assumes "canonical cwd"
  shows "canonical (canonicalize_path cwd input)"
  unfolding canonicalize_path_join by (rule canonical_join [OF canonicalize_tokens [OF assms]])

theorem canonicalize_path_canonical_witness:
  "canonical (canonicalize_path [47, 97] [46, 46, 47, 46, 46, 47, 98])"
  by (rule canonicalize_path_canonical)
    (simp add: canonical_def split_tokens.simps name_ok_def join_path_def PATH_DOT_def PATH_UP_def)

text \<open>
  Property C33.  Canonicalizing a path that is a name, a separator and a relative path is the same as
  canonicalizing the relative path in the directory the first part leads to; and a canonical path is its own
  canonical form in every working directory.
\<close>

theorem canonicalize_path_compose:
  assumes "canonical cwd" "a \<noteq> []" "b \<noteq> []" "hd b \<noteq> SEP"
  shows "canonicalize_path cwd (a @ SEP # b) = canonicalize_path (canonicalize_path cwd a) b \<and>
    canonicalize_path other (canonicalize_path cwd a) = canonicalize_path cwd a"
proof
  let ?o = "if a \<noteq> [] \<and> hd a \<noteq> SEP then split_tokens {SEP} cwd else []"
  let ?ts = "foldl canon_token ?o (split_tokens {SEP} a)"
  have ok: "list_all name_ok ?ts" by (rule canonicalize_tokens [OF assms(1)])
  have sp: "split_tokens {SEP} (join_path ?ts) = ?ts" by (rule split_join [OF name_okD [OF ok]])
  show "canonicalize_path cwd (a @ SEP # b) = canonicalize_path (canonicalize_path cwd a) b"
    unfolding canonicalize_path_join using assms(2-4) sp by (simp add: split_tokens_append)
  show "canonicalize_path other (canonicalize_path cwd a) = canonicalize_path cwd a"
    unfolding canonicalize_path_join using sp ok join_path_hd [of ?ts] by (simp add: canon_tokens_keep)
qed

theorem canonicalize_path_compose_witness:
  "canonicalize_path [47] ([97] @ SEP # [46, 46, 47, 98]) = canonicalize_path (canonicalize_path [47] [97]) [46, 46, 47, 98] \<and>
   canonicalize_path [47, 98] (canonicalize_path [47] [97]) = canonicalize_path [47] [97]"
  by (rule canonicalize_path_compose) (simp_all add: canonical_def split_tokens.simps join_path_def)

text \<open>
  Property C40.  Cutting a canonical path at its separators counts its components, and putting back the
  separators up to a component gives the path of the directory that holds it (nothing for the first one);
  one more step gives back the whole path.
\<close>

theorem path_untokenize_tokenize:
  assumes "list_all plain_name ts" "ts \<noteq> []" "d \<le> length ts"
  shows "\<exists>buf depth. path_tokenize (join_path ts) = (buf, 1, depth) \<and> depth = length ts \<and>
    path_untokenize buf d = Some (concat (map (\<lambda>t. SEP # t) (take (d - 1) ts))) \<and>
    path_untokenize buf (depth + 1) = Some (join_path ts)"
  using path_untokenize_tokens [OF assms(1,2), of d] path_untokenize_tokens [OF assms(1,2), of "length ts + 1"] assms
    tokenize_depth [OF assms(1)]
  by (simp add: path_tokenize_def join_path_def)

theorem path_untokenize_tokenize_witness:
  "\<exists>buf depth. path_tokenize (join_path [[97, 98], [99], [100]]) = (buf, 1, depth) \<and> depth = length [[97, 98], [99], [100 :: u8]] \<and>
    path_untokenize buf 3 = Some (concat (map (\<lambda>t. SEP # t) (take (3 - 1) [[97, 98], [99], [100]]))) \<and>
    path_untokenize buf (depth + 1) = Some (join_path [[97, 98], [99], [100]])"
  by (rule path_untokenize_tokenize) (simp_all add: plain_name_def)

text \<open>
  Property C36.  After a node is mounted on a path other than the root, the mount point of that path is that
  node, with the whole path consumed; and the mount point of every path that does not go through the mounted
  one is what it was.
\<close>

theorem mount_then_get_mount_point:
  assumes "list_all plain_name ts" "ts \<noteq> []" "q \<noteq> NULL" "mount_path (join_path ts) q ty opts tree = (tree', r, is_root)"
  shows "\<not> is_root \<and>
    (\<exists>off. get_mount_point root tree' (chop (join_path ts)) (length ts) 1 = (q, off, length ts) \<and> length (join_path ts) \<le> off) \<and>
    (\<forall>us. list_all plain_name us \<longrightarrow> us \<noteq> [] \<longrightarrow> take (length ts) us \<noteq> ts \<longrightarrow>
      fst (get_mount_point root tree' (chop (join_path us)) (length us) 1) =
      fst (get_mount_point root tree (chop (join_path us)) (length us) 1))"
proof -
  let ?f = "set_mount q ty opts"
  have f: "ve_name (?f e) = ve_name e" "ve_file (?f e) = q" for e by (simp_all add: set_mount_def)
  obtain t us where ts: "ts = t # us" using assms(2) by (cases ts) auto
  note c = chop_cut [OF assms(2,1)]
  have "str_at (chop (join_path ts)) 1 = t" "t \<noteq> []"
    using cut_at_Cons(1) [OF c [unfolded ts]] assms(1) ts by (auto simp: plain_name_def)
  then have m: "\<not> is_root" "tree' = mput ?f ts tree"
    using assms(4) mount_loop_tokens [OF c assms(1), of "length (join_path ts)" ?f tree]
    by (auto simp: mount_path_def Let_def split: prod.splits)
  have b: "mbest ts tree' 1 (root, ts, 0) = (q, [], length ts)"
    using mbest_mput [of ?f q ts tree 1, OF f assms(3,2)] by (simp add: m)
  have "\<exists>off. get_mount_point root tree' (chop (join_path ts)) (length ts) 1 = (q, off, length ts) \<and> length (join_path ts) \<le> off"
    using get_mount_point_tokens [OF assms(1,2), of root tree'] unfolding b same_best_def
    by (cases "get_mount_point root tree' (chop (join_path ts)) (length ts) 1") (simp add: cut_at_Nil)
  moreover have "fst (get_mount_point root tree' (chop (join_path us)) (length us) 1) =
      fst (get_mount_point root tree (chop (join_path us)) (length us) 1)"
    if "list_all plain_name us" "us \<noteq> []" "take (length ts) us \<noteq> ts" for us
    using get_mount_point_tokens [OF that(1,2), of root tree'] get_mount_point_tokens [OF that(1,2), of root tree]
      mbest_mput_other [of ?f ts us tree 1 "(root, us, 0)", OF f(1) that(3)] by (simp add: m same_best_def)
  ultimately show ?thesis using m(1) by blast
qed

theorem mount_then_get_mount_point_witness:
  "\<exists>tree' r. mount_path (join_path [[100], [101]]) 7 [] [] (MNode (fresh_entry []) []) = (tree', r, False) \<and>
    (\<exists>off. get_mount_point 1 tree' (chop (join_path [[100], [101]])) 2 1 = (7, off, 2) \<and> length (join_path [[100], [101]]) \<le> off)"
proof -
  obtain tree' r b where m: "mount_path (join_path [[100], [101]]) 7 [] [] (MNode (fresh_entry []) []) = (tree', r, b)"
    by (cases "mount_path (join_path [[100], [101]]) 7 [] [] (MNode (fresh_entry []) [])")
  have e: "length [[100], [101 :: u8]] = 2" by simp
  show ?thesis using mount_then_get_mount_point [OF _ _ _ m, of 1, unfolded e] m by (simp add: plain_name_def)
qed

text \<open>
  The name \<^verbatim>\<open>fs_basename\<close> returns for a non-empty path is its last component, followed by the
  separators that end the path; it is empty for a path of separators only, and the empty path makes the scan
  read the byte before the string.
\<close>

theorem fs_basename_last_component:
  "fs_basename path =
     (if path = [] then None
      else Some (if split_tokens {SEP} path = [] then []
                 else last (split_tokens {SEP} path) @ takeWhile (\<lambda>c. c = SEP) (rev path)))"
  using fs_basename_split [of path] by (simp add: fs_basename_def)

end
