(* ===== verification/Kvfs.thy ===== *)
theory Kvfs
  imports Razion_Prelude Kstring Khashmap Kpath
begin

text \<open>
  The virtual file system of \<^verbatim>\<open>kernel/vfs/vfs.c\<close>: nodes with reference counts and permissions, the dispatch
  to the methods of a node, mounting, opening a path through mount points, directories and symbolic links,
  and the operations on names (create, unlink, mkdir, symlink, rename).

  The methods of a node are function pointers set by the file system drivers.  A node records which of them
  are set, and a record of functions, an argument of the operations, says what they do.
\<close>

unbundle bit_operations_syntax

section \<open>Nodes and state\<close>

abbreviation (input) FS_DIRECTORY :: u64 where "FS_DIRECTORY \<equiv> 0x02"
abbreviation (input) FS_SYMLINK :: u64 where "FS_SYMLINK \<equiv> 0x20"
abbreviation (input) O_NOFOLLOW :: u64 where "O_NOFOLLOW \<equiv> 0x1000"
definition R_OK :: u32 where "R_OK = 4"
definition W_OK :: u32 where "W_OK = 2"
definition X_OK :: u32 where "X_OK = 1"
abbreviation (input) USER_ROOT_UID :: u32 where "USER_ROOT_UID \<equiv> 0"
definition MAX_SYMLINK_DEPTH :: nat where "MAX_SYMLINK_DEPTH = 8"
definition MAX_SYMLINK_SIZE :: u64 where "MAX_SYMLINK_SIZE = 4096"

datatype meth = Mread | Mwrite | Mopen | Mclose | Mreaddir | Mfinddir | Mcreate | Mmkdir | Mioctl | Mchmod | Munlink |
  Msymlink | Mreadlink | Mtruncate | Mselectcheck | Mselectwait | Mchown | Mrename

text \<open>
  The fields of a node the virtual file system itself uses.  \<open>n_dir\<close> is the device pointer of a directory
  made by \<^verbatim>\<open>map_vfs_directory\<close>: a node of the mount tree, by the indices on the way to it.
\<close>

record fs_node =
  n_mount :: addr
  n_mask :: u32
  n_uid :: u32
  n_gid :: u32
  n_flags :: u64
  n_refcount :: int
  n_ops :: "meth set"
  n_dir :: "nat list option"

record process_ids =
  p_user :: u32
  p_user_group :: u32
  p_real_user :: u32
  p_real_user_group :: u32
  p_groups :: "u32 list"
  p_wd_name :: "u8 list"

record 'd vfs =
  v_nodes :: "addr \<rightharpoonup> fs_node"
  v_root :: addr
  v_tree :: mtree
  v_types :: "u8 list hashmap_t"
  v_dev :: 'd

record 'd fs_methods =
  op_read :: "addr \<Rightarrow> u64 \<Rightarrow> u64 \<Rightarrow> 'd vfs \<Rightarrow> 'd vfs \<times> int \<times> u8 list"
  op_write :: "addr \<Rightarrow> u64 \<Rightarrow> u8 list \<Rightarrow> 'd vfs \<Rightarrow> 'd vfs \<times> int"
  op_open :: "addr \<Rightarrow> u32 \<Rightarrow> 'd vfs \<Rightarrow> 'd vfs"
  op_close :: "addr \<Rightarrow> 'd vfs \<Rightarrow> 'd vfs"
  op_readdir :: "addr \<Rightarrow> u64 \<Rightarrow> 'd vfs \<Rightarrow> int \<times> u8 list \<times> u64"
  op_finddir :: "addr \<Rightarrow> u8 list \<Rightarrow> 'd vfs \<Rightarrow> 'd vfs \<times> addr"
  op_create :: "addr \<Rightarrow> u8 list \<Rightarrow> u32 \<Rightarrow> 'd vfs \<Rightarrow> 'd vfs \<times> int \<times> addr"
  op_mkdir :: "addr \<Rightarrow> u8 list \<Rightarrow> u32 \<Rightarrow> 'd vfs \<Rightarrow> 'd vfs \<times> int \<times> addr"
  op_ioctl :: "addr \<Rightarrow> u64 \<Rightarrow> addr \<Rightarrow> 'd vfs \<Rightarrow> 'd vfs \<times> int"
  op_chmod :: "addr \<Rightarrow> u32 \<Rightarrow> 'd vfs \<Rightarrow> 'd vfs \<times> int"
  op_unlink :: "addr \<Rightarrow> u8 list \<Rightarrow> 'd vfs \<Rightarrow> 'd vfs \<times> int"
  op_symlink :: "addr \<Rightarrow> u8 list \<Rightarrow> u8 list \<Rightarrow> 'd vfs \<Rightarrow> 'd vfs \<times> int"
  op_readlink :: "addr \<Rightarrow> u64 \<Rightarrow> 'd vfs \<Rightarrow> 'd vfs \<times> int \<times> u8 list"
  op_truncate :: "addr \<Rightarrow> u64 \<Rightarrow> 'd vfs \<Rightarrow> 'd vfs \<times> int"
  op_selectcheck :: "addr \<Rightarrow> 'd vfs \<Rightarrow> int"
  op_selectwait :: "addr \<Rightarrow> addr \<Rightarrow> 'd vfs \<Rightarrow> 'd vfs \<times> int"
  op_chown :: "addr \<Rightarrow> u32 \<Rightarrow> u32 \<Rightarrow> 'd vfs \<Rightarrow> 'd vfs \<times> int"
  op_rename :: "addr \<Rightarrow> addr \<Rightarrow> u8 list \<Rightarrow> addr \<Rightarrow> u8 list \<Rightarrow> 'd vfs \<Rightarrow> 'd vfs \<times> int"

definition rd_fs :: "'d vfs \<Rightarrow> addr \<Rightarrow> fs_node option" where
  "rd_fs v p = (if p = NULL then None else v_nodes v p)"

definition set_fs :: "addr \<Rightarrow> fs_node \<Rightarrow> 'd vfs \<Rightarrow> 'd vfs" where
  "set_fs p n v = v\<lparr>v_nodes := (v_nodes v)(p \<mapsto> n)\<rparr>"

section \<open>Permissions\<close>

definition has_permission :: "process_ids \<Rightarrow> fs_node option \<Rightarrow> u32 \<Rightarrow> bool" where
  "has_permission pr node permission_bit =
     (case node of None \<Rightarrow> False
      | Some node \<Rightarrow>
         (let real = permission_bit AND 8 \<noteq> 0;
              whom = (if real then p_real_user pr else p_user pr);
              whomg = (if real then p_real_user_group pr else p_user_group pr);
              permission_bit = (if real then permission_bit AND NOT 8 else permission_bit)
          in if whom = USER_ROOT_UID \<and> (permission_bit AND 1 = 0 \<or> n_flags node AND FS_DIRECTORY \<noteq> 0) then True
             else let my = n_mask node AND 7;
                      user_perm = drop_bit 6 (n_mask node) AND 7;
                      group_perm = drop_bit 3 (n_mask node) AND 7;
                      my = (if whom = n_uid node then my OR user_perm else my);
                      my = (if whomg = n_gid node then my OR group_perm
                            else foldl (\<lambda>my g. if g = n_gid node then my OR group_perm else my) my (p_groups pr))
                  in permission_bit AND my = permission_bit))"

section \<open>Dispatch\<close>

definition selectcheck_fs :: "'d fs_methods \<Rightarrow> addr \<Rightarrow> 'd vfs \<Rightarrow> int option" where
  "selectcheck_fs D node v =
     (if node = NULL then Some (- ENOENT)
      else do { n \<leftarrow> rd_fs v node; Some (if Mselectcheck \<in> n_ops n then op_selectcheck D node v else - EINVAL) })"

definition selectwait_fs :: "'d fs_methods \<Rightarrow> addr \<Rightarrow> addr \<Rightarrow> 'd vfs \<Rightarrow> ('d vfs \<times> int) option" where
  "selectwait_fs D node proc v =
     (if node = NULL then Some (v, - ENOENT)
      else do { n \<leftarrow> rd_fs v node; Some (if Mselectwait \<in> n_ops n then op_selectwait D node proc v else (v, - EINVAL)) })"

definition read_fs :: "'d fs_methods \<Rightarrow> addr \<Rightarrow> u64 \<Rightarrow> u64 \<Rightarrow> 'd vfs \<Rightarrow> ('d vfs \<times> int \<times> u8 list) option" where
  "read_fs D node offset sz v =
     (if node = NULL then Some (v, - ENOENT, [])
      else do {
        n \<leftarrow> rd_fs v node;
        Some (if Mread \<in> n_ops n then op_read D node offset sz v
              else if n_flags n AND FS_DIRECTORY \<noteq> 0 then (v, - EISDIR, [])
              else (v, - EINVAL, []))
      })"

definition write_fs :: "'d fs_methods \<Rightarrow> addr \<Rightarrow> u64 \<Rightarrow> u8 list \<Rightarrow> 'd vfs \<Rightarrow> ('d vfs \<times> int) option" where
  "write_fs D node offset buf v =
     (if node = NULL then Some (v, - ENOENT)
      else do {
        n \<leftarrow> rd_fs v node;
        Some (if Mwrite \<in> n_ops n then op_write D node offset buf v
              else if n_flags n AND FS_DIRECTORY \<noteq> 0 then (v, - EISDIR)
              else (v, - EROFS))
      })"

definition truncate_fs :: "'d fs_methods \<Rightarrow> addr \<Rightarrow> u64 \<Rightarrow> 'd vfs \<Rightarrow> ('d vfs \<times> int) option" where
  "truncate_fs D node sz v =
     (if node = NULL then Some (v, - ENOENT)
      else do { n \<leftarrow> rd_fs v node; Some (if Mtruncate \<in> n_ops n then op_truncate D node sz v else (v, - EINVAL)) })"

definition chmod_fs :: "'d fs_methods \<Rightarrow> addr \<Rightarrow> u32 \<Rightarrow> 'd vfs \<Rightarrow> ('d vfs \<times> int) option" where
  "chmod_fs D node mode v =
     do { n \<leftarrow> rd_fs v node; Some (if Mchmod \<in> n_ops n then op_chmod D node mode v else (v, - EPERM)) }"

definition chown_fs :: "'d fs_methods \<Rightarrow> addr \<Rightarrow> u32 \<Rightarrow> u32 \<Rightarrow> 'd vfs \<Rightarrow> ('d vfs \<times> int) option" where
  "chown_fs D node uid gid v =
     do { n \<leftarrow> rd_fs v node; Some (if Mchown \<in> n_ops n then op_chown D node uid gid v else (v, - EPERM)) }"

definition readdir_fs :: "'d fs_methods \<Rightarrow> addr \<Rightarrow> u64 \<Rightarrow> 'd vfs \<Rightarrow> (int \<times> u8 list \<times> u64) option" where
  "readdir_fs D node index v =
     (if node = NULL then Some (- EINVAL, [], 0)
      else do {
        n \<leftarrow> rd_fs v node;
        Some (if n_flags n AND FS_DIRECTORY = 0 \<or> Mreaddir \<notin> n_ops n then (- EINVAL, [], 0) else op_readdir D node index v)
      })"

definition finddir_fs :: "'d fs_methods \<Rightarrow> addr \<Rightarrow> u8 list \<Rightarrow> 'd vfs \<Rightarrow> ('d vfs \<times> addr) option" where
  "finddir_fs D node name v =
     (if node = NULL then Some (v, NULL)
      else do {
        n \<leftarrow> rd_fs v node;
        Some (if n_flags n AND FS_DIRECTORY = 0 \<or> Mfinddir \<notin> n_ops n then (v, NULL) else op_finddir D node name v)
      })"

definition ioctl_fs :: "'d fs_methods \<Rightarrow> addr \<Rightarrow> u64 \<Rightarrow> addr \<Rightarrow> 'd vfs \<Rightarrow> ('d vfs \<times> int) option" where
  "ioctl_fs D node request argp v =
     (if node = NULL then Some (v, - ENOENT)
      else do { n \<leftarrow> rd_fs v node; Some (if Mioctl \<in> n_ops n then op_ioctl D node request argp v else (v, - ENOTTY)) })"

definition readlink_fs :: "'d fs_methods \<Rightarrow> addr \<Rightarrow> u64 \<Rightarrow> 'd vfs \<Rightarrow> ('d vfs \<times> int \<times> u8 list) option" where
  "readlink_fs D node sz v =
     (if node = NULL then Some (v, - ENOENT, [])
      else do { n \<leftarrow> rd_fs v node; Some (if Mreadlink \<in> n_ops n then op_readlink D node sz v else (v, - EINVAL, [])) })"

section \<open>Reference counts\<close>

definition vfs_lock :: "addr \<Rightarrow> 'd vfs \<Rightarrow> 'd vfs option" where
  "vfs_lock node v = do { n \<leftarrow> rd_fs v node; Some (set_fs node (n\<lparr>n_refcount := n_refcount n + 1\<rparr>) v) }"

definition open_fs :: "'d fs_methods \<Rightarrow> addr \<Rightarrow> u32 \<Rightarrow> 'd vfs \<Rightarrow> 'd vfs option" where
  "open_fs D node flags v =
     (if node = NULL then Some v
      else do {
        n \<leftarrow> rd_fs v node;
        let v = (if 0 \<le> n_refcount n then set_fs node (n\<lparr>n_refcount := n_refcount n + 1\<rparr>) v else v);
        Some (if Mopen \<in> n_ops n then op_open D node flags v else v)
      })"

definition close_fs :: "'d fs_methods \<Rightarrow> addr \<Rightarrow> 'd vfs \<Rightarrow> 'd vfs option" where
  "close_fs D node v =
     (if node = NULL then Some v
      else do {
        n \<leftarrow> rd_fs v node;
        if n_refcount n < 0 then Some v
        else let v = set_fs node (n\<lparr>n_refcount := n_refcount n - 1\<rparr>) v
             in if n_refcount n - 1 = 0
                then let v = (if Mclose \<in> n_ops n then op_close D node v else v)
                     in Some (v\<lparr>v_nodes := (v_nodes v)(node := None)\<rparr>)
                else Some v
      })"

definition clone_fs :: "addr \<Rightarrow> 'd vfs \<Rightarrow> ('d vfs \<times> addr) option" where
  "clone_fs source v =
     (if source = NULL then Some (v, NULL)
      else do {
        n \<leftarrow> rd_fs v source;
        Some (if 0 \<le> n_refcount n then set_fs source (n\<lparr>n_refcount := n_refcount n + 1\<rparr>) v else v, source)
      })"

section \<open>Mounting\<close>

fun subtree :: "mtree \<Rightarrow> nat list \<Rightarrow> mtree option" where
  "subtree t [] = Some t"
| "subtree t (i # is) = (if i < length (m_children t) then subtree (m_children t ! i) is else None)"

text \<open>
  The directory listing of the mount tree: the return value, the bytes written to \<^verbatim>\<open>d_name\<close> and the value of
  \<^verbatim>\<open>d_ino\<close>.
\<close>

definition readdir_mapper :: "fs_node \<Rightarrow> u64 \<Rightarrow> 'd vfs \<Rightarrow> (int \<times> u8 list \<times> u64) option" where
  "readdir_mapper node index v =
     (case n_dir node of None \<Rightarrow> Some (0, [], 0)
      | Some d \<Rightarrow>
         if index = 0 then Some (1, [46, 0], 0)
         else if index = 1 then Some (1, [46, 46, 0], 1)
         else do {
           t \<leftarrow> subtree (v_tree v) d;
           let index = index - 2;
           Some (if unat index < length (m_children t)
                 then let name = ve_name (m_value (m_children t ! unat index))
                      in (1, take (min 256 (length name + 1)) (name @ [0]), index)
                 else (0, [], 0))
         })"

definition vfs_mapper :: fs_node where
  "vfs_mapper = \<lparr> n_mount = NULL, n_mask = 0x16D, n_uid = 0, n_gid = 0, n_flags = FS_DIRECTORY, n_refcount = 0,
     n_ops = {Mreaddir}, n_dir = None \<rparr>"

text \<open>\<open>None\<close> for the state: a fault.  \<open>None\<close> for the node of the tree: the call returns \<^verbatim>\<open>NULL\<close>.\<close>

definition vfs_mount :: "u8 list \<Rightarrow> addr \<Rightarrow> u8 list \<Rightarrow> u8 list \<Rightarrow> 'd vfs \<Rightarrow> ('d vfs \<times> nat list option) option" where
  "vfs_mount path local_root fs_type options v =
     (if path = [] \<or> hd path \<noteq> SEP then Some (v, None)
      else do {
        v \<leftarrow> vfs_lock local_root v;
        let (t, r, is_root) = mount_path path local_root fs_type options (v_tree v);
        let v = v\<lparr>v_tree := t\<rparr>;
        Some (if is_root then v\<lparr>v_root := local_root\<rparr> else v, Some r)
      })"

definition vfs_register :: "u8 list \<Rightarrow> addr \<Rightarrow> 'd vfs \<Rightarrow> ('d vfs \<times> int) option" where
  "vfs_register name callback v = do {
     t \<leftarrow> hashmap_get (v_types v) name;
     if t \<noteq> NULL then Some (v, 1)
     else do { (hm, old) \<leftarrow> hashmap_set (v_types v) name callback; Some (v\<lparr>v_types := hm\<rparr>, 0) }
   }"

definition vfs_mount_type ::
  "(addr \<Rightarrow> u8 list \<Rightarrow> u8 list \<Rightarrow> 'd vfs \<Rightarrow> 'd vfs \<times> addr) \<Rightarrow> u8 list \<Rightarrow> u8 list \<Rightarrow> u8 list \<Rightarrow> 'd vfs \<Rightarrow> ('d vfs \<times> int) option" where
  "vfs_mount_type callback fs_type arg mountpoint v = do {
     t \<leftarrow> hashmap_get (v_types v) fs_type;
     if t = NULL then Some (v, - ENODEV)
     else let (v, n) = callback t arg mountpoint v
          in if n = 1 then Some (v, 0)
             else if n = NULL then Some (v, - EINVAL)
             else do {
               (v, node) \<leftarrow> vfs_mount mountpoint n fs_type arg v;
               Some (v, if node = None then - EINVAL else 0)
             }
   }"

text \<open>The node is made at a fresh address.\<close>

definition map_vfs_directory :: "u8 list \<Rightarrow> addr \<Rightarrow> 'd vfs \<Rightarrow> 'd vfs option" where
  "map_vfs_directory c f v = do {
     (v, e) \<leftarrow> vfs_mount c f [118, 102, 115, 95, 109, 97, 112, 112, 101, 114] [] (set_fs f vfs_mapper v);
     n \<leftarrow> rd_fs v f;
     Some (set_fs f (n\<lparr>n_dir := (if scmp c [SEP] = 0 then Some [] else e)\<rparr>) v)
   }"

definition vfs_install :: "'d \<Rightarrow> 'd vfs option" where
  "vfs_install dev = do {
     types \<leftarrow> hashmap_create 5;
     Some \<lparr> v_nodes = Map.empty, v_root = NULL, v_tree = MNode (fresh_entry [91, 114, 111, 111, 116, 93]) [], v_types = types, v_dev = dev \<rparr>
   }"

section \<open>Opening a path\<close>

text \<open>
  The result is the state, the node (\<^verbatim>\<open>NULL\<close> on failure) and the value of \<^verbatim>\<open>*error\<close>.  A link that is read
  gives its length and the bytes written to the buffer, which has \<open>MAX_SYMLINK_SIZE + 1\<close> bytes: ending the
  string behind a longer length is a fault.  The number of links that may still be followed and
  the rest of the path make the recursion end.
\<close>

function kopen_recur :: "'d fs_methods \<Rightarrow> process_ids \<Rightarrow> u8 list \<Rightarrow> u64 \<Rightarrow> nat \<Rightarrow> u8 list \<Rightarrow> int \<Rightarrow> 'd vfs \<Rightarrow> ('d vfs \<times> addr \<times> int) option"
  and kopen_loop :: "'d fs_methods \<Rightarrow> process_ids \<Rightarrow> u8 list \<Rightarrow> nat \<Rightarrow> nat \<Rightarrow> u64 \<Rightarrow> nat \<Rightarrow> addr \<Rightarrow> nat \<Rightarrow> nat \<Rightarrow> int \<Rightarrow> 'd vfs \<Rightarrow> ('d vfs \<times> addr \<times> int) option"
  and kopen_step :: "'d fs_methods \<Rightarrow> process_ids \<Rightarrow> u8 list \<Rightarrow> nat \<Rightarrow> nat \<Rightarrow> u64 \<Rightarrow> nat \<Rightarrow> addr \<Rightarrow> nat \<Rightarrow> nat \<Rightarrow> int \<Rightarrow> 'd vfs \<Rightarrow> ('d vfs \<times> addr \<times> int) option"
where
  "kopen_recur D pr filename flags symlink_depth relative_to err v =
     (let path = canonicalize_path relative_to filename; path_len = length path
      in if path_len = 1 then do { v \<leftarrow> open_fs D (v_root v) (ucast flags) v; Some (v, v_root v, err) }
         else let (buf, path_offset, path_depth) = path_tokenize path;
                  (node_ptr, path_offset, depth) = get_mount_point (v_root v) (v_tree v) buf path_depth path_offset
              in if node_ptr = NULL then Some (v, NULL, ENOENT)
                 else do {
                   v \<leftarrow> open_fs D node_ptr (ucast flags) v;
                   kopen_loop D pr buf path_len path_depth flags symlink_depth node_ptr path_offset depth err v
                 })"
| "kopen_loop D pr buf path_len path_depth flags symlink_depth node_ptr path_offset depth err v = do {
     n \<leftarrow> rd_fs v node_ptr;
     if n_flags n AND FS_SYMLINK \<noteq> 0 \<and> \<not> (flags AND O_NOFOLLOW \<noteq> 0 \<and> depth = path_depth)
     then if MAX_SYMLINK_DEPTH \<le> symlink_depth then do { v \<leftarrow> close_fs D node_ptr v; Some (v, NULL, ELOOP) }
          else do {
            (v, len, symlink_buf) \<leftarrow> readlink_fs D node_ptr MAX_SYMLINK_SIZE v;
            v \<leftarrow> close_fs D node_ptr v;
            if len < 0 then Some (v, NULL, - len)
            else if len = 0 then Some (v, NULL, ENOENT)
            else if uint MAX_SYMLINK_SIZE < len then None
            else do {
              relpath \<leftarrow> path_untokenize buf depth;
              (v, node_ptr, err) \<leftarrow> kopen_recur D pr (str_at (take (nat len) symlink_buf @ [0]) 0) 0 (symlink_depth + 1) relpath err v;
              if node_ptr = NULL then Some (v, NULL, err)
              else kopen_step D pr buf path_len path_depth flags (symlink_depth + 1) node_ptr path_offset depth err v
            }
          }
     else kopen_step D pr buf path_len path_depth flags symlink_depth node_ptr path_offset depth err v
   }"
| "kopen_step D pr buf path_len path_depth flags symlink_depth node_ptr path_offset depth err v =
     (if path_len \<le> path_offset \<or> depth = path_depth then Some (v, node_ptr, err)
      else do {
        n \<leftarrow> rd_fs v node_ptr;
        if n_flags n AND FS_DIRECTORY = 0 then do { v \<leftarrow> close_fs D node_ptr v; Some (v, NULL, ENOTDIR) }
        else if \<not> has_permission pr (Some n) X_OK then do { v \<leftarrow> close_fs D node_ptr v; Some (v, NULL, EACCES) }
        else do {
          (v, node_next) \<leftarrow> finddir_fs D node_ptr (str_at buf path_offset) v;
          v \<leftarrow> close_fs D node_ptr v;
          if node_next = NULL then Some (v, NULL, ENOENT)
          else do {
            v \<leftarrow> open_fs D node_next (ucast flags) v;
            if depth + 1 < path_depth + 1
            then kopen_loop D pr buf path_len path_depth flags symlink_depth node_next
                   (path_offset + length (str_at buf path_offset) + 1) (depth + 1) err v
            else Some (v, NULL, ENOENT)
          }
        }
      })"
  by pat_completeness auto
termination
  by (relation "inv_image (less_than <*lex*> less_than <*lex*> less_than)
       (\<lambda>x. case x of
          Inl (D, pr, filename, flags, sd, rel, err, v) \<Rightarrow> (MAX_SYMLINK_DEPTH - sd, 1, 0)
        | Inr (Inl (D, pr, buf, path_len, path_depth, flags, sd, node, off, depth, err, v)) \<Rightarrow> (MAX_SYMLINK_DEPTH - sd, 0, 2 * (path_len - off) + 1)
        | Inr (Inr (D, pr, buf, path_len, path_depth, flags, sd, node, off, depth, err, v)) \<Rightarrow> (MAX_SYMLINK_DEPTH - sd, 0, 2 * (path_len - off)))") auto

declare kopen_recur.simps [simp del] kopen_loop.simps [simp del] kopen_step.simps [simp del]

definition kopen_error :: "'d fs_methods \<Rightarrow> process_ids \<Rightarrow> u8 list \<Rightarrow> u32 \<Rightarrow> 'd vfs \<Rightarrow> ('d vfs \<times> addr \<times> int) option" where
  "kopen_error D pr filename flags v = kopen_recur D pr filename (ucast flags) 0 (p_wd_name pr) 0 v"

definition kopen :: "'d fs_methods \<Rightarrow> process_ids \<Rightarrow> u8 list \<Rightarrow> u32 \<Rightarrow> 'd vfs \<Rightarrow> ('d vfs \<times> addr) option" where
  "kopen D pr filename flags v = do { (v, node, err) \<leftarrow> kopen_error D pr filename flags v; Some (v, node) }"

section \<open>Operations on names\<close>

definition file_get_parent :: "'d fs_methods \<Rightarrow> process_ids \<Rightarrow> u8 list \<Rightarrow> 'd vfs \<Rightarrow> ('d vfs \<times> addr \<times> int) option" where
  "file_get_parent D pr path v = kopen_error D pr (path @ [SEP, 46, 46]) 0 v"

definition close_with :: "'d fs_methods \<Rightarrow> addr \<Rightarrow> 'd vfs \<times> 'r \<Rightarrow> ('d vfs \<times> 'r) option" where
  "close_with D node r = do { v \<leftarrow> close_fs D node (fst r); Some (v, snd r) }"

text \<open>The directory a rename takes place in, once both parents are open: the checks and the call.\<close>

definition rename_opened ::
  "'d fs_methods \<Rightarrow> process_ids \<Rightarrow> addr \<Rightarrow> addr \<Rightarrow> u8 list \<Rightarrow> u8 list \<Rightarrow> 'd vfs \<Rightarrow> ('d vfs \<times> int) option" where
  "rename_opened D pr src_parent dest_parent src dest v = do {
     sp \<leftarrow> rd_fs v src_parent;
     dp \<leftarrow> rd_fs v dest_parent;
     if n_mount sp = NULL then Some (v, - EROFS)
     else if n_mount sp \<noteq> n_mount dp then Some (v, - EXDEV)
     else do {
       mnt \<leftarrow> rd_fs v (n_mount sp);
       if Mrename \<notin> n_ops mnt then Some (v, - ENOTSUP)
       else if \<not> has_permission pr (Some sp) (W_OK OR X_OK) then Some (v, - EACCES)
       else if \<not> has_permission pr (Some dp) (W_OK OR X_OK) then Some (v, - EACCES)
       else do {
         src_name \<leftarrow> fs_basename src;
         dest_name \<leftarrow> fs_basename dest;
         if src_name = [] \<or> dest_name = [] then Some (v, - EINVAL)
         else if hd src_name = SEP \<or> hd dest_name = SEP then Some (v, - EINVAL)
         else Some (op_rename D (n_mount sp) src_parent src_name dest_parent dest_name v)
       }
     }
   }"

definition rename_file_fs :: "'d fs_methods \<Rightarrow> process_ids \<Rightarrow> u8 list \<Rightarrow> u8 list \<Rightarrow> 'd vfs \<Rightarrow> ('d vfs \<times> int) option" where
  "rename_file_fs D pr src dest v =
     (if src = [] \<or> dest = [] then Some (v, - ENOENT)
      else do {
        (v, src_parent, err) \<leftarrow> file_get_parent D pr src v;
        if src_parent = NULL then Some (v, - err)
        else do {
          (v, dest_parent, err) \<leftarrow> file_get_parent D pr dest v;
          if dest_parent = NULL then close_with D src_parent (v, - err)
          else do {
            r \<leftarrow> rename_opened D pr src_parent dest_parent src dest v;
            r \<leftarrow> close_with D dest_parent r;
            close_with D src_parent r
          }
        }
      })"

text \<open>The node a method made is the third part of the result of a creation (\<^verbatim>\<open>*out\<close>).\<close>

definition create_file_fs :: "'d fs_methods \<Rightarrow> process_ids \<Rightarrow> u8 list \<Rightarrow> u32 \<Rightarrow> 'd vfs \<Rightarrow> ('d vfs \<times> int \<times> addr) option" where
  "create_file_fs D pr name permission v = do {
     (v, parent, err) \<leftarrow> file_get_parent D pr name v;
     if parent = NULL then Some (v, - err, NULL)
     else do {
       n \<leftarrow> rd_fs v parent;
       if \<not> has_permission pr (Some n) (W_OK OR X_OK) then close_with D parent (v, - EACCES, NULL)
       else if Mcreate \<notin> n_ops n then close_with D parent (v, - EROFS, NULL)
       else do {
         src \<leftarrow> fs_basename name;
         if src = [] \<or> hd src = SEP then close_with D parent (v, - EINVAL, NULL)
         else close_with D parent (op_create D parent src permission v)
       }
     }
   }"

definition unlink_fs :: "'d fs_methods \<Rightarrow> process_ids \<Rightarrow> u8 list \<Rightarrow> 'd vfs \<Rightarrow> ('d vfs \<times> int) option" where
  "unlink_fs D pr name v = do {
     (v, parent, err) \<leftarrow> file_get_parent D pr name v;
     if parent = NULL then Some (v, - err)
     else do {
       n \<leftarrow> rd_fs v parent;
       if \<not> has_permission pr (Some n) (W_OK OR X_OK) then close_with D parent (v, - EACCES)
       else if Munlink \<notin> n_ops n then close_with D parent (v, - EROFS)
       else do {
         src \<leftarrow> fs_basename name;
         if src = [] \<or> hd src = SEP then close_with D parent (v, - EINVAL)
         else close_with D parent (op_unlink D parent src v)
       }
     }
   }"

definition mkdir_fs :: "'d fs_methods \<Rightarrow> process_ids \<Rightarrow> u8 list \<Rightarrow> u32 \<Rightarrow> 'd vfs \<Rightarrow> ('d vfs \<times> int \<times> addr) option" where
  "mkdir_fs D pr name permission v = do {
     (v, parent, err) \<leftarrow> file_get_parent D pr name v;
     if parent = NULL then Some (v, - err, NULL)
     else do {
       n \<leftarrow> rd_fs v parent;
       if Mmkdir \<notin> n_ops n then close_with D parent (v, - EROFS, NULL)
       else do {
         src \<leftarrow> fs_basename name;
         if src = [] \<or> hd src = SEP then close_with D parent (v, - EEXIST, NULL)
         else close_with D parent (op_mkdir D parent src permission v)
       }
     }
   }"

definition symlink_fs :: "'d fs_methods \<Rightarrow> process_ids \<Rightarrow> u8 list \<Rightarrow> u8 list \<Rightarrow> 'd vfs \<Rightarrow> ('d vfs \<times> int) option" where
  "symlink_fs D pr target name v = do {
     (v, parent, err) \<leftarrow> file_get_parent D pr name v;
     if parent = NULL then Some (v, - err)
     else do {
       n \<leftarrow> rd_fs v parent;
       if \<not> has_permission pr (Some n) (W_OK OR X_OK) then close_with D parent (v, - EACCES)
       else if Msymlink \<notin> n_ops n then close_with D parent (v, - EPERM)
       else do {
         src \<leftarrow> fs_basename name;
         if src = [] \<or> hd src = SEP then Some (v, - EINVAL)
         else close_with D parent (op_symlink D parent target src v)
       }
     }
   }"

section \<open>Counting references\<close>

definition refs :: "'d vfs \<Rightarrow> addr \<Rightarrow> int" where
  "refs v p = (case v_nodes v p of None \<Rightarrow> 0 | Some n \<Rightarrow> n_refcount n)"

definition bump :: "addr \<Rightarrow> (addr \<Rightarrow> int) \<Rightarrow> addr \<Rightarrow> int" where
  "bump p r = (if p = NULL \<or> r p < 0 then r else r(p := r p + 1))"

definition unbump :: "addr \<Rightarrow> (addr \<Rightarrow> int) \<Rightarrow> addr \<Rightarrow> int" where
  "unbump p r = (if p = NULL \<or> r p < 0 then r else r(p := r p - 1))"

fun mfiles :: "mtree \<Rightarrow> addr set" where
  "mfiles (MNode e ks) = insert (ve_file e) (\<Union> (mfiles ` set ks))"

definition mounts_ok :: "(addr \<Rightarrow> int) \<Rightarrow> addr \<Rightarrow> mtree \<Rightarrow> bool" where
  "mounts_ok r root t \<longleftrightarrow> (\<forall>q \<in> insert root (mfiles t). q \<noteq> NULL \<longrightarrow> r q \<noteq> 0)"

definition same_mounts :: "'d vfs \<Rightarrow> 'd vfs \<Rightarrow> bool" where
  "same_mounts v v' \<longleftrightarrow> v_root v' = v_root v \<and> v_tree v' = v_tree v"

definition counts :: "'d vfs \<Rightarrow> addr \<Rightarrow> int option" where
  "counts v p = map_option n_refcount (v_nodes v p)"

text \<open>
  What the drivers promise of the nodes: only \<^verbatim>\<open>finddir\<close> makes one, with no reference yet and other than the
  directory itself, none of them changes the reference counts or the mount tree, and \<^verbatim>\<open>readlink\<close> does not
  report more bytes than there is room for.
\<close>

definition methods_ok :: "'d fs_methods \<Rightarrow> bool" where
  "methods_ok D \<longleftrightarrow>
     (\<forall>p f v. counts (op_open D p f v) = counts v \<and> same_mounts v (op_open D p f v)) \<and>
     (\<forall>p v. counts (op_close D p v) = counts v \<and> same_mounts v (op_close D p v)) \<and>
     (\<forall>p n v v' r. op_readlink D p n v = (v', r) \<longrightarrow> counts v' = counts v \<and> same_mounts v v' \<and> fst r \<le> uint n) \<and>
     (\<forall>p name v v' q. op_finddir D p name v = (v', q) \<longrightarrow> same_mounts v v' \<and>
        (q \<noteq> NULL \<longrightarrow> q \<noteq> p) \<and> counts v' = (if q = NULL then counts v else (counts v)(q \<mapsto> refs v q)))"

lemma refs_counts: "refs v p = (case counts v p of None \<Rightarrow> 0 | Some c \<Rightarrow> c)"
  by (simp add: refs_def counts_def split: option.split)

lemma rd_fs_counts: "rd_fs v p = None \<longleftrightarrow> p = NULL \<or> counts v p = None"
  by (simp add: rd_fs_def counts_def)

lemma refs_rd: "p \<noteq> NULL \<Longrightarrow> refs v p \<noteq> 0 \<Longrightarrow> \<exists>n. rd_fs v p = Some n \<and> n_refcount n = refs v p"
  by (auto simp: rd_fs_def refs_def split: option.splits)

lemma counts_set [simp]: "counts (set_fs p n v) = (counts v)(p \<mapsto> n_refcount n)"
  by (auto simp: counts_def set_fs_def)

lemma mounts_set [simp]: "same_mounts w (set_fs p n v) = same_mounts w v"
  by (simp add: same_mounts_def set_fs_def)

lemma same_mounts_refl [simp]: "same_mounts v v"
  by (simp add: same_mounts_def)

lemma same_mounts_trans: "same_mounts u v \<Longrightarrow> same_mounts v w \<Longrightarrow> same_mounts u w"
  by (simp add: same_mounts_def)

lemma unbump_bump [simp]: "unbump p (bump p r) = r"
  by (auto simp: unbump_def bump_def fun_eq_iff)

lemma bump_nonzero: "p \<noteq> NULL \<Longrightarrow> bump p r p \<noteq> 0"
  by (auto simp: bump_def)

lemma bump_null [simp]: "bump NULL r = r"
  by (simp add: bump_def)

lemma bump_keeps: "r q \<noteq> 0 \<Longrightarrow> bump p r q \<noteq> 0"
  by (auto simp: bump_def)

lemma open_fs_refs:
  assumes D: "methods_ok D" and p: "rd_fs v p = Some n"
  shows "\<exists>v'. open_fs D p f v = Some v' \<and> refs v' = bump p (refs v) \<and> same_mounts v v'"
proof -
  have p': "p \<noteq> NULL" "refs v p = n_refcount n" using p by (auto simp: rd_fs_def refs_def split: if_splits)
  define w where "w = (if 0 \<le> n_refcount n then set_fs p (n\<lparr>n_refcount := n_refcount n + 1\<rparr>) v else v)"
  define v' where "v' = (if Mopen \<in> n_ops n then op_open D p f w else w)"
  have w: "refs w = bump p (refs v)" "same_mounts v w"
    using p' by (auto simp: w_def refs_counts bump_def fun_eq_iff)
  have "counts v' = counts w" "same_mounts w v'" using D by (auto simp: v'_def methods_ok_def)
  then have "refs v' = bump p (refs v)" "same_mounts v v'"
    using w by (auto simp: refs_counts fun_eq_iff intro: same_mounts_trans)
  moreover have "open_fs D p f v = Some v'" using p p' by (simp add: open_fs_def v'_def w_def Let_def)
  ultimately show ?thesis by blast
qed

lemma close_fs_refs:
  assumes D: "methods_ok D" and p: "p \<noteq> NULL" "refs v p \<noteq> 0"
  shows "\<exists>v'. close_fs D p v = Some v' \<and> refs v' = unbump p (refs v) \<and> same_mounts v v' \<and>
    (\<forall>q. q \<noteq> p \<longrightarrow> counts v' q = counts v q)"
proof -
  obtain n where n: "rd_fs v p = Some n" "n_refcount n = refs v p" using refs_rd [OF p] by blast
  define w where "w = set_fs p (n\<lparr>n_refcount := n_refcount n - 1\<rparr>) v"
  define u where "u = (if Mclose \<in> n_ops n then op_close D p w else w)"
  have u: "counts u = counts w" "same_mounts w u" using D by (auto simp: u_def methods_ok_def)
  have m: "same_mounts v w" by (simp add: w_def)
  consider "n_refcount n < 0" | "n_refcount n = 1" | "1 < n_refcount n" using n(2) p(2) by linarith
  then show ?thesis
  proof cases
    case 1
    then show ?thesis using n p(1) by (simp add: close_fs_def unbump_def)
  next
    case 2
    let ?v = "u\<lparr>v_nodes := (v_nodes u)(p := None)\<rparr>"
    have "counts ?v = (counts u)(p := None)" by (auto simp: counts_def)
    then have "refs ?v = unbump p (refs v)"
      using 2 n(2) u(1) p(1) by (auto simp: refs_counts unbump_def w_def fun_eq_iff)
    moreover have "same_mounts v ?v" using m u(2) by (simp add: same_mounts_def)
    moreover have "\<forall>q. q \<noteq> p \<longrightarrow> counts ?v q = counts v q"
      using u(1) \<open>counts ?v = (counts u)(p := None)\<close> by (simp add: w_def)
    moreover have "close_fs D p v = Some ?v" using 2 n(1) p(1) by (simp add: close_fs_def u_def w_def Let_def)
    ultimately show ?thesis by blast
  next
    case 3
    have "refs w = unbump p (refs v)" using 3 n(2) p(1) by (auto simp: refs_counts unbump_def w_def fun_eq_iff)
    moreover have "close_fs D p v = Some w" using 3 n(1) p(1) by (simp add: close_fs_def w_def Let_def)
    moreover have "\<forall>q. q \<noteq> p \<longrightarrow> counts w q = counts v q" by (simp add: w_def)
    ultimately show ?thesis using m by blast
  qed
qed

lemma mount_point_loop_file:
  "fst (mount_point_loop buf e at node d best) \<in> insert (fst best) (mfiles node)"
proof (induction buf e at node d best rule: mount_point_loop.induct)
  case (1 buf e at node d best)
  show ?case
  proof (cases "e \<le> at")
    case False
    show ?thesis
    proof (cases "find_child (str_at buf at) (m_children node)")
      case None
      then show ?thesis using False by (subst mount_point_loop.simps) simp
    next
      case (Some i)
      obtain x ks where node: "node = MNode x ks" by (cases node)
      have c: "mfiles (ks ! i) \<subseteq> mfiles node" using find_child_Some [OF Some] node by force
      have "ve_file (m_value (ks ! i)) \<in> mfiles (ks ! i)" by (cases "ks ! i") simp
      then show ?thesis using 1 [OF False Some refl refl] c Some False node
        by (subst mount_point_loop.simps) (auto simp: Let_def split: if_splits)
    qed
  qed (subst mount_point_loop.simps, simp)
qed

lemma mount_point_loop_depth:
  "e = skip_strings buf m at \<Longrightarrow> d + m \<le> P + 1 \<Longrightarrow> snd (snd best) \<le> P \<Longrightarrow>
   snd (snd (mount_point_loop buf e at node d best)) \<le> P"
proof (induction m arbitrary: at node d best)
  case 0
  then show ?case by (subst mount_point_loop.simps) simp
next
  case (Suc m)
  have "snd (snd (mount_point_loop buf e (at + length (str_at buf at) + 1) c (d + 1) b)) \<le> P"
    if "snd (snd b) \<le> P" for c b
    using Suc.prems that by (intro Suc.IH) auto
  then show ?case using Suc.prems(2,3)
    by (subst mount_point_loop.simps) (auto simp: Let_def split: option.split)
qed

lemma zeros_drop:
  "k < length (filter (\<lambda>b. b = 0) (drop p out)) \<Longrightarrow> p + length (str_at out p) < length out \<and>
   out ! (p + length (str_at out p)) = 0 \<and>
   length (filter (\<lambda>b. b = 0) (drop p out)) \<le> length (filter (\<lambda>b. b = 0) (drop (p + length (str_at out p)) out))"
proof -
  assume k: "k < length (filter (\<lambda>b. b = 0) (drop p out))"
  let ?s = "str_at out p"
  let ?r = "dropWhile (\<lambda>b. b \<noteq> 0) (drop p out)"
  have d: "drop p out = ?s @ ?r" by (simp add: str_at_def)
  have z: "filter (\<lambda>b. b = 0) ?s = []" by (auto simp: str_at_def filter_empty_conv dest: set_takeWhileD)
  have f: "filter (\<lambda>b. b = 0) (drop p out) = filter (\<lambda>b. b = 0) ?r" using z d by (metis filter_append append_Nil)
  have ne: "?r \<noteq> []" using k f by force
  have r: "drop (p + length ?s) out = ?r"
    using d by (metis add.commute append_eq_conv_conj drop_drop)
  have "hd ?r = 0" using ne hd_dropWhile [of "\<lambda>b. b \<noteq> 0" "drop p out"] by blast
  moreover have l: "p + length ?s < length out" using r ne by (metis drop_all linorder_not_less)
  ultimately have "out ! (p + length ?s) = 0" using r hd_drop_conv_nth [OF l] by simp
  then show ?thesis using l r f by simp
qed

lemma untokenize_loop_some:
  "k \<le> length (filter (\<lambda>b. b = 0) (drop p out)) \<Longrightarrow> \<exists>out'. untokenize_loop k out p = Some out'"
proof (induction k arbitrary: p out)
  case (Suc k)
  let ?q = "p + length (str_at out p)"
  from Suc.prems have "k < length (filter (\<lambda>b. b = 0) (drop p out))" by simp
  note z = zeros_drop [OF this]
  have "drop ?q out = 0 # drop (Suc ?q) out" using z Cons_nth_drop_Suc [of ?q out] by simp
  moreover have "drop ?q (out[?q := SEP]) = SEP # drop (Suc ?q) out"
    using z Cons_nth_drop_Suc [of ?q "out[?q := SEP]"] by simp
  ultimately have "k \<le> length (filter (\<lambda>b. b = 0) (drop ?q (out[?q := SEP])))"
    using z Suc.prems by simp
  from Suc.IH [OF this] show ?case using z by (simp add: Let_def)
qed simp

definition opened :: "(addr \<Rightarrow> int) \<Rightarrow> 'd vfs \<Rightarrow> ('d vfs \<times> addr \<times> int) option \<Rightarrow> bool" where
  "opened r v res \<longleftrightarrow> (\<exists>v' node err. res = Some (v', node, err) \<and> refs v' = bump node r \<and> same_mounts v v')"

definition zeros :: "u8 list \<Rightarrow> nat" where
  "zeros buf = length (filter (\<lambda>b. b = 0) buf)"

definition holding :: "'d fs_methods \<Rightarrow> (addr \<Rightarrow> int) \<Rightarrow> 'd vfs \<Rightarrow> addr \<Rightarrow> nat \<Rightarrow> nat \<Rightarrow> u8 list \<Rightarrow> bool" where
  "holding D r v node depth path_depth buf \<longleftrightarrow> methods_ok D \<and> mounts_ok r (v_root v) (v_tree v) \<and> node \<noteq> NULL \<and>
     refs v = bump node r \<and> depth \<le> path_depth \<and> path_depth < zeros buf"

lemma holdingD:
  assumes "holding D r v node depth path_depth buf"
  shows "methods_ok D" "mounts_ok r (v_root v) (v_tree v)" "node \<noteq> NULL" "refs v = bump node r" "depth \<le> path_depth" "path_depth < zeros buf"
  using assms by (auto simp: holding_def)

lemma holding_rd:
  assumes "holding D r v node depth path_depth buf"
  shows "\<exists>n. rd_fs v node = Some n"
  using refs_rd [of node v] bump_nonzero [of node r] holdingD(3,4) [OF assms] by auto

lemma release:
  assumes "methods_ok D" "node \<noteq> NULL" "refs v = bump node r"
  shows "\<exists>v'. close_fs D node v = Some v' \<and> refs v' = r \<and> same_mounts v v' \<and> (\<forall>q. q \<noteq> node \<longrightarrow> counts v' q = counts v q)"
  using close_fs_refs [of D node v] bump_nonzero [of node r] assms by auto

lemma release_fails:
  assumes "holding D r v node depth path_depth buf"
  shows "opened r v (do { v \<leftarrow> close_fs D node v; Some (v, NULL, e) })"
  using release [of D node v r] holdingD [OF assms] by (auto simp: opened_def)

lemma opened_mono: "same_mounts u v \<Longrightarrow> opened r v res \<Longrightarrow> opened r u res"
  unfolding opened_def by (blast intro: same_mounts_trans)

lemma path_untokenize_some:
  "depth \<le> path_depth \<Longrightarrow> path_depth < zeros buf \<Longrightarrow> \<exists>rel. path_untokenize buf depth = Some rel"
  using untokenize_loop_some [of "depth - 1" 0 buf] by (auto simp: path_untokenize_def zeros_def)

lemma readlink_refs:
  assumes D: "methods_ok D" and p: "rd_fs v p = Some n"
  shows "\<exists>v' len bs. readlink_fs D p sz v = Some (v', len, bs) \<and> refs v' = refs v \<and> same_mounts v v' \<and> len \<le> uint sz"
proof (cases "Mreadlink \<in> n_ops n")
  case True
  obtain v' len bs where r: "op_readlink D p sz v = (v', len, bs)" by (cases "op_readlink D p sz v")
  then have "counts v' = counts v" "same_mounts v v'" "fst (len, bs) \<le> uint sz" using D unfolding methods_ok_def by blast+
  moreover have "p \<noteq> NULL" using p by (auto simp: rd_fs_def split: if_splits)
  ultimately show ?thesis using r p True by (auto simp: readlink_fs_def refs_counts fun_eq_iff)
next
  case False
  moreover have "p \<noteq> NULL" using p by (auto simp: rd_fs_def split: if_splits)
  ultimately show ?thesis using p by (simp add: readlink_fs_def order.trans [OF _ uint_nonnegative])
qed

lemma finddir_refs:
  assumes D: "methods_ok D" and p: "rd_fs v p = Some n"
  shows "\<exists>v' q. finddir_fs D p name v = Some (v', q) \<and> refs v' = refs v \<and> same_mounts v v' \<and>
    (q \<noteq> NULL \<longrightarrow> q \<noteq> p \<and> counts v' q \<noteq> None)"
proof (cases "n_flags n AND FS_DIRECTORY = 0 \<or> Mfinddir \<notin> n_ops n")
  case False
  obtain v' q where r: "op_finddir D p name v = (v', q)" by (cases "op_finddir D p name v")
  then have c: "counts v' = (if q = NULL then counts v else (counts v)(q \<mapsto> refs v q))" "same_mounts v v'" "q \<noteq> NULL \<longrightarrow> q \<noteq> p"
    using D unfolding methods_ok_def by blast+
  have "refs v' = refs v" using c(1) by (auto simp: refs_counts fun_eq_iff)
  moreover have "q \<noteq> NULL \<longrightarrow> q \<noteq> p \<and> counts v' q \<noteq> None" using c(1,3) by auto
  moreover have "p \<noteq> NULL" using p by (auto simp: rd_fs_def split: if_splits)
  ultimately show ?thesis using r p False c(2) by (auto simp: finddir_fs_def)
next
  case True
  moreover have "p \<noteq> NULL" using p by (auto simp: rd_fs_def split: if_splits)
  ultimately show ?thesis using p by (auto simp: finddir_fs_def)
qed

lemma open_fs_null [simp]: "open_fs D NULL f v = Some v"
  by (simp add: open_fs_def)

lemma mounts_rd:
  assumes "mounts_ok (refs v) (v_root v) (v_tree v)" "q \<in> insert (v_root v) (mfiles (v_tree v))" "q \<noteq> NULL"
  shows "\<exists>n. rd_fs v q = Some n"
  using assms refs_rd [of q v] unfolding mounts_ok_def by blast

lemma kopen_root:
  assumes D: "methods_ok D" and M: "mounts_ok (refs v) (v_root v) (v_tree v)"
  shows "opened (refs v) v (do { v' \<leftarrow> open_fs D (v_root v) f v; Some (v', v_root v', err) })"
proof (cases "v_root v = NULL")
  case False
  then obtain n where "rd_fs v (v_root v) = Some n" using mounts_rd [OF M] by auto
  from open_fs_refs [OF D this, of f] show ?thesis by (auto simp: opened_def same_mounts_def)
qed (simp add: opened_def)

lemma canonical_cut:
  assumes "path = canonicalize_path rel filename"
  shows "str_at (chop path) 0 = []" "length (filter (\<lambda>b. b = SEP) path) < zeros (chop path)"
proof -
  have "path \<noteq> []" "hd path = SEP" using join_path_hd by (simp_all add: assms canonicalize_path_join)
  then show "str_at (chop path) 0 = []" by (cases path) (auto simp: str_at_def chop_def)
  have "length (filter (\<lambda>b. b = SEP) bs) \<le> length (filter (\<lambda>b. b = 0) (map (\<lambda>b. if b = SEP then 0 else b) bs))" for bs :: "u8 list"
    by (induction bs) auto
  then show "length (filter (\<lambda>b. b = SEP) path) < zeros (chop path)" by (simp add: zeros_def chop_def less_Suc_eq_le)
qed

lemma kopen_start:
  assumes D: "methods_ok D" and M: "mounts_ok (refs v) (v_root v) (v_tree v)"
    and path: "path = canonicalize_path rel filename" "path_tokenize path = (buf, off, path_depth)"
    and mp: "get_mount_point (v_root v) (v_tree v) buf path_depth off = (node, off', depth)" "node \<noteq> NULL"
  shows "\<exists>v'. open_fs D node f v = Some v' \<and> same_mounts v v' \<and> holding D (refs v) v' node depth path_depth buf"
proof -
  note c = canonical_cut [OF path(1)]
  have b: "buf = chop path" "off = 1" "path_depth = length (filter (\<lambda>b. b = SEP) path)"
    using path(2) by (simp_all add: path_tokenize_def)
  have "node \<in> insert (v_root v) (mfiles (v_tree v))"
    using mount_point_loop_file [of buf _ off "v_tree v" 1 "(v_root v, off, 0)"] mp(1)
    by (metis fst_conv get_mount_point_def)
  then obtain n where n: "rd_fs v node = Some n" using mounts_rd [OF M] mp(2) by blast
  have "depth \<le> path_depth"
    using mount_point_loop_depth [of "skip_strings buf (path_depth + 1) 0" buf path_depth 1 1 path_depth "(v_root v, off, 0)" "v_tree v"]
      mp(1) c(1) b(1,2) by (simp add: get_mount_point_def)
  moreover obtain v' where "open_fs D node f v = Some v'" "refs v' = bump node (refs v)" "same_mounts v v'"
    using open_fs_refs [OF D n] by blast
  ultimately show ?thesis using D M mp(2) c(2) b by (auto simp: holding_def same_mounts_def)
qed

lemma step_next:
  assumes h: "holding D r v node depth path_depth buf" and lt: "depth < path_depth"
  shows "\<exists>v1 q v2. finddir_fs D node name v = Some (v1, q) \<and> close_fs D node v1 = Some v2 \<and> same_mounts v v2 \<and> refs v2 = r \<and>
    (q \<noteq> NULL \<longrightarrow> (\<exists>v3. open_fs D q f v2 = Some v3 \<and> same_mounts v v3 \<and> holding D r v3 q (depth + 1) path_depth buf))"
proof -
  note hD = holdingD [OF h]
  obtain n where n: "rd_fs v node = Some n" using holding_rd [OF h] by blast
  obtain v1 q where f: "finddir_fs D node name v = Some (v1, q)" "refs v1 = refs v" "same_mounts v v1"
    "q \<noteq> NULL \<longrightarrow> q \<noteq> node \<and> counts v1 q \<noteq> None"
    using finddir_refs [OF hD(1) n, of name] by blast
  obtain v2 where c: "close_fs D node v1 = Some v2" "refs v2 = r" "same_mounts v1 v2" "\<forall>q. q \<noteq> node \<longrightarrow> counts v2 q = counts v1 q"
    using release [OF hD(1,3), of v1 r] f(2) hD(4) by auto
  have m: "same_mounts v v2" using f(3) c(3) by (rule same_mounts_trans)
  have "\<exists>v3. open_fs D q f v2 = Some v3 \<and> same_mounts v v3 \<and> holding D r v3 q (depth + 1) path_depth buf" if "q \<noteq> NULL"
  proof -
    have "rd_fs v2 q \<noteq> None" using f(4) c(4) that by (simp add: rd_fs_counts)
    then obtain n2 where "rd_fs v2 q = Some n2" by blast
    from open_fs_refs [OF hD(1) this, of f] obtain v3 where
      o: "open_fs D q f v2 = Some v3" "refs v3 = bump q r" "same_mounts v2 v3" unfolding c(2) by blast
    have m3: "same_mounts v v3" using m o(3) by (rule same_mounts_trans)
    moreover have "holding D r v3 q (depth + 1) path_depth buf"
      using o(2) hD that lt m3 by (simp add: holding_def same_mounts_def)
    ultimately show ?thesis using o(1) by blast
  qed
  then show ?thesis using f(1) c(1,2) m by blast
qed

lemma kopen_step_holding:
  assumes h: "holding D r v node depth path_depth buf"
    and IH: "\<And>v' q n v1 v2. rd_fs v node = Some n \<Longrightarrow> finddir_fs D node (str_at buf off) v = Some (v1, q) \<Longrightarrow>
      close_fs D node v1 = Some v2 \<Longrightarrow> q \<noteq> NULL \<Longrightarrow> open_fs D q (ucast flags) v2 = Some v' \<Longrightarrow>
      \<not> (path_len \<le> off \<or> depth = path_depth) \<Longrightarrow> n_flags n AND FS_DIRECTORY \<noteq> 0 \<Longrightarrow> has_permission pr (Some n) X_OK \<Longrightarrow>
      holding D r v' q (depth + 1) path_depth buf \<Longrightarrow>
      opened r v' (kopen_loop D pr buf path_len path_depth flags sd q (off + length (str_at buf off) + 1) (depth + 1) err v')"
  shows "opened r v (kopen_step D pr buf path_len path_depth flags sd node off depth err v)"
proof -
  note hD = holdingD [OF h]
  obtain n where n: "rd_fs v node = Some n" using holding_rd [OF h] by blast
  note s = kopen_step.simps [of D pr buf path_len path_depth flags sd node off depth err v]
  show ?thesis
  proof (cases "path_len \<le> off \<or> depth = path_depth")
    case True
    then show ?thesis using hD(4) s by (auto simp: opened_def)
  next
    case at: False
    then have lt: "depth < path_depth" using hD(5) by simp
    show ?thesis
    proof (cases "n_flags n AND FS_DIRECTORY = 0 \<or> \<not> has_permission pr (Some n) X_OK")
      case True
      then show ?thesis using release_fails [OF h] n at s by auto
    next
      case dir: False
      obtain v1 q v2 where f: "finddir_fs D node (str_at buf off) v = Some (v1, q)" "close_fs D node v1 = Some v2"
        "same_mounts v v2" "refs v2 = r" and
        o: "q \<noteq> NULL \<longrightarrow> (\<exists>v3. open_fs D q (ucast flags) v2 = Some v3 \<and> same_mounts v v3 \<and> holding D r v3 q (depth + 1) path_depth buf)"
        using step_next [OF h lt] by blast
      show ?thesis
      proof (cases "q = NULL")
        case True
        then show ?thesis using n at dir f s by (auto simp: opened_def)
      next
        case False
        then obtain v3 where v3: "open_fs D q (ucast flags) v2 = Some v3" "same_mounts v v3" "holding D r v3 q (depth + 1) path_depth buf"
          using o by blast
        have "kopen_step D pr buf path_len path_depth flags sd node off depth err v =
            kopen_loop D pr buf path_len path_depth flags sd q (off + length (str_at buf off) + 1) (depth + 1) err v3"
          using n at dir f False v3(1) lt s by simp
        then show ?thesis using IH [OF n f(1,2) False v3(1) at _ _ v3(3)] dir opened_mono [OF v3(2)] by simp
      qed
    qed
  qed
qed

lemma kopen_link_holding:
  assumes h: "holding D r v node depth path_depth buf" and n: "rd_fs v node = Some n" and sd: "\<not> MAX_SYMLINK_DEPTH \<le> sd"
    and link: "n_flags n AND FS_SYMLINK \<noteq> 0 \<and> \<not> (flags AND O_NOFOLLOW \<noteq> 0 \<and> depth = path_depth)"
    and recur: "\<And>v1 len bs v2 rel. readlink_fs D node MAX_SYMLINK_SIZE v = Some (v1, len, bs) \<Longrightarrow> close_fs D node v1 = Some v2 \<Longrightarrow>
      \<not> len < 0 \<Longrightarrow> len \<noteq> 0 \<Longrightarrow> \<not> uint MAX_SYMLINK_SIZE < len \<Longrightarrow> path_untokenize buf depth = Some rel \<Longrightarrow> mounts_ok (refs v2) (v_root v2) (v_tree v2) \<Longrightarrow>
      opened (refs v2) v2 (kopen_recur D pr (str_at (take (nat len) bs @ [0]) 0) 0 (sd + 1) rel err v2)"
    and step: "\<And>v1 len bs v2 rel v3 q err'. readlink_fs D node MAX_SYMLINK_SIZE v = Some (v1, len, bs) \<Longrightarrow> close_fs D node v1 = Some v2 \<Longrightarrow>
      \<not> len < 0 \<Longrightarrow> len \<noteq> 0 \<Longrightarrow> \<not> uint MAX_SYMLINK_SIZE < len \<Longrightarrow> path_untokenize buf depth = Some rel \<Longrightarrow>
      kopen_recur D pr (str_at (take (nat len) bs @ [0]) 0) 0 (sd + 1) rel err v2 = Some (v3, q, err') \<Longrightarrow> q \<noteq> NULL \<Longrightarrow>
      holding D r v3 q depth path_depth buf \<Longrightarrow>
      opened r v3 (kopen_step D pr buf path_len path_depth flags (sd + 1) q off depth err' v3)"
  shows "opened r v (kopen_loop D pr buf path_len path_depth flags sd node off depth err v)"
proof -
  note hD = holdingD [OF h]
  note s = kopen_loop.simps [of D pr buf path_len path_depth flags sd node off depth err v, unfolded n bind.simps if_P [OF link] if_not_P [OF sd]]
  obtain v1 len bs where rl: "readlink_fs D node MAX_SYMLINK_SIZE v = Some (v1, len, bs)" "refs v1 = refs v" "same_mounts v v1" "len \<le> uint MAX_SYMLINK_SIZE"
    using readlink_refs [OF hD(1) n] by blast
  obtain v2 where c: "close_fs D node v1 = Some v2" "refs v2 = r" "same_mounts v1 v2"
    using release [OF hD(1,3), of v1 r] rl(2) hD(4) by auto
  have m: "same_mounts v v2" using rl(3) c(3) by (rule same_mounts_trans)
  obtain rel where rel: "path_untokenize buf depth = Some rel" using path_untokenize_some [OF hD(5,6)] by blast
  show ?thesis
  proof (cases "len \<le> 0")
    case True
    then show ?thesis using s rl(1) c(1,2) m by (auto simp: opened_def)
  next
    case False
    then have len: "\<not> len < 0" "len \<noteq> 0" "\<not> uint MAX_SYMLINK_SIZE < len" using rl(4) by auto
    have "mounts_ok (refs v2) (v_root v2) (v_tree v2)" using hD(2) c(2) m by (simp add: same_mounts_def)
    from recur [OF rl(1) c(1) len rel this] obtain v3 q err' where
      k: "kopen_recur D pr (str_at (take (nat len) bs @ [0]) 0) 0 (sd + 1) rel err v2 = Some (v3, q, err')"
        "refs v3 = bump q r" "same_mounts v2 v3" unfolding opened_def c(2) by blast
    have m3: "same_mounts v v3" using m k(3) by (rule same_mounts_trans)
    have e: "kopen_loop D pr buf path_len path_depth flags sd node off depth err v =
        (if q = NULL then Some (v3, NULL, err') else kopen_step D pr buf path_len path_depth flags (sd + 1) q off depth err' v3)"
      using s rl(1) c(1) len rel k(1) by simp
    show ?thesis
    proof (cases "q = NULL")
      case True
      then show ?thesis using e k(2) m3 by (auto simp: opened_def)
    next
      case False
      then have "holding D r v3 q depth path_depth buf" using hD k(2) m3 by (simp add: holding_def same_mounts_def)
      from step [OF rl(1) c(1) len rel k(1) False this] show ?thesis using e False opened_mono [OF m3] by simp
    qed
  qed
qed

lemma kopen_recur_mounts:
  assumes D: "methods_ok D" and M: "mounts_ok (refs v) (v_root v) (v_tree v)"
    and loop: "\<And>buf o1 P node o2 d v'. length (canonicalize_path rel filename) \<noteq> 1 \<Longrightarrow>
      path_tokenize (canonicalize_path rel filename) = (buf, o1, P) \<Longrightarrow>
      get_mount_point (v_root v) (v_tree v) buf P o1 = (node, o2, d) \<Longrightarrow> node \<noteq> NULL \<Longrightarrow>
      open_fs D node (ucast flags) v = Some v' \<Longrightarrow> holding D (refs v) v' node d P buf \<Longrightarrow>
      opened (refs v) v' (kopen_loop D pr buf (length (canonicalize_path rel filename)) P flags sd node o2 d err v')"
  shows "opened (refs v) v (kopen_recur D pr filename flags sd rel err v)"
proof -
  let ?path = "canonicalize_path rel filename"
  note s = kopen_recur.simps [of D pr filename flags sd rel err v]
  show ?thesis
  proof (cases "length ?path = 1")
    case True
    then show ?thesis using kopen_root [OF D M] s by (simp add: Let_def)
  next
    case len: False
    obtain buf o1 P where t: "path_tokenize ?path = (buf, o1, P)" by (cases "path_tokenize ?path")
    obtain node o2 d where g: "get_mount_point (v_root v) (v_tree v) buf P o1 = (node, o2, d)"
      by (cases "get_mount_point (v_root v) (v_tree v) buf P o1")
    show ?thesis
    proof (cases "node = NULL")
      case True
      then show ?thesis using s len t g by (simp add: Let_def opened_def)
    next
      case False
      from kopen_start [OF D M refl t g False, of "ucast flags"] obtain v' where
        v': "open_fs D node (ucast flags) v = Some v'" "same_mounts v v'" "holding D (refs v) v' node d P buf" by blast
      have "kopen_recur D pr filename flags sd rel err v = kopen_loop D pr buf (length ?path) P flags sd node o2 d err v'"
        using s len t g False v'(1) by (simp add: Let_def)
      then show ?thesis using loop [OF len t g False v'(1,3)] opened_mono [OF v'(2)] by simp
    qed
  qed
qed

lemma kopen_opened:
  "methods_ok D \<longrightarrow> mounts_ok (refs v) (v_root v) (v_tree v) \<longrightarrow> opened (refs v) v (kopen_recur D pr filename flags sd rel err v)"
  "\<forall>r. holding D r v node depth path_depth buf \<longrightarrow>
     opened r v (kopen_loop D pr buf path_len path_depth flags sd node off depth err v)"
  "\<forall>r. holding D r v node depth path_depth buf \<longrightarrow>
     opened r v (kopen_step D pr buf path_len path_depth flags sd node off depth err v)"
proof (induction D pr filename flags sd rel err v and D pr buf path_len path_depth flags sd node off depth err v
    and D pr buf path_len path_depth flags sd node off depth err v rule: kopen_recur_kopen_loop_kopen_step.induct)
  case (1 D pr filename flags sd rel err v)
  show ?case
  proof (intro impI)
    assume D: "methods_ok D" and M: "mounts_ok (refs v) (v_root v) (v_tree v)"
    show "opened (refs v) v (kopen_recur D pr filename flags sd rel err v)"
    proof (rule kopen_recur_mounts [OF D M])
      show "opened (refs v) v' (kopen_loop D pr buf (length (canonicalize_path rel filename)) P flags sd node o2 d err v')"
        if "length (canonicalize_path rel filename) \<noteq> 1" "path_tokenize (canonicalize_path rel filename) = (buf, o1, P)"
          "get_mount_point (v_root v) (v_tree v) buf P o1 = (node, o2, d)" "node \<noteq> NULL" "open_fs D node (ucast flags) v = Some v'"
          "holding D (refs v) v' node d P buf" for buf o1 P node o2 d v'
        using 1 [OF refl refl that(1) that(2) [symmetric] refl refl that(3) [symmetric] refl refl that(4,5)] that(6) by blast
    qed
  qed
next
  case (2 D pr buf path_len path_depth flags sd node off depth err v)
  show ?case
  proof (intro allI impI)
    fix r assume h: "holding D r v node depth path_depth buf"
    obtain n where n: "rd_fs v node = Some n" using holding_rd [OF h] by blast
    let ?link = "n_flags n AND FS_SYMLINK \<noteq> 0 \<and> \<not> (flags AND O_NOFOLLOW \<noteq> 0 \<and> depth = path_depth)"
    note s = kopen_loop.simps [of D pr buf path_len path_depth flags sd node off depth err v]
    show "opened r v (kopen_loop D pr buf path_len path_depth flags sd node off depth err v)"
    proof (cases ?link)
      case False
      then show ?thesis using 2(3) [OF n False] h s n by auto
    next
      case link: True
      show ?thesis
      proof (cases "MAX_SYMLINK_DEPTH \<le> sd")
        case True
        then show ?thesis using release_fails [OF h] s n link by simp
      next
        case False
        show ?thesis
        proof (rule kopen_link_holding [OF h n False link])
          show "opened (refs v2) v2 (kopen_recur D pr (str_at (take (nat len) bs @ [0]) 0) 0 (sd + 1) rel err v2)"
            if "readlink_fs D node MAX_SYMLINK_SIZE v = Some (v1, len, bs)" "close_fs D node v1 = Some v2" "\<not> len < 0" "len \<noteq> 0" "\<not> uint MAX_SYMLINK_SIZE < len"
              "path_untokenize buf depth = Some rel" "mounts_ok (refs v2) (v_root v2) (v_tree v2)" for v1 len bs v2 rel
            using 2(1) [OF n link False that(1) refl refl that(2-6)] holdingD(1) [OF h] that(7) by blast
          show "opened r v3 (kopen_step D pr buf path_len path_depth flags (sd + 1) q off depth err' v3)"
            if "readlink_fs D node MAX_SYMLINK_SIZE v = Some (v1, len, bs)" "close_fs D node v1 = Some v2" "\<not> len < 0" "len \<noteq> 0" "\<not> uint MAX_SYMLINK_SIZE < len"
              "path_untokenize buf depth = Some rel"
              "kopen_recur D pr (str_at (take (nat len) bs @ [0]) 0) 0 (sd + 1) rel err v2 = Some (v3, q, err')" "q \<noteq> NULL"
              "holding D r v3 q depth path_depth buf" for v1 len bs v2 rel v3 q err'
            using 2(2) [OF n link False that(1) refl refl that(2-7) refl refl that(8)] that(9) by blast
        qed
      qed
    qed
  qed
next
  case (3 D pr buf path_len path_depth flags sd node off depth err v)
  show ?case
  proof (intro allI impI)
    fix r assume h: "holding D r v node depth path_depth buf"
    show "opened r v (kopen_step D pr buf path_len path_depth flags sd node off depth err v)"
    proof (rule kopen_step_holding [OF h])
      show "opened r v' (kopen_loop D pr buf path_len path_depth flags sd q (off + length (str_at buf off) + 1) (depth + 1) err v')"
        if "rd_fs v node = Some n" "finddir_fs D node (str_at buf off) v = Some (v1, q)" "close_fs D node v1 = Some v2" "q \<noteq> NULL"
          "open_fs D q (ucast flags) v2 = Some v'" "\<not> (path_len \<le> off \<or> depth = path_depth)" "n_flags n AND FS_DIRECTORY \<noteq> 0"
          "has_permission pr (Some n) X_OK" "holding D r v' q (depth + 1) path_depth buf" for v' q n v1 v2
        using 3 [OF that(6,1,7) _ that(2) refl that(3-5)] that(8,9) holdingD(5) [OF that(9)] by simp
    qed
  qed
qed

section \<open>Operations on names keep the references\<close>

lemma kopen_error_refs:
  assumes "methods_ok D" "mounts_ok (refs v) (v_root v) (v_tree v)"
  shows "\<exists>v' node err. kopen_error D pr filename flags v = Some (v', node, err) \<and> refs v' = bump node (refs v) \<and> same_mounts v v'"
  using kopen_opened(1) assms unfolding kopen_error_def opened_def by blast

lemma parent_opened:
  assumes "methods_ok D" "mounts_ok (refs v) (v_root v) (v_tree v)"
  shows "\<exists>v' p err. file_get_parent D pr path v = Some (v', p, err) \<and> refs v' = bump p (refs v) \<and> same_mounts v v'"
  using kopen_error_refs [OF assms] by (simp add: file_get_parent_def)

lemma mounts_bump:
  "mounts_ok r root t \<Longrightarrow> mounts_ok (bump p r) root t"
  by (auto simp: mounts_ok_def bump_keeps)

lemma close_with_refs:
  assumes "methods_ok D" "p \<noteq> NULL" "refs v = bump p r"
  shows "\<exists>v'. close_with D p (v, x) = Some (v', x) \<and> refs v' = r"
  using release [OF assms] by (auto simp: close_with_def)

text \<open>The method that removes a name leaves the reference counts.\<close>

definition unlink_method_ok :: "'d fs_methods \<Rightarrow> bool" where
  "unlink_method_ok D \<longleftrightarrow> (\<forall>p s v. counts (fst (op_unlink D p s v)) = counts v)"

lemma counts_refs: "counts v' = counts v \<Longrightarrow> refs v' = refs v"
  by (simp add: refs_counts fun_eq_iff)

lemma bump_rd:
  assumes "p \<noteq> NULL" "refs v = bump p r"
  shows "\<exists>n. rd_fs v p = Some n"
  using refs_rd [of p v] bump_nonzero [of p r] assms by auto

lemma unlink_opened_refs:
  assumes D: "unlink_method_ok D"
  shows "refs (fst (op_unlink D p s v)) = refs v"
  using D counts_refs unfolding unlink_method_ok_def by blast

section \<open>Permission bits\<close>

lemma foldl_groups:
  "foldl (\<lambda>my g. if g = x then my OR gp else my) (m :: u32) gs = (if x \<in> set gs then m OR gp else m)"
  by (induction gs arbitrary: m) (auto simp: or.assoc)

lemma and_eq_iff_bits: "a AND m = a \<longleftrightarrow> (\<forall>i. bit a i \<longrightarrow> bit m i)" for a m :: u32
proof
  show "\<forall>i. bit a i \<longrightarrow> bit m i" if "a AND m = a" using arg_cong [OF that, of bit] by (auto simp: fun_eq_iff bit_and_iff)
  show "a AND m = a" if "\<forall>i. bit a i \<longrightarrow> bit m i" by (rule bit_eqI) (use that in \<open>auto simp: bit_and_iff\<close>)
qed

lemma bits_below_8:
  fixes b :: u32
  assumes "b < 8" "bit b i"
  shows "i < 3"
proof (rule ccontr)
  assume "\<not> i < 3"
  have "b AND mask 3 = b" using assms(1) by (intro less_mask_eq) simp
  then have "bit b i \<longleftrightarrow> bit b i \<and> bit (mask 3 :: u32) i" by (metis bit_and_iff)
  then have "bit b i \<longleftrightarrow> i < 3 \<and> bit b i" by (auto simp: bit_mask_iff)
  then show False using assms(2) \<open>\<not> i < 3\<close> by simp
qed

lemma bit_mask_7: "bit (7 :: u32) i \<longleftrightarrow> i < 3"
proof -
  have "(7 :: u32) = mask 3" by (simp add: mask_eq_exp_minus_1)
  then show ?thesis by (simp only: bit_mask_iff) auto
qed

lemma bit_and_7: "bit (x AND 7) i \<longleftrightarrow> bit x i \<and> i < 3" for x :: u32
  by (simp only: bit_and_iff bit_mask_7)

lemma bit_drop: "bit (drop_bit k x) i \<longleftrightarrow> bit x (i + k)" for x :: u32
  by (simp only: bit_drop_bit_eq comp_def add.commute)

lemma no_real_bit: "b < 8 \<Longrightarrow> b AND 8 = 0" for b :: u32
proof (rule bit_eqI)
  fix i assume b: "b < 8"
  have "(8 :: u32) = 2 ^ 3" by simp
  then have "bit (8 :: u32) i \<longleftrightarrow> i = 3" by (simp only: bit_exp_iff) auto
  then show "bit (b AND 8) i = bit 0 i" using bits_below_8 [OF b, of i] by (auto simp: bit_simps)
qed

lemma if_or: "(if a then x else if b then x else y) = (if a \<or> b then x else y)"
  by simp

lemma has_permission_refcount: "has_permission pr (Some (n\<lparr>n_refcount := c\<rparr>)) b = has_permission pr (Some n) b"
  by (simp add: has_permission_def)

lemma and_1_bit: "b AND 1 = 0 \<longleftrightarrow> \<not> bit b 0" for b :: u32
  by (simp add: and_one_eq bit_0 mod_2_eq_odd)

section \<open>The mount tree keeps its nodes\<close>

lemma mfiles_child: "c \<in> set (m_children t) \<Longrightarrow> mfiles c \<subseteq> mfiles t"
  by (cases t) auto

lemma mfiles_root: "ve_file (m_value t) \<in> mfiles t"
  by (cases t) simp

lemma mount_loop_files:
  "(\<And>e. ve_file (f e) = q) \<Longrightarrow> mfiles (fst (mount_loop p n at f t)) \<subseteq> insert q (insert NULL (mfiles t))"
proof (induction p n at f t rule: mount_loop.induct)
  case (1 p n at f t)
  obtain e ks where t: "t = MNode e ks" by (cases t)
  note s = mount_loop.simps [of p n at f t]
  show ?case
  proof (cases "n \<le> at")
    case True
    then show ?thesis using s t 1(3) by auto
  next
    case False
    let ?at = "at + length (str_at p at) + 1"
    show ?thesis
    proof (cases "find_child (str_at p at) ks")
      case None
      let ?m = "mount_loop p n ?at f (MNode (fresh_entry (str_at p at)) [])"
      have "mfiles (fst ?m) \<subseteq> insert q {NULL}"
        using 1(1) [OF False refl refl, unfolded t mtree.sel, OF None] 1(3) by (simp add: fresh_entry_def insert_commute)
      moreover have "fst (mount_loop p n at f t) = MNode e (ks @ [fst ?m])"
        using s False t None by (simp add: Let_def case_prod_unfold)
      ultimately show ?thesis using t by auto
    next
      case (Some i)
      let ?m = "mount_loop p n ?at f (ks ! i)"
      have i: "i < length ks" using find_child_Some [OF Some] by simp
      have m: "mfiles (fst ?m) \<subseteq> insert q (insert NULL (mfiles (ks ! i)))"
        using 1(2) [OF False refl refl, unfolded t mtree.sel, OF Some] 1(3) by simp
      have "fst (mount_loop p n at f t) = MNode e (ks[i := fst ?m])"
        using s False t Some by (simp add: Let_def case_prod_unfold)
      moreover have "mfiles (ks ! i) \<subseteq> mfiles t" using i t by force
      moreover have "set (ks[i := fst ?m]) \<subseteq> insert (fst ?m) (set ks)" by (rule set_update_subset_insert)
      ultimately show ?thesis using m t by fastforce
    qed
  qed
qed

lemma mount_path_files:
  assumes "mount_path path q ty opts t = (t', r, is_root)"
  shows "mfiles t' \<subseteq> insert q (insert NULL (mfiles t))"
proof (cases "str_at (chop path) 1 = []")
  case True
  then have "t' = MNode (set_mount q ty opts (m_value t)) (m_children t)" using assms by (simp add: mount_path_def Let_def)
  then show ?thesis by (cases t) (auto simp: set_mount_def)
next
  case False
  then have "t' = fst (mount_loop (chop path) (length path) 1 (set_mount q ty opts) t)"
    using assms by (simp add: mount_path_def Let_def case_prod_unfold)
  moreover have "ve_file (set_mount q ty opts e) = q" for e by (simp add: set_mount_def)
  ultimately show ?thesis using mount_loop_files by metis
qed

section \<open>Properties\<close>

text \<open>
  Property C13.  Opening a path never faults and never loses or over-releases a reference: whatever mount
  points, directories and symbolic links are followed and however the search ends, every node has the
  references it had before, and the node that is returned, unless it is immortal, has one more.
\<close>

theorem kopen_references:
  assumes "methods_ok D" "mounts_ok (refs v) (v_root v) (v_tree v)"
  shows "\<exists>v' node err. kopen_error D pr filename flags v = Some (v', node, err) \<and>
    (\<forall>p. refs v' p = refs v p + (if p = node \<and> node \<noteq> NULL \<and> 0 \<le> refs v p then 1 else 0))"
proof -
  obtain v' node err where k: "kopen_error D pr filename flags v = Some (v', node, err)" "refs v' = bump node (refs v)"
    using kopen_error_refs [OF assms] by blast
  then show ?thesis by (auto simp: bump_def)
qed

definition ex_methods :: "nat fs_methods" where
  "ex_methods = \<lparr> op_read = \<lambda>p f n v. (v, 0, []), op_write = \<lambda>p f b v. (v, 0), op_open = \<lambda>p f v. v, op_close = \<lambda>p v. v,
     op_readdir = \<lambda>p i v. (0, [], 0),
     op_finddir = \<lambda>p s v. if p = 2 \<or> s \<noteq> [97] then (v, NULL)
       else if v_nodes v 2 = None then (set_fs 2 (vfs_mapper\<lparr>n_ops := {Mreadlink}, n_flags := FS_SYMLINK\<rparr>) v, 2) else (v, 2),
     op_create = \<lambda>p s m v. (v, 0, NULL), op_mkdir = \<lambda>p s m v. (v, 0, NULL), op_ioctl = \<lambda>p r a v. (v, 0),
     op_chmod = \<lambda>p m v. (v, 0), op_unlink = \<lambda>p s v. (v, 0), op_symlink = \<lambda>p t s v. (v, 0),
     op_readlink = \<lambda>p n v. (v, int (min 2 (unat n)), take (unat n) [47, 97]), op_truncate = \<lambda>p n v. (v, 0), op_selectcheck = \<lambda>p v. 0,
     op_selectwait = \<lambda>p q v. (v, 0), op_chown = \<lambda>p u g v. (v, 0), op_rename = \<lambda>m p s q d v. (v, 0) \<rparr>"

definition ex_vfs :: "nat vfs" where
  "ex_vfs = \<lparr> v_nodes = [1 \<mapsto> vfs_mapper\<lparr>n_refcount := 1, n_ops := {Mfinddir, Msymlink}\<rparr>], v_root = 1,
     v_tree = MNode (fresh_entry []) [], v_types = the (hashmap_create 5), v_dev = 0 \<rparr>"

definition ex_ids :: process_ids where
  "ex_ids = \<lparr> p_user = 0, p_user_group = 0, p_real_user = 0, p_real_user_group = 0, p_groups = [], p_wd_name = [47] \<rparr>"

lemma short_link: "int (min 2 (unat (n :: u64))) \<le> uint n"
  by (simp only: uint_nat of_nat_le_iff min.cobounded2)

lemma ex_methods_ok: "methods_ok ex_methods"
  by (auto simp: methods_ok_def ex_methods_def vfs_mapper_def refs_counts counts_def fun_eq_iff set_fs_def same_mounts_def short_link split: if_splits option.splits)

lemma ex_vfs_mounts: "mounts_ok (refs ex_vfs) (v_root ex_vfs) (v_tree ex_vfs)"
  by (simp add: mounts_ok_def ex_vfs_def refs_def fresh_entry_def)

theorem kopen_references_witness:
  "\<exists>v' node err. kopen_error ex_methods ex_ids [47, 97] 0 ex_vfs = Some (v', node, err) \<and>
    (\<forall>p. refs v' p = refs ex_vfs p + (if p = node \<and> node \<noteq> NULL \<and> 0 \<le> refs ex_vfs p then 1 else 0))"
  by (rule kopen_references [OF ex_methods_ok ex_vfs_mounts])

text \<open>
  Removing a name opens the directory that holds it and releases it on every path: whatever
  the result, no node has more or fewer references after the call than before.
\<close>

theorem unlink_fs_references:
  assumes "methods_ok D" "unlink_method_ok D" "mounts_ok (refs v) (v_root v) (v_tree v)" "name \<noteq> []"
  shows "\<exists>v' e. unlink_fs D pr name v = Some (v', e) \<and> refs v' = refs v"
proof -
  obtain w p err where g: "file_get_parent D pr name v = Some (w, p, err)" "refs w = bump p (refs v)"
    using parent_opened [OF assms(1,3)] by blast
  show ?thesis
  proof (cases "p = NULL")
    case False
    obtain n where n: "rd_fs w p = Some n" using bump_rd [OF False g(2)] by blast
    obtain src where s: "fs_basename name = Some src" using fs_basename_split [OF assms(4)] by blast
    have c: "\<exists>v'. (\<exists>e. close_with D p y = Some (v', e)) \<and> refs v' = refs v" if "refs (fst y) = refs w" for y :: "'a vfs \<times> int"
      using close_with_refs [OF assms(1) False, of "fst y" "refs v" "snd y"] that g(2) by auto
    have u: "refs (fst (op_unlink D p src w)) = refs w" by (rule unlink_opened_refs [OF assms(2)])
    show ?thesis using g(1) n s False c [OF u] c [of "(w, e)" for e] by (simp add: unlink_fs_def)
  qed (use g in \<open>auto simp: unlink_fs_def\<close>)
qed

theorem unlink_fs_references_witness:
  "\<exists>v' e. unlink_fs ex_methods ex_ids [47, 98] ex_vfs = Some (v', e) \<and> refs v' = refs ex_vfs"
  by (rule unlink_fs_references [OF ex_methods_ok _ ex_vfs_mounts]) (simp_all add: unlink_method_ok_def ex_methods_def)

text \<open>
  Making a symbolic link whose name is the root directory fails with \<^verbatim>\<open>EINVAL\<close> and, where the
  root directory can have links made in it and is counted, leaves it with one reference too many: it is opened
  as the parent and not closed.
\<close>

theorem symlink_fs_leaks_parent:
  assumes "rd_fs v (v_root v) = Some n" "0 \<le> n_refcount n" "Mopen \<notin> n_ops n" "Msymlink \<in> n_ops n"
    "has_permission pr (Some n) (W_OK OR X_OK)"
  shows "\<exists>v'. symlink_fs D pr target [SEP] v = Some (v', - EINVAL) \<and> refs v' = (refs v)(v_root v := refs v (v_root v) + 1)"
proof -
  let ?n = "n\<lparr>n_refcount := n_refcount n + 1\<rparr>"
  let ?w = "set_fs (v_root v) ?n v"
  have path: "canonicalize_path wd ([SEP] @ [SEP, 46, 46]) = [SEP]" for wd
    by (simp add: canonicalize_path_def split_tokens.simps canon_token_def PATH_UP_def)
  have root: "v_root v \<noteq> NULL" "refs v (v_root v) = n_refcount n"
    using assms(1) by (auto simp: rd_fs_def refs_def split: if_splits)
  have "open_fs D (v_root v) 0 v = Some ?w" using assms(1-3) root(1) by (simp add: open_fs_def)
  then have g: "file_get_parent D pr [SEP] v = Some (?w, v_root v, 0)"
    using path [of "p_wd_name pr"] by (simp add: file_get_parent_def kopen_error_def kopen_recur.simps set_fs_def)
  have "rd_fs ?w (v_root v) = Some ?n" using root(1) by (simp add: rd_fs_def set_fs_def)
  moreover have "has_permission pr (Some ?n) (W_OK OR X_OK)" using assms(5) by (simp add: has_permission_refcount)
  moreover have "fs_basename [SEP] = Some []" using fs_basename_slashes [of "[SEP]"] by simp
  moreover have "refs ?w = (refs v)(v_root v := refs v (v_root v) + 1)" using root(2) by (auto simp: refs_counts fun_eq_iff)
  ultimately show ?thesis using g root(1) assms(4) by (simp add: symlink_fs_def)
qed

theorem symlink_fs_leaks_parent_witness:
  "\<exists>v'. symlink_fs ex_methods ex_ids [97] [SEP] ex_vfs = Some (v', - EINVAL) \<and>
    refs v' = (refs ex_vfs)(v_root ex_vfs := refs ex_vfs (v_root ex_vfs) + 1)"
  by (rule symlink_fs_leaks_parent [of _ "vfs_mapper\<lparr>n_refcount := 1, n_ops := {Mfinddir, Msymlink}\<rparr>"])
    (simp_all add: rd_fs_def ex_vfs_def has_permission_def ex_ids_def vfs_mapper_def)

text \<open>
  Property C26.  For a request of read, write and execute bits, \<^verbatim>\<open>has_permission\<close> grants it exactly when the
  process is root and asks for no execute bit or for a directory, or when every bit asked for is set in the
  mode for others, or for the owner if the process owns the file, or for the group if the file's group is the
  group or one of the supplementary groups of the process.
\<close>

theorem has_permission_iff:
  assumes "b < 8"
  shows "has_permission pr (Some n) b \<longleftrightarrow>
    (p_user pr = USER_ROOT_UID \<and> (\<not> bit b 0 \<or> n_flags n AND FS_DIRECTORY \<noteq> 0)) \<or>
    (\<forall>i. bit b i \<longrightarrow> bit (n_mask n) i \<or> p_user pr = n_uid n \<and> bit (n_mask n) (i + 6) \<or>
      (p_user_group pr = n_gid n \<or> n_gid n \<in> set (p_groups pr)) \<and> bit (n_mask n) (i + 3))"
  (is "_ = (?root \<or> ?bits)")
proof -
  let ?my = "n_mask n AND 7"
  let ?u = "if p_user pr = n_uid n then ?my OR (drop_bit 6 (n_mask n) AND 7) else ?my"
  let ?g = "if p_user_group pr = n_gid n \<or> n_gid n \<in> set (p_groups pr) then ?u OR (drop_bit 3 (n_mask n) AND 7) else ?u"
  have e: "has_permission pr (Some n) b = (if ?root then True else b AND ?g = b)"
    using assms by (simp add: has_permission_def Let_def no_real_bit foldl_groups and_1_bit if_or split del: if_split cong: if_cong)
  have g: "b AND ?g = b \<longleftrightarrow> ?bits"
    unfolding and_eq_iff_bits using bits_below_8 [OF assms]
    by (auto simp: bit_or_iff bit_and_7 bit_drop)
  show ?thesis unfolding e g by (cases ?root) (simp_all only: if_True if_False simp_thms)
qed

theorem has_permission_iff_witness:
  "has_permission (ex_ids\<lparr>p_user := 5, p_groups := [7]\<rparr>) (Some (vfs_mapper\<lparr>n_mask := 0x20, n_gid := 7\<rparr>)) R_OK"
proof -
  have lt: "R_OK < 8" by (simp add: R_OK_def)
  have b: "i = 2" if "bit R_OK i" for i
  proof -
    have "\<not> bit R_OK 0" "\<not> bit R_OK 1" by (simp_all add: R_OK_def bit_numeral_rec)
    then have "i \<noteq> 0" "i \<noteq> 1" using that by metis+
    then show ?thesis using bits_below_8 [OF lt that] by linarith
  qed
  have "bit (0x20 :: u32) (2 + 3)" by (simp add: bit_numeral_rec)
  then show ?thesis using lt by (subst has_permission_iff) (auto dest!: b simp: ex_ids_def)
qed

text \<open>
  Mounting a node that has references, or may have them, keeps the mount tree sound: every
  node the tree or the root shortcut names has a reference, so that opening and closing never frees it.
\<close>

theorem vfs_mount_keeps_mounts:
  assumes "mounts_ok (refs v) (v_root v) (v_tree v)" "rd_fs v q = Some n" "0 \<le> n_refcount n"
  shows "\<exists>v' r. vfs_mount path q ty opts v = Some (v', r) \<and> mounts_ok (refs v') (v_root v') (v_tree v')"
proof (cases "path = [] \<or> hd path \<noteq> SEP")
  case False
  have q: "q \<noteq> NULL" "refs v q = n_refcount n" using assms(2) by (auto simp: rd_fs_def refs_def split: if_splits)
  let ?w = "set_fs q (n\<lparr>n_refcount := n_refcount n + 1\<rparr>) v"
  have w: "vfs_lock q v = Some ?w" "v_tree ?w = v_tree v" "v_root ?w = v_root v"
    using assms(2) by (simp_all add: vfs_lock_def set_fs_def)
  have r: "refs ?w = bump q (refs v)" using q assms(3) by (auto simp: refs_counts bump_def fun_eq_iff)
  obtain t path' is_root where m: "mount_path path q ty opts (v_tree v) = (t, path', is_root)"
    by (cases "mount_path path q ty opts (v_tree v)")
  have "mounts_ok (refs ?w) root t" if "root = q \<or> root = v_root v" for root
    using mount_path_files [OF m] assms(1) that bump_nonzero [OF q(1), of "refs v"] bump_keeps [of "refs v"] q(1)
    unfolding r mounts_ok_def by blast
  moreover have "refs (u\<lparr>v_tree := x, v_root := y\<rparr>) = refs u" "refs (u\<lparr>v_tree := x\<rparr>) = refs u" for u :: "'a vfs" and x y
    by (simp_all add: refs_def fun_eq_iff)
  moreover have "vfs_mount path q ty opts v =
      Some (if is_root then ?w\<lparr>v_tree := t, v_root := q\<rparr> else ?w\<lparr>v_tree := t\<rparr>, Some path')"
    using False w m by (simp add: vfs_mount_def Let_def)
  ultimately show ?thesis using w(3) by (cases is_root) simp_all
qed (use assms in \<open>auto simp: vfs_mount_def\<close>)

theorem vfs_mount_keeps_mounts_witness:
  "\<exists>v' r. vfs_mount [47, 100] 1 [] [] ex_vfs = Some (v', r) \<and> mounts_ok (refs v') (v_root v') (v_tree v')"
  by (rule vfs_mount_keeps_mounts [OF ex_vfs_mounts, of _ "vfs_mapper\<lparr>n_refcount := 1, n_ops := {Mfinddir, Msymlink}\<rparr>"])
    (simp_all add: rd_fs_def ex_vfs_def vfs_mapper_def)

end
