(* ===== verification/Kgzip.thy ===== *)
theory Kgzip
  imports Razion_Prelude
begin

text \<open>
  The gzip/DEFLATE decompressor of \<^verbatim>\<open>kernel/misc/gzip.c\<close>: bit reader, canonical Huffman tables and their
  decoder, the window of the last 32K bytes, the three kinds of block and the gzip header.

  The input is the list of the bytes from the input pointer on, the output the list of the bytes written so
  far.  Reading past the input, indexing a table out of its bounds and a loop that never ends are \<open>None\<close>.
\<close>

unbundle bit_operations_syntax

section \<open>State\<close>

record gz =
  bit_buffer :: u8
  buffer_size :: nat
  gz_input :: "u8 list"
  gz_output :: "u8 list"
  ring_pointer :: u64
  ring_data :: "u8 list"

record huff =
  h_counts :: "nat list"
  h_symbols :: "nat list"

type_synonym 'a reader = "gz \<Rightarrow> ('a \<times> gz) option"

definition read_byte :: "u8 reader" where
  "read_byte g = (case gz_input g of [] \<Rightarrow> None | b # bs \<Rightarrow> Some (b, g\<lparr>gz_input := bs\<rparr>))"

definition gz_write :: "u8 \<Rightarrow> gz \<Rightarrow> gz" where
  "gz_write byte g = g\<lparr>gz_output := gz_output g @ [byte]\<rparr>"

definition read_16le :: "u16 reader" where
  "read_16le g = do {
     (a, g) \<leftarrow> read_byte g;
     (b, g) \<leftarrow> read_byte g;
     Some (ucast a OR push_bit 8 (ucast b), g)
   }"

definition read_bit :: "bool reader" where
  "read_bit g = do {
     g \<leftarrow> (if buffer_size g = 0 then do { (b, g) \<leftarrow> read_byte g; Some (g\<lparr>bit_buffer := b, buffer_size := 8\<rparr>) } else Some g);
     Some (odd (bit_buffer g), g\<lparr>bit_buffer := drop_bit 1 (bit_buffer g), buffer_size := buffer_size g - 1\<rparr>)
   }"

fun read_bits_from :: "nat \<Rightarrow> nat \<Rightarrow> u32 \<Rightarrow> u32 reader" where
  "read_bits_from bit_no 0 out g = Some (out, g)"
| "read_bits_from bit_no (Suc n) out g = do {
     (b, g) \<leftarrow> read_bit g;
     read_bits_from (bit_no + 1) n (out OR push_bit bit_no (of_bool b)) g
   }"

definition read_bits :: "nat \<Rightarrow> u32 reader" where
  "read_bits count = read_bits_from 0 count 0"

section \<open>Huffman tables\<close>

fun count_lengths :: "nat list \<Rightarrow> nat list \<Rightarrow> nat list option" where
  "count_lengths [] counts = Some counts"
| "count_lengths (l # ls) counts = (if l < 16 then count_lengths ls (counts[l := counts ! l + 1]) else None)"

fun huff_offsets :: "nat list \<Rightarrow> nat \<Rightarrow> nat list" where
  "huff_offsets [] count = []"
| "huff_offsets (c # cs) count = count # huff_offsets cs (count + c)"

fun order_symbols :: "nat \<Rightarrow> nat list \<Rightarrow> nat list \<Rightarrow> nat list \<Rightarrow> nat list option" where
  "order_symbols i [] offsets symbols = Some symbols"
| "order_symbols i (l # ls) offsets symbols =
     (if l = 0 then order_symbols (i + 1) ls offsets symbols
      else if offsets ! l < length symbols
      then order_symbols (i + 1) ls (offsets[l := offsets ! l + 1]) (symbols[offsets ! l := i])
      else None)"

text \<open>The structure that is filled in holds arbitrary symbols before.\<close>

definition build_huffman :: "nat list \<Rightarrow> nat list \<Rightarrow> huff option" where
  "build_huffman lengths symbols = do {
     counts \<leftarrow> count_lengths lengths (replicate 16 0);
     let counts = counts[0 := 0];
     symbols \<leftarrow> order_symbols 0 lengths (huff_offsets counts 0) symbols;
     Some \<lparr> h_counts = counts, h_symbols = symbols \<rparr>
   }"

definition fixed_length_lengths :: "nat list" where
  "fixed_length_lengths = replicate 144 8 @ replicate 112 9 @ replicate 24 7 @ replicate 8 8"

definition fixed_dist_lengths :: "nat list" where
  "fixed_dist_lengths = replicate 30 5"

definition build_fixed :: "(huff \<times> huff) option" where
  "build_fixed = do {
     lens \<leftarrow> build_huffman fixed_length_lengths (replicate 288 0);
     dists \<leftarrow> build_huffman fixed_dist_lengths (replicate 288 0);
     Some (lens, dists)
   }"

function decode_loop :: "huff \<Rightarrow> nat \<Rightarrow> int \<Rightarrow> int \<Rightarrow> nat reader" where
  "decode_loop h i count cur g =
     (if 0 \<le> cur
      then if i < 16
           then do {
             (b, g) \<leftarrow> read_bit g;
             decode_loop h (i + 1) (count + int (h_counts h ! i)) (2 * cur + of_bool b - int (h_counts h ! i)) g
           }
           else None
      else if 0 \<le> count + cur \<and> nat (count + cur) < length (h_symbols h)
      then Some (h_symbols h ! nat (count + cur), g)
      else None)"
  by pat_completeness auto
termination by (relation "measure (\<lambda>(h, i, count, cur, g). 16 - i)") auto

declare decode_loop.simps [simp del]

definition decode :: "huff \<Rightarrow> nat reader" where
  "decode h = decode_loop h 1 0 0"

section \<open>The window\<close>

definition emit :: "u8 \<Rightarrow> gz \<Rightarrow> gz" where
  "emit byte g =
     gz_write byte (g\<lparr>ring_data := (ring_data g)[unat (ring_pointer g) := byte], ring_pointer := (ring_pointer g + 1) AND 0x7FFF\<rparr>)"

definition peek :: "u32 \<Rightarrow> gz \<Rightarrow> gz" where
  "peek offset g =
     (let byte = ring_data g ! unat ((ring_pointer g + 0x8000 - ucast offset) AND 0x7FFF)
      in gz_write byte (g\<lparr>ring_data := (ring_data g)[unat (ring_pointer g) := byte], ring_pointer := (ring_pointer g + 1) AND 0x7FFF\<rparr>))"

section \<open>Blocks\<close>

definition lens :: "nat list" where
  "lens = [3, 4, 5, 6, 7, 8, 9, 10, 11, 13, 15, 17, 19, 23, 27, 31, 35, 43, 51, 59, 67, 83, 99, 115, 131, 163, 195, 227, 258]"

definition lext :: "nat list" where
  "lext = [0, 0, 0, 0, 0, 0, 0, 0, 1, 1, 1, 1, 2, 2, 2, 2, 3, 3, 3, 3, 4, 4, 4, 4, 5, 5, 5, 5, 0]"

definition dists :: "nat list" where
  "dists = [1, 2, 3, 4, 5, 7, 9, 13, 17, 25, 33, 49, 65, 97, 129, 193, 257, 385, 513, 769, 1025, 1537, 2049, 3073,
     4097, 6145, 8193, 12289, 16385, 24577]"

definition dext :: "nat list" where
  "dext = [0, 0, 0, 0, 1, 1, 2, 2, 3, 3, 4, 4, 5, 5, 6, 6, 7, 7, 8, 8, 9, 9, 10, 10, 11, 11, 12, 12, 13, 13]"

text \<open>One round of the loop: \<open>False\<close> ends it.\<close>

definition inflate_symbol :: "huff \<Rightarrow> huff \<Rightarrow> bool reader" where
  "inflate_symbol huff_len huff_dist g = do {
     (symbol, g) \<leftarrow> decode huff_len g;
     if symbol < 256 then Some (True, emit (of_nat symbol) g)
     else if symbol = 256 then Some (False, g)
     else if symbol - 257 < length lext then do {
       (x, g) \<leftarrow> read_bits (lext ! (symbol - 257)) g;
       let len = x + of_nat (lens ! (symbol - 257));
       (distance, g) \<leftarrow> decode huff_dist g;
       if distance < length dext then do {
         (x, g) \<leftarrow> read_bits (dext ! distance) g;
         let offset = x + of_nat (dists ! distance);
         Some (True, (peek offset ^^ unat len) g)
       }
       else None
     }
     else None
   }"

partial_function (option) inflate :: "huff \<Rightarrow> huff \<Rightarrow> gz \<Rightarrow> gz option" where
  "inflate huff_len huff_dist g = do {
     (more, g) \<leftarrow> inflate_symbol huff_len huff_dist g;
     if more then inflate huff_len huff_dist g else Some g
   }"

definition clens :: "nat list" where
  "clens = [16, 17, 18, 0, 8, 7, 9, 6, 10, 5, 11, 4, 12, 3, 13, 2, 14, 1, 15]"

fun read_clengths :: "nat list \<Rightarrow> nat list \<Rightarrow> nat list reader" where
  "read_clengths [] lengths g = Some (lengths, g)"
| "read_clengths (c # cs) lengths g = do {
     (x, g) \<leftarrow> read_bits 3 g;
     read_clengths cs (lengths[c := unat x]) g
   }"

text \<open>A repeated length: the value and the number of times, at least one.\<close>

definition read_rep :: "nat \<Rightarrow> nat list \<Rightarrow> nat \<Rightarrow> (nat \<times> nat) reader" where
  "read_rep symbol lengths count g =
     (if symbol = 16 then
        if count = 0 then None
        else do { (x, g) \<leftarrow> read_bits 2 g; Some ((lengths ! (count - 1), unat x + 3), g) }
      else if symbol = 17 then do { (x, g) \<leftarrow> read_bits 3 g; Some ((0, unat x + 3), g) }
      else if symbol = 18 then do { (x, g) \<leftarrow> read_bits 7 g; Some ((0, unat x + 11), g) }
      else Some ((symbol, 1), g))"

fun put_rep :: "nat \<Rightarrow> nat \<Rightarrow> nat \<Rightarrow> nat list \<Rightarrow> nat list option" where
  "put_rep rep 0 count lengths = Some lengths"
| "put_rep rep (Suc n) count lengths = (if count < length lengths then put_rep rep n (count + 1) (lengths[count := rep]) else None)"

function read_lengths :: "huff \<Rightarrow> nat \<Rightarrow> nat \<Rightarrow> nat list \<Rightarrow> nat list reader" where
  "read_lengths codes needed count lengths g =
     (if count < needed then do {
        (symbol, g) \<leftarrow> decode codes g;
        ((rep, n), g) \<leftarrow> read_rep symbol lengths count g;
        lengths \<leftarrow> put_rep rep n count lengths;
        if n = 0 then None else read_lengths codes needed (count + n) lengths g
      }
      else Some (lengths, g))"
  by pat_completeness auto
termination by (relation "measure (\<lambda>(codes, needed, count, lengths, g). needed - count)") auto

declare read_lengths.simps [simp del]

text \<open>The tables of a dynamic block are on the stack: \<open>stk\<close> is what their symbols are before.\<close>

definition decode_huffman :: "(nat \<Rightarrow> nat list) \<Rightarrow> gz \<Rightarrow> gz option" where
  "decode_huffman stk g = do {
     (x, g) \<leftarrow> read_bits 5 g;
     let literals = 257 + unat x;
     (x, g) \<leftarrow> read_bits 5 g;
     let distances = 1 + unat x;
     (x, g) \<leftarrow> read_bits 4 g;
     let clengths = 4 + unat x;
     (lengths, g) \<leftarrow> read_clengths (take clengths clens) (replicate 320 0) g;
     codes \<leftarrow> build_huffman (take 19 lengths) (stk 0);
     (lengths, g) \<leftarrow> read_lengths codes (literals + distances) 0 lengths g;
     huff_len \<leftarrow> build_huffman (take literals lengths) (stk 1);
     huff_dist \<leftarrow> build_huffman (take distances (drop literals lengths)) (stk 2);
     inflate huff_len huff_dist g
   }"

fun emit_bytes :: "nat \<Rightarrow> gz \<Rightarrow> gz option" where
  "emit_bytes 0 g = Some g"
| "emit_bytes (Suc n) g = do { (b, g) \<leftarrow> read_byte g; emit_bytes n (emit b g) }"

definition uncompressed :: "int reader" where
  "uncompressed g = do {
     (len, g) \<leftarrow> read_16le (g\<lparr>bit_buffer := 0, buffer_size := 0\<rparr>);
     (nlen, g) \<leftarrow> read_16le g;
     if nlen \<noteq> NOT len then Some (1, g)
     else do { g \<leftarrow> emit_bytes (unat len) g; Some (0, g) }
   }"

partial_function (option) deflate_loop :: "(nat \<Rightarrow> nat list) \<Rightarrow> huff \<Rightarrow> huff \<Rightarrow> gz \<Rightarrow> (int \<times> gz) option" where
  "deflate_loop stk fixed_lengths fixed_dists g = do {
     (is_final, g) \<leftarrow> read_bit g;
     (ty, g) \<leftarrow> read_bits 2 g;
     if ty = 3 then Some (1, g)
     else do {
       g \<leftarrow> (if ty = 0 then do { (r, g) \<leftarrow> uncompressed g; Some g }
            else if ty = 1 then inflate fixed_lengths fixed_dists g
            else decode_huffman stk g);
       if is_final then Some (0, g) else deflate_loop stk fixed_lengths fixed_dists g
     }
   }"

definition deflate_decompress :: "(nat \<Rightarrow> nat list) \<Rightarrow> int reader" where
  "deflate_decompress stk g = do {
     (fixed_lengths, fixed_dists) \<leftarrow> build_fixed;
     deflate_loop stk fixed_lengths fixed_dists (g\<lparr>bit_buffer := 0, buffer_size := 0\<rparr>)
   }"

section \<open>The gzip header\<close>

abbreviation (input) GZIP_FLAG_HCRC :: u8 where "GZIP_FLAG_HCRC \<equiv> 2"
abbreviation (input) GZIP_FLAG_EXTR :: u8 where "GZIP_FLAG_EXTR \<equiv> 4"
abbreviation (input) GZIP_FLAG_NAME :: u8 where "GZIP_FLAG_NAME \<equiv> 8"
abbreviation (input) GZIP_FLAG_COMM :: u8 where "GZIP_FLAG_COMM \<equiv> 16"

definition read_32le :: "u32 reader" where
  "read_32le g = do {
     (a, g) \<leftarrow> read_byte g;
     (b, g) \<leftarrow> read_byte g;
     (c, g) \<leftarrow> read_byte g;
     (d, g) \<leftarrow> read_byte g;
     Some (push_bit 24 (ucast d) OR push_bit 16 (ucast c) OR push_bit 8 (ucast b) OR ucast a, g)
   }"

fun skip_bytes :: "nat \<Rightarrow> gz \<Rightarrow> gz option" where
  "skip_bytes 0 g = Some g"
| "skip_bytes (Suc n) g = do { (b, g) \<leftarrow> read_byte g; skip_bytes n g }"

definition skip_string :: "gz \<Rightarrow> gz option" where
  "skip_string g =
     (case dropWhile (\<lambda>b. b \<noteq> 0) (gz_input g) of [] \<Rightarrow> None | b # bs \<Rightarrow> Some (g\<lparr>gz_input := bs\<rparr>))"

definition skip_fields :: "u8 \<Rightarrow> gz \<Rightarrow> gz option" where
  "skip_fields flags g = do {
     g \<leftarrow> (if flags AND GZIP_FLAG_EXTR \<noteq> 0 then do { (n, g) \<leftarrow> read_16le g; skip_bytes (unat n) g } else Some g);
     g \<leftarrow> (if flags AND GZIP_FLAG_NAME \<noteq> 0 then skip_string g else Some g);
     g \<leftarrow> (if flags AND GZIP_FLAG_COMM \<noteq> 0 then skip_string g else Some g);
     if flags AND GZIP_FLAG_HCRC \<noteq> 0 then do { (crc16, g) \<leftarrow> read_16le g; Some g } else Some g
   }"

definition gzip_decompress :: "(nat \<Rightarrow> nat list) \<Rightarrow> int reader" where
  "gzip_decompress stk g = do {
     (b, g) \<leftarrow> read_byte g;
     if b \<noteq> 0x1F then Some (1, g)
     else do {
       (b, g) \<leftarrow> read_byte g;
       if b \<noteq> 0x8B then Some (1, g)
       else do {
         (cm, g) \<leftarrow> read_byte g;
         if cm \<noteq> 8 then Some (1, g)
         else do {
           (flags, g) \<leftarrow> read_byte g;
           (mtime, g) \<leftarrow> read_32le g;
           (xflags, g) \<leftarrow> read_byte g;
           (os, g) \<leftarrow> read_byte g;
           g \<leftarrow> skip_fields flags g;
           (status, g) \<leftarrow> deflate_decompress stk g;
           (crc32, g) \<leftarrow> read_32le g;
           (dsize, g) \<leftarrow> read_32le g;
           Some (status, g)
         }
       }
     }
   }"

section \<open>The stream of bits\<close>

definition byte_bits :: "u8 \<Rightarrow> bool list" where
  "byte_bits b = map (bit b) [0..<8]"

definition gz_bits :: "gz \<Rightarrow> bool list" where
  "gz_bits g = map (bit (bit_buffer g)) [0..<buffer_size g] @ concat (map byte_bits (gz_input g))"

definition same_window :: "gz \<Rightarrow> gz \<Rightarrow> bool" where
  "same_window g g' \<longleftrightarrow> gz_output g' = gz_output g \<and> ring_pointer g' = ring_pointer g \<and> ring_data g' = ring_data g"

lemma same_window_refl [simp]: "same_window g g"
  by (simp add: same_window_def)

lemma same_window_trans: "same_window f g \<Longrightarrow> same_window g h \<Longrightarrow> same_window f h"
  by (simp add: same_window_def)

lemma bits_cons:
  fixes x :: u8
  assumes "0 < n"
  shows "map (bit x) [0..<n] = odd x # map (bit (drop_bit 1 x)) [0..<n - 1]"
proof -
  have "map (bit (drop_bit 1 x)) [0..<n - 1] = map (bit x) (map Suc [0..<n - 1])"
    by (simp add: bit_drop_bit_eq comp_def)
  also have "map Suc [0..<n - 1] = [1..<n]" using assms by (simp add: map_Suc_upt)
  finally have e: "map (bit (drop_bit 1 x)) [0..<n - 1] = map (bit x) [1..<n]" .
  have "[0..<n] = 0 # [1..<n]" using assms by (simp add: upt_conv_Cons)
  then show ?thesis by (simp only: e list.map bit_0)
qed

lemma read_bit_bits:
  assumes "gz_bits g = b # bs"
  shows "\<exists>g'. read_bit g = Some (b, g') \<and> gz_bits g' = bs \<and> same_window g g'"
proof (cases "buffer_size g = 0")
  case False
  then show ?thesis using assms bits_cons [of "buffer_size g" "bit_buffer g"]
    by (simp add: read_bit_def gz_bits_def same_window_def)
next
  case True
  then obtain x xs where x: "gz_input g = x # xs" using assms by (cases "gz_input g") (auto simp: gz_bits_def)
  have "byte_bits x = odd x # map (bit (drop_bit 1 x)) [0..<7]"
    unfolding byte_bits_def by (subst bits_cons) simp_all
  then show ?thesis using assms True x
    by (simp add: read_bit_def gz_bits_def same_window_def read_byte_def)
qed

lemma read_bit_none: "gz_bits g = [] \<Longrightarrow> read_bit g = None"
  by (cases "gz_input g") (auto simp: gz_bits_def read_bit_def read_byte_def byte_bits_def)

lemma push_bit_or:
  fixes bs :: "bool list"
  assumes "length bs < 32"
  shows "(horner_sum of_bool 2 bs :: u32) OR push_bit (length bs) (of_bool b) = horner_sum of_bool 2 (bs @ [b])"
proof (rule bit_word_eqI)
  fix i assume i: "i < LENGTH(32)"
  show "bit ((horner_sum of_bool 2 bs :: u32) OR push_bit (length bs) (of_bool b)) i = bit (horner_sum of_bool 2 (bs @ [b]) :: u32) i"
    using i assms
    by (cases "i < length bs"; cases "i = length bs")
      (auto simp: bit_or_iff bit_horner_sum_bit_word_iff bit_push_bit_iff nth_append bit_of_bool_iff simp del: horner_sum_append)
qed

lemma read_bits_from_bits:
  "gz_bits g = bs @ rest \<Longrightarrow> length pre + length bs \<le> 32 \<Longrightarrow>
   \<exists>g'. read_bits_from (length pre) (length bs) (horner_sum of_bool 2 pre) g = Some (horner_sum of_bool 2 (pre @ bs), g') \<and>
     gz_bits g' = rest \<and> same_window g g'"
proof (induction bs arbitrary: pre g)
  case (Cons b bs)
  then obtain g1 where g1: "read_bit g = Some (b, g1)" "gz_bits g1 = bs @ rest" "same_window g g1"
    using read_bit_bits [of g b "bs @ rest"] by auto
  from Cons.IH [OF g1(2), of "pre @ [b]"] Cons.prems(2) obtain g' where
    g': "read_bits_from (length (pre @ [b])) (length bs) (horner_sum of_bool 2 (pre @ [b])) g1 =
      Some (horner_sum of_bool 2 ((pre @ [b]) @ bs), g')" "gz_bits g' = rest" "same_window g1 g'" by auto
  have "read_bits_from (length pre) (length (b # bs)) (horner_sum of_bool 2 pre) g = Some (horner_sum of_bool 2 (pre @ b # bs), g')"
    using g1(1) g'(1) push_bit_or [of pre b] Cons.prems(2) by (simp del: horner_sum_append)
  then show ?case using g'(2) same_window_trans [OF g1(3) g'(3)] by blast
qed simp

lemma read_bits_bits:
  assumes "gz_bits g = bs @ rest" "length bs = n" "n \<le> 32"
  shows "\<exists>g'. read_bits n g = Some (horner_sum of_bool 2 bs, g') \<and> gz_bits g' = rest \<and> same_window g g'"
  using read_bits_from_bits [of g bs rest "[]"] assms by (simp add: read_bits_def)

definition lsb :: "nat \<Rightarrow> nat \<Rightarrow> bool list" where
  "lsb n v = map (bit v) [0..<n]"

lemma length_lsb [simp]: "length (lsb n v) = n"
  by (simp add: lsb_def)

lemma read_bits_value:
  assumes "gz_bits g = lsb n v @ rest" "n \<le> 32" "v < 2 ^ n"
  shows "\<exists>g'. read_bits n g = Some (of_nat v, g') \<and> gz_bits g' = rest \<and> same_window g g'"
proof -
  have "horner_sum of_bool 2 (lsb n v) = (of_nat v :: u32)"
  proof (rule bit_word_eqI)
    fix i assume i: "i < LENGTH(32)"
    have "bit v i \<Longrightarrow> i < n"
    proof (rule ccontr)
      assume "bit v i" "\<not> i < n"
      have "take_bit n v = v" using assms(3) by (simp add: take_bit_nat_eq_self_iff)
      then show False using \<open>bit v i\<close> \<open>\<not> i < n\<close> bit_take_bit_iff [of n v i] by simp
    qed
    then show "bit (horner_sum of_bool 2 (lsb n v) :: u32) i = bit (of_nat v :: u32) i"
      using i by (auto simp: bit_horner_sum_bit_word_iff lsb_def bit_of_nat_iff)
  qed
  then show ?thesis using read_bits_bits [OF assms(1) length_lsb assms(2)] by simp
qed

section \<open>Canonical codes\<close>

text \<open>
  The canonical code of RFC 1951: the codes of one length are consecutive numbers in the order of the symbols,
  and the first of them follows the last code of the length before, with a zero appended.
\<close>

definition len_count :: "nat list \<Rightarrow> nat \<Rightarrow> nat" where
  "len_count L l = (if l = 0 then 0 else count_list L l)"

fun first_code :: "nat list \<Rightarrow> nat \<Rightarrow> nat" where
  "first_code L 0 = 0"
| "first_code L (Suc l) = 2 * (first_code L l + len_count L l)"

definition code_value :: "nat list \<Rightarrow> nat \<Rightarrow> nat" where
  "code_value L s = first_code L (L ! s) + count_list (take s L) (L ! s)"

definition code_bits :: "nat list \<Rightarrow> nat \<Rightarrow> bool list" where
  "code_bits L s = rev (lsb (L ! s) (code_value L s))"

definition coded :: "nat list \<Rightarrow> nat \<Rightarrow> bool" where
  "coded L s \<longleftrightarrow> s < length L \<and> 0 < L ! s"

text \<open>Lengths a decoder table can hold: at most 15 bits, and no more codes of a length than fit.\<close>

definition lengths_ok :: "nat list \<Rightarrow> bool" where
  "lengths_ok L \<longleftrightarrow> list_all (\<lambda>l. l < 16) L \<and> length L \<le> 288 \<and> (\<forall>l \<in> set [1..<16]. first_code L l + len_count L l \<le> 2 ^ l)"

definition code_start :: "nat list \<Rightarrow> nat \<Rightarrow> nat" where
  "code_start L l = (\<Sum>k < l. len_count L k)"

definition slot :: "nat list \<Rightarrow> nat \<Rightarrow> nat" where
  "slot L s = code_start L (L ! s) + count_list (take s L) (L ! s)"

lemma count_lengths_spec:
  "list_all (\<lambda>l. l < 16) L \<Longrightarrow> length c = 16 \<Longrightarrow>
   \<exists>c'. count_lengths L c = Some c' \<and> length c' = 16 \<and> (\<forall>l < 16. c' ! l = c ! l + count_list L l)"
proof (induction L arbitrary: c)
  case (Cons x L)
  from Cons.IH [of "c[x := c ! x + 1]"] Cons.prems obtain c' where
    "count_lengths L (c[x := c ! x + 1]) = Some c'" "length c' = 16" "\<forall>l < 16. c' ! l = c[x := c ! x + 1] ! l + count_list L l" by auto
  then show ?case using Cons.prems by (auto simp: nth_list_update)
qed simp

lemma huff_offsets_nth: "i < length cs \<Longrightarrow> huff_offsets cs n ! i = n + sum_list (take i cs)"
proof (induction cs arbitrary: n i)
  case (Cons c cs)
  then show ?case by (cases i) auto
qed simp

lemma length_huff_offsets [simp]: "length (huff_offsets cs n) = length cs"
  by (induction cs arbitrary: n) auto

lemma sum_take:
  "i \<le> length cs \<Longrightarrow> (\<And>k. k < i \<Longrightarrow> cs ! k = f k) \<Longrightarrow> sum_list (take i cs) = (\<Sum>k < i. f k)" for f :: "nat \<Rightarrow> nat"
proof (induction i)
  case (Suc i)
  then show ?case by (simp add: take_Suc_conv_app_nth)
qed simp

lemma code_start_Suc: "code_start L (Suc l) = code_start L l + len_count L l"
  by (simp add: code_start_def)

lemma code_start_mono: "l \<le> m \<Longrightarrow> code_start L l \<le> code_start L m"
  by (induction m) (auto simp: code_start_Suc le_Suc_eq)

lemma count_take_less: "s < length L \<Longrightarrow> count_list (take s L) (L ! s) < count_list L (L ! s)"
proof -
  assume s: "s < length L"
  have "count_list L (L ! s) = count_list (take s L) (L ! s) + count_list (drop s L) (L ! s)"
    by (metis append_take_drop_id count_list_append)
  moreover have "drop s L = L ! s # drop (Suc s) L" using s by (rule Cons_nth_drop_Suc [symmetric])
  ultimately show ?thesis by simp
qed

lemma count_take_mono: "s < t \<Longrightarrow> t < length L \<Longrightarrow> L ! s = x \<Longrightarrow> count_list (take s L) x < count_list (take t L) x"
  using count_take_less [of s "take t L"] by (simp add: min_def)

lemma slot_bound:
  assumes "coded L s"
  shows "code_start L (L ! s) \<le> slot L s" "slot L s < code_start L (Suc (L ! s))"
  using assms count_take_less [of s L] by (auto simp: slot_def coded_def code_start_Suc len_count_def)

lemma slot_inj:
  assumes "coded L s" "coded L t" "s \<noteq> t"
  shows "slot L s \<noteq> slot L t"
proof (cases "L ! s = L ! t")
  case True
  consider "s < t" | "t < s" using assms(3) by linarith
  then show ?thesis
    using count_take_mono [of s t L "L ! s"] count_take_mono [of t s L "L ! s"] assms True
    by cases (auto simp: slot_def coded_def)
next
  case False
  consider "Suc (L ! s) \<le> L ! t" | "Suc (L ! t) \<le> L ! s" using False by linarith
  then show ?thesis
  proof cases
    case 1
    then show ?thesis using slot_bound(2) [OF assms(1)] slot_bound(1) [OF assms(2)] code_start_mono [OF 1, of L] by linarith
  next
    case 2
    then show ?thesis using slot_bound(2) [OF assms(2)] slot_bound(1) [OF assms(1)] code_start_mono [OF 2, of L] by linarith
  qed
qed

lemma order_symbols_spec:
  assumes "list_all (\<lambda>l. l < 16) L"
  shows "L = pre @ ls \<Longrightarrow> length offs = 16 \<Longrightarrow> (\<forall>l. 0 < l \<and> l < 16 \<longrightarrow> offs ! l = code_start L l + count_list pre l) \<Longrightarrow>
    (\<forall>s. coded L s \<longrightarrow> slot L s < length syms) \<Longrightarrow>
    \<exists>S. order_symbols (length pre) ls offs syms = Some S \<and> length S = length syms \<and>
      (\<forall>s. coded L s \<and> length pre \<le> s \<longrightarrow> S ! slot L s = s) \<and>
      (\<forall>p. (\<forall>s. coded L s \<and> length pre \<le> s \<longrightarrow> p \<noteq> slot L s) \<longrightarrow> S ! p = syms ! p)"
proof (induction ls arbitrary: pre offs syms)
  case Nil
  then show ?case by (auto simp: coded_def)
next
  case (Cons l ls)
  have nth: "L ! length pre = l" "length pre < length L" "take (length pre) L = pre" using Cons.prems(1) by auto
  have l16: "l < 16" using assms Cons.prems(1) by simp
  show ?case
  proof (cases "l = 0")
    case True
    have nc: "\<not> coded L (length pre)" using True nth by (simp add: coded_def)
    then have ge: "coded L s \<and> length pre \<le> s \<longleftrightarrow> coded L s \<and> Suc (length pre) \<le> s" for s
      by (metis Suc_leI Suc_leD le_neq_implies_less)
    have p: "L = (pre @ [l]) @ ls" "\<forall>k. 0 < k \<and> k < 16 \<longrightarrow> offs ! k = code_start L k + count_list (pre @ [l]) k"
      using Cons.prems(1,3) True by simp_all
    from Cons.IH [OF p(1) Cons.prems(2) p(2) Cons.prems(4)] True show ?thesis by (simp add: ge)
  next
    case False
    have c: "coded L (length pre)" using False nth by (simp add: coded_def)
    have sl: "slot L (length pre) = offs ! l" using Cons.prems(3) False l16 nth by (simp add: slot_def)
    define syms' where "syms' = syms[offs ! l := length pre]"
    have in_syms: "offs ! l < length syms" using Cons.prems(4) c sl by metis
    have o: "\<forall>k. 0 < k \<and> k < 16 \<longrightarrow> offs[l := offs ! l + 1] ! k = code_start L k + count_list (pre @ [l]) k"
      using Cons.prems(2,3) l16 by (auto simp: nth_list_update)
    from Cons.IH [of "pre @ [l]" "offs[l := offs ! l + 1]" syms'] Cons.prems o obtain S where
      S: "order_symbols (Suc (length pre)) ls (offs[l := offs ! l + 1]) syms' = Some S" "length S = length syms'"
        "\<forall>s. coded L s \<and> Suc (length pre) \<le> s \<longrightarrow> S ! slot L s = s"
        "\<forall>p. (\<forall>s. coded L s \<and> Suc (length pre) \<le> s \<longrightarrow> p \<noteq> slot L s) \<longrightarrow> S ! p = syms' ! p"
      by (auto simp: syms'_def)
    have "S ! slot L (length pre) = syms' ! slot L (length pre)"
      using S(4) slot_inj [OF c] by (metis Suc_n_not_le_n)
    then have here: "S ! slot L (length pre) = length pre" using sl in_syms by (simp add: syms'_def)
    have all: "S ! slot L s = s" if "coded L s" "length pre \<le> s" for s
      using S(3) here that by (cases "s = length pre") auto
    have other: "S ! p = syms ! p" if "\<forall>s. coded L s \<and> length pre \<le> s \<longrightarrow> p \<noteq> slot L s" for p
    proof -
      have "p \<noteq> offs ! l" using that c sl by force
      moreover have "S ! p = syms' ! p" using S(4) that by (meson Suc_leD)
      ultimately show ?thesis by (simp add: syms'_def)
    qed
    have "order_symbols (length pre) (l # ls) offs syms = Some S" using S(1) False in_syms by (simp add: syms'_def)
    then show ?thesis using S(2) all other by (auto simp: syms'_def)
  qed
qed

lemma build_huffman_spec:
  assumes "list_all (\<lambda>l. l < 16) L" "length L \<le> length syms"
  shows "\<exists>h. build_huffman L syms = Some h \<and> length (h_counts h) = 16 \<and> (\<forall>l < 16. h_counts h ! l = len_count L l) \<and>
    length (h_symbols h) = length syms \<and> (\<forall>s. coded L s \<longrightarrow> slot L s < length syms \<and> h_symbols h ! slot L s = s)"
proof -
  obtain c where c: "count_lengths L (replicate 16 0) = Some c" "length c = 16" "\<forall>l < 16. c ! l = count_list L l"
    using count_lengths_spec [OF assms(1), of "replicate 16 0"] by auto
  define c0 where "c0 = c[0 := 0]"
  have c0: "length c0 = 16" "\<forall>l < 16. c0 ! l = len_count L l"
    using c(2,3) by (auto simp: c0_def len_count_def nth_list_update)
  have offs: "\<forall>l. 0 < l \<and> l < 16 \<longrightarrow> huff_offsets c0 0 ! l = code_start L l + count_list [] l"
    using c0 sum_take [of _ c0 "len_count L"] by (simp add: huff_offsets_nth code_start_def)
  have tot: "code_start L 16 \<le> length L"
  proof -
    have "code_start L 16 \<le> (\<Sum>k < 16. count_list L k)" unfolding code_start_def len_count_def by (intro sum_mono) simp
    also have "\<dots> = length L" using assms(1) by (intro sum_count_set) (auto simp: list_all_iff)
    finally show ?thesis .
  qed
  have lt: "slot L s < length syms" if "coded L s" for s
  proof -
    have "L ! s < 16" using that assms(1) by (simp add: coded_def list_all_length)
    then show ?thesis using slot_bound(2) [OF that] code_start_mono [of "Suc (L ! s)" 16 L] tot assms(2) by linarith
  qed
  from order_symbols_spec [OF assms(1), of "[]" L "huff_offsets c0 0" syms] offs c0(1) lt obtain S where
    S: "order_symbols 0 L (huff_offsets c0 0) syms = Some S" "length S = length syms" "\<forall>s. coded L s \<longrightarrow> S ! slot L s = s" by auto
  have "build_huffman L syms = Some \<lparr> h_counts = c0, h_symbols = S \<rparr>"
    using c(1) S(1) by (simp add: build_huffman_def c0_def Let_def)
  then show ?thesis using c0 S(2,3) lt by simp
qed

lemma first_code_mono: "j < l \<Longrightarrow> 2 ^ (l - j) * (first_code L j + len_count L j) \<le> first_code L l"
proof (induction l)
  case (Suc l)
  show ?case
  proof (cases "j = l")
    case False
    then have "2 ^ (l - j) * (first_code L j + len_count L j) \<le> first_code L l" using Suc by simp
    moreover have "2 ^ (Suc l - j) = 2 * (2 ^ (l - j) :: nat)" using Suc.prems False by (simp add: Suc_diff_le)
    ultimately show ?thesis by simp
  qed simp
qed simp

lemma code_value_bound:
  assumes "lengths_ok L" "coded L s"
  shows "code_value L s < 2 ^ (L ! s)" "L ! s < 16"
    "first_code L (L ! s) \<le> code_value L s" "code_value L s < first_code L (L ! s) + len_count L (L ! s)"
proof -
  show l: "L ! s < 16" using assms by (simp add: lengths_ok_def coded_def list_all_length)
  show le: "first_code L (L ! s) \<le> code_value L s" by (simp add: code_value_def)
  show lt: "code_value L s < first_code L (L ! s) + len_count L (L ! s)"
    using assms(2) count_take_less [of s L] by (simp add: code_value_def coded_def len_count_def)
  have "first_code L (L ! s) + len_count L (L ! s) \<le> 2 ^ (L ! s)"
    using assms l by (auto simp: lengths_ok_def coded_def)
  then show "code_value L s < 2 ^ (L ! s)" using lt by linarith
qed

lemma div_pow_step:
  fixes V :: nat
  assumes "j < l"
  shows "V div 2 ^ (l - Suc j) = 2 * (V div 2 ^ (l - j)) + of_bool (bit V (l - Suc j))"
proof -
  have "(2 :: nat) ^ (l - j) = 2 ^ (l - Suc j) * 2" using assms by (metis Suc_diff_Suc power_Suc2)
  then have "V div 2 ^ (l - j) = V div 2 ^ (l - Suc j) div 2" by (simp add: div_mult2_eq)
  moreover have "of_bool (bit V (l - Suc j)) = (V div 2 ^ (l - Suc j)) mod 2"
    by (simp add: bit_iff_odd mod_2_eq_odd)
  ultimately show ?thesis by (simp only: mult_div_mod_eq)
qed

lemma decode_loop_done:
  "cur < 0 \<Longrightarrow> count + cur = int q \<Longrightarrow> q < length (h_symbols h) \<Longrightarrow> decode_loop h i count cur g = Some (h_symbols h ! q, g)"
  by (subst decode_loop.simps) simp

lemma decode_loop_code:
  assumes h: "\<forall>l < 16. h_counts h ! l = len_count L l" and l: "l < 16"
    and V: "first_code L l \<le> V" "V < first_code L l + len_count L l"
    and S: "code_start L l + (V - first_code L l) < length (h_symbols h)"
  shows "j \<le> l \<Longrightarrow> gz_bits g = map (\<lambda>k. bit V (l - Suc k)) [j..<l] @ rest \<Longrightarrow>
    \<exists>g'. decode_loop h (Suc j) (int (code_start L (Suc j)))
        (int (V div 2 ^ (l - j)) - int (first_code L j) - int (len_count L j)) g =
      Some (h_symbols h ! (code_start L l + (V - first_code L l)), g') \<and> gz_bits g' = rest \<and> same_window g g'"
proof (induction "l - j" arbitrary: j g)
  case 0
  then have j: "j = l" by simp
  have "int (code_start L (Suc l)) + (int V - int (first_code L l) - int (len_count L l)) = int (code_start L l + (V - first_code L l))"
    using V by (simp add: code_start_Suc)
  from decode_loop_done [OF _ this S] show ?case using V(2) 0(3) j by simp
next
  case (Suc d)
  then have j: "j < l" by simp
  let ?cur = "int (V div 2 ^ (l - j)) - int (first_code L j) - int (len_count L j)"
  let ?b = "bit V (l - Suc j)"
  have "2 ^ (l - j) * (first_code L j + len_count L j) \<le> V" using first_code_mono [OF j, of L] V(1) by linarith
  then have "first_code L j + len_count L j \<le> V div 2 ^ (l - j)" by (simp add: less_eq_div_iff_mult_less_eq mult.commute)
  then have cur: "0 \<le> ?cur" by simp
  have "[j..<l] = j # [Suc j..<l]" using j by (rule upt_conv_Cons)
  then obtain g1 where g1: "read_bit g = Some (?b, g1)" "gz_bits g1 = map (\<lambda>k. bit V (l - Suc k)) [Suc j..<l] @ rest" "same_window g g1"
    using read_bit_bits [of g ?b] Suc.prems(2) by auto
  have next_cur: "2 * ?cur + of_bool ?b - int (h_counts h ! Suc j) =
      int (V div 2 ^ (l - Suc j)) - int (first_code L (Suc j)) - int (len_count L (Suc j))"
    using div_pow_step [OF j, of V] h j l by simp
  have next_count: "int (code_start L (Suc j)) + int (h_counts h ! Suc j) = int (code_start L (Suc (Suc j)))"
    using h j l by (simp add: code_start_Suc [of L "Suc j"])
  have d: "d = l - Suc j" "Suc j \<le> l" using Suc.hyps(2) j by linarith+
  from Suc.hyps(1) [OF d g1(2)] obtain g' where
    g': "decode_loop h (Suc (Suc j)) (int (code_start L (Suc (Suc j))))
        (int (V div 2 ^ (l - Suc j)) - int (first_code L (Suc j)) - int (len_count L (Suc j))) g1 =
      Some (h_symbols h ! (code_start L l + (V - first_code L l)), g')" "gz_bits g' = rest" "same_window g1 g'"
    by blast
  have "decode_loop h (Suc j) (int (code_start L (Suc j))) ?cur g =
      decode_loop h (Suc (Suc j)) (int (code_start L (Suc j)) + int (h_counts h ! Suc j)) (2 * ?cur + of_bool ?b - int (h_counts h ! Suc j)) g1"
    using cur j l g1(1) by (subst decode_loop.simps) simp
  then have "decode_loop h (Suc j) (int (code_start L (Suc j))) ?cur g = Some (h_symbols h ! (code_start L l + (V - first_code L l)), g')"
    unfolding next_cur next_count g'(1) .
  then show ?case using g'(2) same_window_trans [OF g1(3) g'(3)] by blast
qed

lemma decode_code_bits:
  assumes L: "lengths_ok L" and h: "build_huffman L syms = Some h" "length syms = 288" and s: "coded L s"
    and g: "gz_bits g = code_bits L s @ rest"
  shows "\<exists>g'. decode h g = Some (s, g') \<and> gz_bits g' = rest \<and> same_window g g'"
proof -
  have l16: "list_all (\<lambda>l. l < 16) L" "length L \<le> length syms" using L h(2) by (auto simp: lengths_ok_def)
  from build_huffman_spec [OF this] h(1) have b: "\<forall>l < 16. h_counts h ! l = len_count L l"
    "slot L s < length (h_symbols h)" "h_symbols h ! slot L s = s" using s by auto
  note v = code_value_bound [OF L s]
  have sl: "code_start L (L ! s) + (code_value L s - first_code L (L ! s)) = slot L s"
    by (simp add: code_value_def slot_def)
  have "code_bits L s = map (\<lambda>k. bit (code_value L s) (L ! s - Suc k)) [0..<L ! s]"
    by (rule nth_equalityI) (simp_all add: code_bits_def lsb_def rev_nth)
  then have g0: "gz_bits g = map (\<lambda>k. bit (code_value L s) (L ! s - Suc k)) [0..<L ! s] @ rest" using g by simp
  have z: "code_value L s div 2 ^ (L ! s) = 0" using v(1) by simp
  have "code_start L (Suc 0) = 0" "len_count L 0 = 0" by (simp_all add: code_start_def len_count_def)
  then show ?thesis using decode_loop_code [OF b(1) v(2-4), of 0 g rest] g0 b(2,3) z by (simp add: sl decode_def)
qed

section \<open>The window\<close>

definition window_ok :: "gz \<Rightarrow> bool" where
  "window_ok g \<longleftrightarrow> length (ring_data g) = 32768 \<and> unat (ring_pointer g) = length (gz_output g) mod 32768 \<and>
     (\<forall>k < length (gz_output g). length (gz_output g) \<le> k + 32768 \<longrightarrow> ring_data g ! (k mod 32768) = gz_output g ! k)"

lemma and_7FFF: "unat (w AND 0x7FFF) = unat w mod 32768" for w :: u64
proof -
  have "(0x7FFF :: u64) = mask 15" by (simp add: mask_eq_exp_minus_1)
  then have "w AND 0x7FFF = take_bit 15 w" by (simp only: take_bit_eq_mask)
  then have "unat (w AND 0x7FFF) = take_bit 15 (unat w)" by (simp only: unsigned_take_bit_eq)
  then show ?thesis by (simp add: take_bit_eq_mod)
qed

lemma mod_neq_close:
  fixes a b N :: nat
  assumes "a < b" "b < a + N"
  shows "a mod N \<noteq> b mod N"
proof
  assume "a mod N = b mod N"
  then have "N dvd b - a" using assms(1) mod_eq_dvd_iff_nat [of a b N] by (simp add: eq_commute)
  then have "N \<le> b - a" using assms(1) by (intro dvd_imp_le) auto
  then show False using assms by linarith
qed

lemma window_push:
  assumes "window_ok g"
  shows "window_ok (gz_write byte (g\<lparr>ring_data := (ring_data g)[unat (ring_pointer g) := byte], ring_pointer := (ring_pointer g + 1) AND 0x7FFF\<rparr>))"
proof -
  let ?n = "length (gz_output g)"
  let ?d = "(ring_data g)[?n mod 32768 := byte]"
  have w: "length (ring_data g) = 32768" "unat (ring_pointer g) = ?n mod 32768"
    "\<And>k. k < ?n \<Longrightarrow> ?n \<le> k + 32768 \<Longrightarrow> ring_data g ! (k mod 32768) = gz_output g ! k"
    using assms by (auto simp: window_ok_def)
  have "ring_pointer g + 1 = of_nat (?n mod 32768 + 1)" using arg_cong [OF w(2), of "of_nat :: nat \<Rightarrow> u64"] by simp
  moreover have "?n mod 32768 + 1 < 2 ^ 64" using mod_less_divisor [of 32768 ?n, OF zero_less_numeral] by simp
  ultimately have "unat (ring_pointer g + 1) = ?n mod 32768 + 1" using unat_of_nat_64 by metis
  then have p: "unat ((ring_pointer g + 1) AND 0x7FFF) = (?n + 1) mod 32768"
    by (simp add: and_7FFF mod_Suc_eq)
  have "?d ! (k mod 32768) = (gz_output g @ [byte]) ! k" if "k < ?n + 1" "?n + 1 \<le> k + 32768" for k
  proof (cases "k = ?n")
    case False
    then have "k mod 32768 \<noteq> ?n mod 32768" using that by (intro mod_neq_close) auto
    then show ?thesis using that False w(3) by (simp add: nth_append)
  qed (simp add: w(1))
  then show ?thesis using w(1,2) p by (simp add: window_ok_def gz_write_def)
qed

lemma emit_window: "window_ok g \<Longrightarrow> window_ok (emit b g) \<and> gz_output (emit b g) = gz_output g @ [b] \<and> gz_bits (emit b g) = gz_bits g \<and>
    gz_input (emit b g) = gz_input g \<and> buffer_size (emit b g) = buffer_size g"
  using window_push [of g b] by (simp add: emit_def gz_write_def gz_bits_def)

lemma peek_window:
  assumes w: "window_ok g" and d: "0 < d" "d \<le> length (gz_output g)" "d \<le> 32768"
  shows "window_ok (peek (of_nat d) g) \<and> gz_output (peek (of_nat d) g) = gz_output g @ [gz_output g ! (length (gz_output g) - d)] \<and>
    gz_bits (peek (of_nat d) g) = gz_bits g"
proof -
  let ?n = "length (gz_output g)"
  let ?i = "(ring_pointer g + 0x8000 - ucast (of_nat d :: u32)) AND 0x7FFF"
  have p: "unat (ring_pointer g) = ?n mod 32768" using w by (simp add: window_ok_def)
  have rp: "ring_pointer g = of_nat (?n mod 32768)" using arg_cong [OF p, of "of_nat :: nat \<Rightarrow> u64"] by simp
  have "unat (of_nat d :: u32) = d" using d(3) by (simp add: unsigned_of_nat take_bit_nat_eq_self_iff)
  then have ud: "ucast (of_nat d :: u32) = (of_nat d :: u64)" using of_nat_unat [of "of_nat d :: u32", where 'a = u64] by simp
  have "ring_pointer g + 0x8000 - ucast (of_nat d :: u32) = of_nat (?n mod 32768 + 32768 - d)"
    using d(3) by (simp add: ud rp of_nat_diff)
  moreover have "?n mod 32768 + 32768 - d < 2 ^ 64" using mod_less_divisor [of 32768 ?n, OF zero_less_numeral] by simp
  ultimately have "unat ?i = (?n mod 32768 + 32768 - d) mod 32768"
    using unat_of_nat_64 and_7FFF by metis
  also have "\<dots> = (?n - d) mod 32768"
  proof -
    have "(?n mod 32768 + 32768 - d) mod 32768 = (?n mod 32768 + (32768 - d)) mod 32768" using d(3) by simp
    also have "\<dots> = (?n + (32768 - d)) mod 32768" by (simp add: mod_add_left_eq)
    also have "\<dots> = ((?n - d) + 32768) mod 32768" using d by (simp add: add.commute)
    finally show ?thesis by simp
  qed
  finally have i: "ring_data g ! unat ?i = gz_output g ! (?n - d)" using w d by (simp add: window_ok_def)
  show ?thesis using window_push [OF w, of "ring_data g ! unat ?i"] i by (simp add: peek_def Let_def gz_write_def gz_bits_def)
qed

fun lz_copy :: "nat \<Rightarrow> nat \<Rightarrow> u8 list \<Rightarrow> u8 list" where
  "lz_copy 0 d out = out"
| "lz_copy (Suc n) d out = lz_copy n d (out @ [out ! (length out - d)])"

lemma peeks_window:
  "window_ok g \<Longrightarrow> 0 < d \<Longrightarrow> d \<le> length (gz_output g) \<Longrightarrow> d \<le> 32768 \<Longrightarrow>
   window_ok ((peek (of_nat d) ^^ n) g) \<and> gz_output ((peek (of_nat d) ^^ n) g) = lz_copy n d (gz_output g) \<and>
   gz_bits ((peek (of_nat d) ^^ n) g) = gz_bits g"
proof (induction n arbitrary: g)
  case (Suc n)
  note p = peek_window [OF Suc.prems]
  have "(peek (of_nat d) ^^ Suc n) g = (peek (of_nat d) ^^ n) (peek (of_nat d) g)" by (simp add: funpow_swap1)
  then show ?case using Suc.IH [of "peek (of_nat d) g"] p Suc.prems by simp
qed simp

section \<open>Compressed blocks\<close>

text \<open>
  A compressed block is a list of literals and references.  A reference names a length code and a distance
  code with the values of their extra bits.
\<close>

datatype lz = Lit u8 | Ref nat nat nat nat

fun tok_bits :: "nat list \<Rightarrow> nat list \<Rightarrow> lz \<Rightarrow> bool list" where
  "tok_bits L D (Lit b) = code_bits L (unat b)"
| "tok_bits L D (Ref lc le dc de) = code_bits L (257 + lc) @ lsb (lext ! lc) le @ code_bits D dc @ lsb (dext ! dc) de"

fun tok_ok :: "nat list \<Rightarrow> nat list \<Rightarrow> nat \<Rightarrow> lz \<Rightarrow> bool" where
  "tok_ok L D n (Lit b) \<longleftrightarrow> coded L (unat b)"
| "tok_ok L D n (Ref lc le dc de) \<longleftrightarrow> lc < 29 \<and> coded L (257 + lc) \<and> le < 2 ^ (lext ! lc) \<and>
     dc < 30 \<and> coded D dc \<and> de < 2 ^ (dext ! dc) \<and> de + dists ! dc \<le> n"

fun tok_out :: "u8 list \<Rightarrow> lz \<Rightarrow> u8 list" where
  "tok_out out (Lit b) = out @ [b]"
| "tok_out out (Ref lc le dc de) = lz_copy (le + lens ! lc) (de + dists ! dc) out"

fun toks_ok :: "nat list \<Rightarrow> nat list \<Rightarrow> u8 list \<Rightarrow> lz list \<Rightarrow> bool" where
  "toks_ok L D out [] = True"
| "toks_ok L D out (t # ts) \<longleftrightarrow> tok_ok L D (length out) t \<and> toks_ok L D (tok_out out t) ts"

definition block_bits :: "nat list \<Rightarrow> nat list \<Rightarrow> lz list \<Rightarrow> bool list" where
  "block_bits L D ts = concat (map (tok_bits L D) ts) @ code_bits L 256"

definition tables :: "nat list \<Rightarrow> nat list \<Rightarrow> huff \<Rightarrow> huff \<Rightarrow> bool" where
  "tables L D hl hdi \<longleftrightarrow> lengths_ok L \<and> lengths_ok D \<and>
     (\<exists>a b. length a = 288 \<and> length b = 288 \<and> build_huffman L a = Some hl \<and> build_huffman D b = Some hdi)"

lemma extra_bounds:
  "lc < 29 \<Longrightarrow> lext ! lc \<le> 5 \<and> lens ! lc \<le> 258"
  "dc < 30 \<Longrightarrow> dext ! dc \<le> 13 \<and> 0 < dists ! dc \<and> 2 ^ (dext ! dc) + dists ! dc \<le> 32769"
proof -
  have "\<forall>i \<in> set [0..<29]. lext ! i \<le> 5 \<and> lens ! i \<le> 258" by (simp add: upt_rec lext_def lens_def)
  then show "lc < 29 \<Longrightarrow> lext ! lc \<le> 5 \<and> lens ! lc \<le> 258" by auto
  have "\<forall>i \<in> set [0..<30]. dext ! i \<le> 13 \<and> 0 < dists ! i \<and> 2 ^ (dext ! i) + dists ! i \<le> 32769"
    by (simp add: upt_rec dext_def dists_def)
  then show "dc < 30 \<Longrightarrow> dext ! dc \<le> 13 \<and> 0 < dists ! dc \<and> 2 ^ (dext ! dc) + dists ! dc \<le> 32769" by auto
qed

lemma same_window_ok: "same_window g g' \<Longrightarrow> window_ok g \<Longrightarrow> window_ok g'"
  by (simp add: same_window_def window_ok_def)

lemma tables_decode:
  assumes "tables L D hl hdi"
  shows "coded L s \<Longrightarrow> gz_bits g = code_bits L s @ rest \<Longrightarrow> \<exists>g'. decode hl g = Some (s, g') \<and> gz_bits g' = rest \<and> same_window g g'"
    "coded D s \<Longrightarrow> gz_bits g = code_bits D s @ rest \<Longrightarrow> \<exists>g'. decode hdi g = Some (s, g') \<and> gz_bits g' = rest \<and> same_window g g'"
  using assms decode_code_bits unfolding tables_def by blast+

lemma inflate_ref:
  assumes t: "tables L D hl hdi" and ok: "tok_ok L D (length (gz_output g)) (Ref lc le dc de)" and w: "window_ok g"
    and b: "gz_bits g = tok_bits L D (Ref lc le dc de) @ rest"
  shows "\<exists>g'. inflate_symbol hl hdi g = Some (True, g') \<and> gz_bits g' = rest \<and> window_ok g' \<and>
    gz_output g' = tok_out (gz_output g) (Ref lc le dc de)"
proof -
  have ok': "lc < 29" "coded L (257 + lc)" "le < 2 ^ (lext ! lc)" "dc < 30" "coded D dc" "de < 2 ^ (dext ! dc)"
    "de + dists ! dc \<le> length (gz_output g)" using ok by auto
  note e = extra_bounds(1) [OF ok'(1)] extra_bounds(2) [OF ok'(4)]
  obtain g1 where g1: "decode hl g = Some (257 + lc, g1)" "gz_bits g1 = lsb (lext ! lc) le @ code_bits D dc @ lsb (dext ! dc) de @ rest" "same_window g g1"
    using tables_decode(1) [OF t ok'(2), of g "lsb (lext ! lc) le @ code_bits D dc @ lsb (dext ! dc) de @ rest"] b by auto
  obtain g2 where g2: "read_bits (lext ! lc) g1 = Some (of_nat le, g2)" "gz_bits g2 = code_bits D dc @ lsb (dext ! dc) de @ rest" "same_window g1 g2"
    using read_bits_value [OF g1(2) _ ok'(3)] e(1) by auto
  obtain g3 where g3: "decode hdi g2 = Some (dc, g3)" "gz_bits g3 = lsb (dext ! dc) de @ rest" "same_window g2 g3"
    using tables_decode(2) [OF t ok'(5) g2(2)] by auto
  obtain g4 where g4: "read_bits (dext ! dc) g3 = Some (of_nat de, g4)" "gz_bits g4 = rest" "same_window g3 g4"
    using read_bits_value [OF g3(2) _ ok'(6)] e(2) by auto
  have sw: "same_window g g4" using g1(3) g2(3) g3(3) g4(3) by (blast intro: same_window_trans)
  have "le < 2 ^ 5" using ok'(3) e(1) power_increasing [of "lext ! lc" 5 "2 :: nat"] by linarith
  then have "le + lens ! lc < 2 ^ LENGTH(32)" using e(1) by simp
  then have "unat (of_nat (le + lens ! lc) :: u32) = le + lens ! lc"
    by (simp only: unsigned_of_nat of_nat_id take_bit_nat_eq_self_iff)
  then have len: "unat (of_nat le + of_nat (lens ! lc) :: u32) = le + lens ! lc" by simp
  have off: "(of_nat de + of_nat (dists ! dc) :: u32) = of_nat (de + dists ! dc)" by simp
  have "inflate_symbol hl hdi g = Some (True, (peek (of_nat (de + dists ! dc)) ^^ (le + lens ! lc)) g4)"
    using g1(1) g2(1) g3(1) g4(1) ok'(1,4) unfolding inflate_symbol_def
    by (simp add: Let_def len off [symmetric] lext_def [THEN arg_cong [of _ _ length]] dext_def [THEN arg_cong [of _ _ length]])
  moreover have "gz_output g4 = gz_output g" "window_ok g4" using sw w same_window_ok by (auto simp: same_window_def)
  ultimately show ?thesis
    using peeks_window [of g4 "de + dists ! dc" "le + lens ! lc"] e(2) ok'(6,7) g4(2) by simp
qed

lemma inflate_tok:
  assumes t: "tables L D hl hdi" and ok: "tok_ok L D (length (gz_output g)) x" and w: "window_ok g"
    and b: "gz_bits g = tok_bits L D x @ rest"
  shows "\<exists>g'. inflate_symbol hl hdi g = Some (True, g') \<and> gz_bits g' = rest \<and> window_ok g' \<and> gz_output g' = tok_out (gz_output g) x"
proof (cases x)
  case (Lit c)
  obtain g1 where g1: "decode hl g = Some (unat c, g1)" "gz_bits g1 = rest" "same_window g g1"
    using tables_decode(1) [OF t, of "unat c" g rest] ok b Lit by auto
  have "unat c < 256" using unsigned_less [of c] by simp
  then show ?thesis using g1 emit_window [of g1 c] same_window_ok [OF g1(3) w] Lit
    by (auto simp: inflate_symbol_def same_window_def)
next
  case (Ref lc le dc de)
  show ?thesis using inflate_ref [OF t ok [unfolded Ref] w b [unfolded Ref]] Ref by simp
qed

lemma inflate_block:
  assumes t: "tables L D hl hdi" and eob: "coded L 256"
  shows "toks_ok L D (gz_output g) ts \<Longrightarrow> window_ok g \<Longrightarrow> gz_bits g = block_bits L D ts @ rest \<Longrightarrow>
    \<exists>g'. inflate hl hdi g = Some g' \<and> gz_bits g' = rest \<and> window_ok g' \<and> gz_output g' = foldl tok_out (gz_output g) ts"
proof (induction ts arbitrary: g)
  case Nil
  obtain g1 where g1: "decode hl g = Some (256, g1)" "gz_bits g1 = rest" "same_window g g1"
    using tables_decode(1) [OF t eob, of g rest] Nil(3) by (auto simp: block_bits_def)
  have "inflate hl hdi g = Some g1" using g1(1) by (subst inflate.simps) (simp add: inflate_symbol_def)
  then show ?case using g1(2,3) Nil(2) same_window_ok by (auto simp: same_window_def)
next
  case (Cons x ts)
  obtain g1 where g1: "inflate_symbol hl hdi g = Some (True, g1)" "gz_bits g1 = block_bits L D ts @ rest" "window_ok g1"
    "gz_output g1 = tok_out (gz_output g) x"
    using inflate_tok [OF t _ Cons.prems(2), of x "block_bits L D ts @ rest"] Cons.prems(1,3) by (auto simp: block_bits_def)
  have "inflate hl hdi g = inflate hl hdi g1" using g1(1) by (subst inflate.simps) simp
  then show ?case using Cons.IH [of g1] Cons.prems(1) g1 by simp
qed

section \<open>Streams of blocks\<close>

lemma count_list_replicate: "count_list (replicate n x) y = (if x = y then n else 0)"
  by (induction n) auto

lemma fixed_lengths_ok: "lengths_ok fixed_length_lengths" "lengths_ok fixed_dist_lengths"
proof -
  have r: "[1..<16] = [1, 2, 3, 4, 5, 6, 7, 8, 9, 10, 11, 12, 13, 14, 15]" by (simp add: upt_rec)
  have f: "first_code L 1 = 0" "first_code L (numeral k) = 2 * (first_code L (pred_numeral k) + len_count L (pred_numeral k))" for L k
    by (simp_all add: numeral_eq_Suc len_count_def)
  have c: "len_count fixed_length_lengths l = (if l = 7 then 24 else if l = 8 then 152 else if l = 9 then 112 else 0)"
    "len_count fixed_dist_lengths l = (if l = 5 then 30 else 0)" for l
    by (auto simp: len_count_def fixed_length_lengths_def fixed_dist_lengths_def count_list_replicate)
  have "list_all (\<lambda>l. l < 16) fixed_length_lengths \<and> length fixed_length_lengths \<le> 288"
    "list_all (\<lambda>l. l < 16) fixed_dist_lengths \<and> length fixed_dist_lengths \<le> 288"
    by (simp_all add: fixed_length_lengths_def fixed_dist_lengths_def list_all_iff)
  then show "lengths_ok fixed_length_lengths" "lengths_ok fixed_dist_lengths"
    unfolding lengths_ok_def r by (simp_all add: f c)
qed

lemma build_fixed_tables:
  "\<exists>hl hdi. build_fixed = Some (hl, hdi) \<and> tables fixed_length_lengths fixed_dist_lengths hl hdi"
proof -
  let ?z = "replicate 288 (0 :: nat)"
  have "list_all (\<lambda>l. l < 16) L \<and> length L \<le> length ?z" if "lengths_ok L" for L using that by (simp add: lengths_ok_def)
  then obtain hl hdi where "build_huffman fixed_length_lengths ?z = Some hl" "build_huffman fixed_dist_lengths ?z = Some hdi"
    using build_huffman_spec fixed_lengths_ok by meson
  then show ?thesis using fixed_lengths_ok by (auto simp: build_fixed_def tables_def intro!: exI [of _ ?z])
qed

fun fixed_stream :: "lz list list \<Rightarrow> bool list" where
  "fixed_stream [] = []"
| "fixed_stream (b # bs) = (bs = []) # True # False # block_bits fixed_length_lengths fixed_dist_lengths b @ fixed_stream bs"

lemma read_header:
  assumes "gz_bits g = f # x # y # rest"
  shows "\<exists>g1 g2. read_bit g = Some (f, g1) \<and> read_bits 2 g1 = Some (of_bool x + 2 * of_bool y, g2) \<and> gz_bits g2 = rest \<and> same_window g g2"
proof -
  obtain g1 where g1: "read_bit g = Some (f, g1)" "gz_bits g1 = [x, y] @ rest" "same_window g g1"
    using read_bit_bits [OF assms] by auto
  obtain g2 where g2: "read_bits 2 g1 = Some (horner_sum of_bool 2 [x, y], g2)" "gz_bits g2 = rest" "same_window g1 g2"
    using read_bits_bits [OF g1(2), of 2] by auto
  then show ?thesis using g1 same_window_trans [OF g1(3) g2(3)] by simp
qed

lemma fixed_coded_256: "coded fixed_length_lengths 256"
  by (simp add: coded_def fixed_length_lengths_def nth_append)

lemma deflate_fixed:
  assumes t: "tables fixed_length_lengths fixed_dist_lengths hl hdi"
  shows "bs \<noteq> [] \<Longrightarrow> toks_ok fixed_length_lengths fixed_dist_lengths (gz_output g) (concat bs) \<Longrightarrow> window_ok g \<Longrightarrow>
    gz_bits g = fixed_stream bs @ rest \<Longrightarrow>
    \<exists>g'. deflate_loop stk hl hdi g = Some (0, g') \<and> gz_bits g' = rest \<and> gz_output g' = foldl tok_out (gz_output g) (concat bs)"
proof (induction bs arbitrary: g)
  case (Cons b bs)
  let ?bits = "block_bits fixed_length_lengths fixed_dist_lengths b"
  obtain g1 g2 where h: "read_bit g = Some (bs = [], g1)" "read_bits 2 g1 = Some (1, g2)" "gz_bits g2 = ?bits @ fixed_stream bs @ rest" "same_window g g2"
    using read_header [of g "bs = []" True False "?bits @ fixed_stream bs @ rest"] Cons.prems(4) by auto
  have app: "toks_ok L D out (xs @ ys) \<longleftrightarrow> toks_ok L D out xs \<and> toks_ok L D (foldl tok_out out xs) ys" for L D out xs ys
    by (induction xs arbitrary: out) auto
  have ok: "toks_ok fixed_length_lengths fixed_dist_lengths (gz_output g2) b" "window_ok g2" "gz_output g2 = gz_output g"
    using Cons.prems(2,3) h(4) same_window_ok by (auto simp: same_window_def app)
  obtain g3 where g3: "inflate hl hdi g2 = Some g3" "gz_bits g3 = fixed_stream bs @ rest" "window_ok g3" "gz_output g3 = foldl tok_out (gz_output g) b"
    using inflate_block [OF t fixed_coded_256 ok(1,2) h(3)] ok(3) by auto
  have e: "deflate_loop stk hl hdi g = (if bs = [] then Some (0, g3) else deflate_loop stk hl hdi g3)"
    using h(1,2) g3(1) by (subst deflate_loop.simps) simp
  show ?case
  proof (cases "bs = []")
    case False
    then show ?thesis using Cons.IH [of g3] Cons.prems(2) g3 e by (simp add: app)
  qed (use e g3 in simp)
qed simp

definition le16 :: "u16 \<Rightarrow> u8 list" where
  "le16 w = [ucast w, ucast (drop_bit 8 w)]"

fun stored_stream :: "u8 list list \<Rightarrow> u8 list" where
  "stored_stream [] = []"
| "stored_stream (c # cs) = of_bool (cs = []) # le16 (of_nat (length c)) @ le16 (NOT (of_nat (length c))) @ c @ stored_stream cs"

lemma deflate_start:
  assumes "build_fixed = Some (hl, hdi)"
  shows "deflate_decompress stk g = deflate_loop stk hl hdi (g\<lparr>bit_buffer := 0, buffer_size := 0\<rparr>)"
  unfolding deflate_decompress_def assms by simp

lemma le16_word: "ucast (ucast w :: u8) OR push_bit 8 (ucast (ucast (drop_bit 8 w) :: u8)) = w" for w :: u16
proof (rule bit_word_eqI)
  fix i assume "i < LENGTH(16)"
  then show "bit (ucast (ucast w :: u8) OR push_bit 8 (ucast (ucast (drop_bit 8 w) :: u8)) :: u16) i = bit w i"
    by (auto simp: bit_or_iff bit_push_bit_iff bit_ucast_iff bit_drop_bit_eq)
qed

lemma read_le16: "gz_input g = le16 w @ rest \<Longrightarrow> read_16le g = Some (w, g\<lparr>gz_input := rest\<rparr>)"
  using le16_word [of w] by (simp add: le16_def read_16le_def read_byte_def)

lemma emit_bytes_all:
  "window_ok g \<Longrightarrow> gz_input g = c @ rest \<Longrightarrow>
   \<exists>g'. emit_bytes (length c) g = Some g' \<and> gz_input g' = rest \<and> gz_output g' = gz_output g @ c \<and> window_ok g' \<and> buffer_size g' = buffer_size g"
proof (induction c arbitrary: g)
  case (Cons x c)
  let ?g = "g\<lparr>gz_input := c @ rest\<rparr>"
  have w: "window_ok ?g" using Cons.prems(1) by (simp add: window_ok_def)
  show ?case using Cons.IH [of "emit x ?g"] emit_window [OF w, of x] Cons.prems(2) by (auto simp: read_byte_def)
qed auto

lemma stored_header:
  assumes "buffer_size g = 0" "gz_input g = of_bool f # xs"
  shows "\<exists>g1 g2. read_bit g = Some (f, g1) \<and> read_bits 2 g1 = Some (0, g2) \<and> gz_input g2 = xs \<and> same_window g g2"
  using assms by (simp add: read_bit_def read_byte_def read_bits_def numeral_2_eq_2 same_window_def)

lemma uncompressed_stored:
  assumes "window_ok g" "gz_input g = le16 (of_nat (length c)) @ le16 (NOT (of_nat (length c))) @ c @ rest" "length c < 65536"
  shows "\<exists>g'. uncompressed g = Some (0, g') \<and> gz_input g' = rest \<and> gz_output g' = gz_output g @ c \<and> window_ok g' \<and> buffer_size g' = 0"
proof -
  let ?g = "g\<lparr>bit_buffer := 0, buffer_size := 0, gz_input := c @ rest\<rparr>"
  have u: "unat (of_nat (length c) :: u16) = length c" using assms(3) by (simp add: unsigned_of_nat take_bit_nat_eq_self_iff)
  have "window_ok ?g" using assms(1) by (simp add: window_ok_def)
  then obtain g' where g': "emit_bytes (length c) ?g = Some g'" "gz_input g' = rest" "gz_output g' = gz_output g @ c" "window_ok g'" "buffer_size g' = 0"
    using emit_bytes_all [of ?g c rest] by auto
  have "uncompressed g = Some (0, g')"
    unfolding uncompressed_def
    using read_le16 [of "g\<lparr>bit_buffer := 0, buffer_size := 0\<rparr>" "of_nat (length c)"]
      read_le16 [of "g\<lparr>bit_buffer := 0, buffer_size := 0, gz_input := le16 (NOT (of_nat (length c))) @ c @ rest\<rparr>" "NOT (of_nat (length c))" "c @ rest"]
      assms(2) u g'(1) by simp
  then show ?thesis using g' by blast
qed

lemma deflate_stored:
  "cs \<noteq> [] \<Longrightarrow> list_all (\<lambda>c. length c < 65536) cs \<Longrightarrow> window_ok g \<Longrightarrow> buffer_size g = 0 \<Longrightarrow> gz_input g = stored_stream cs @ rest \<Longrightarrow>
   \<exists>g'. deflate_loop stk hl hdi g = Some (0, g') \<and> gz_input g' = rest \<and> gz_output g' = gz_output g @ concat cs"
proof (induction cs arbitrary: g)
  case (Cons c cs)
  obtain g1 g2 where h: "read_bit g = Some (cs = [], g1)" "read_bits 2 g1 = Some (0, g2)"
    "gz_input g2 = le16 (of_nat (length c)) @ le16 (NOT (of_nat (length c))) @ c @ stored_stream cs @ rest" "same_window g g2"
    using stored_header [OF Cons.prems(4), of "cs = []"] Cons.prems(5) by auto
  have w2: "window_ok g2" "gz_output g2 = gz_output g" using Cons.prems(3) h(4) same_window_ok by (auto simp: same_window_def)
  obtain g3 where g3: "uncompressed g2 = Some (0, g3)" "gz_input g3 = stored_stream cs @ rest" "gz_output g3 = gz_output g @ c" "window_ok g3" "buffer_size g3 = 0"
    using uncompressed_stored [OF w2(1) h(3)] Cons.prems(2) w2(2) by auto
  have e: "deflate_loop stk hl hdi g = (if cs = [] then Some (0, g3) else deflate_loop stk hl hdi g3)"
    using h(1,2) g3(1) by (subst deflate_loop.simps) simp
  show ?case
  proof (cases "cs = []")
    case False
    then show ?thesis using Cons.IH [of g3] Cons.prems(2) g3 e by simp
  qed (use e g3 in simp)
qed simp

section \<open>Properties\<close>

text \<open>
  Property C5.  Decoding inverts canonical coding: for every table of code lengths that fits (no more codes of
  a length than the bits allow), the decoder with the table \<^verbatim>\<open>build_huffman\<close> makes returns the symbol whose
  canonical code comes next in the stream, and consumes exactly that code.
\<close>

theorem decode_inverts_code:
  assumes "lengths_ok L" "length syms = 288" "coded L s" "gz_bits g = code_bits L s @ rest"
  shows "\<exists>h g'. build_huffman L syms = Some h \<and> decode h g = Some (s, g') \<and> gz_bits g' = rest"
proof -
  have "list_all (\<lambda>l. l < 16) L" "length L \<le> length syms" using assms(1,2) by (auto simp: lengths_ok_def)
  then obtain h where "build_huffman L syms = Some h" using build_huffman_spec by blast
  then show ?thesis using decode_code_bits [OF assms(1) _ assms(2-4)] by blast
qed

definition ex_gz :: "u8 list \<Rightarrow> gz" where
  "ex_gz bs = \<lparr> bit_buffer = 0, buffer_size = 0, gz_input = bs, gz_output = [], ring_pointer = 0, ring_data = replicate 32768 0 \<rparr>"

lemma ex_gz_window: "window_ok (ex_gz bs)"
  by (simp add: window_ok_def ex_gz_def)

theorem decode_inverts_code_witness:
  "\<exists>h g'. build_huffman [2, 1, 0, 2] (replicate 288 0) = Some h \<and> decode h (ex_gz [3]) = Some (3, g') \<and>
    gz_bits g' = [False, False, False, False, False, False]"
proof (rule decode_inverts_code)
  have r: "[1..<16] = [1, 2, 3, 4, 5, 6, 7, 8, 9, 10, 11, 12, 13, 14, 15]" by (simp add: upt_rec)
  have f: "first_code L 1 = 0" "first_code L (numeral k) = 2 * (first_code L (pred_numeral k) + len_count L (pred_numeral k))" for L k
    by (simp_all add: numeral_eq_Suc len_count_def)
  show "lengths_ok [2, 1, 0, 2]" unfolding lengths_ok_def r by (simp add: f len_count_def)
  have "code_value [2, 1, 0, 2] 3 = 3" by (simp add: code_value_def numeral_3_eq_3 numeral_2_eq_2 len_count_def)
  then have "code_bits [2, 1, 0, 2] 3 = [True, True]" by (simp add: code_bits_def lsb_def upt_rec bit_numeral_rec bit_0)
  then show "gz_bits (ex_gz [3]) = code_bits [2, 1, 0, 2] 3 @ [False, False, False, False, False, False]"
    by (simp add: gz_bits_def ex_gz_def byte_bits_def upt_rec bit_numeral_rec)
qed (simp_all add: coded_def)

text \<open>
  Property C2.  Decompression inverts compression with the fixed codes: from an empty window, a stream of
  blocks of literals and of references into what was written before (at most 32K back) is decompressed to the
  bytes they stand for, with status 0, and the stream is consumed up to its last code.
\<close>

theorem deflate_fixed_roundtrip:
  assumes "window_ok g" "bs \<noteq> []" "toks_ok fixed_length_lengths fixed_dist_lengths (gz_output g) (concat bs)"
    "concat (map byte_bits (gz_input g)) = fixed_stream bs @ rest"
  shows "\<exists>g'. deflate_decompress stk g = Some (0, g') \<and> gz_output g' = foldl tok_out (gz_output g) (concat bs) \<and> gz_bits g' = rest"
proof -
  obtain hl hdi where t: "build_fixed = Some (hl, hdi)" "tables fixed_length_lengths fixed_dist_lengths hl hdi"
    using build_fixed_tables by blast
  let ?g = "g\<lparr>bit_buffer := 0, buffer_size := 0\<rparr>"
  have "window_ok ?g" "gz_bits ?g = fixed_stream bs @ rest" "gz_output ?g = gz_output g"
    using assms(1,4) by (simp_all add: window_ok_def gz_bits_def)
  then show ?thesis using deflate_fixed [OF t(2) assms(2), of ?g rest stk] assms(3) unfolding deflate_start [OF t(1)] by auto
qed

lemma ex_codes:
  "code_bits fixed_length_lengths 97 = [True, False, False, True, False, False, False, True]"
  "code_bits fixed_length_lengths 256 = [False, False, False, False, False, False, False]"
  "code_bits fixed_length_lengths 257 = [False, False, False, False, False, False, True]"
  "code_bits fixed_dist_lengths 0 = [False, False, False, False, False]"
proof -
  have c: "len_count fixed_length_lengths l = (if l = 7 then 24 else if l = 8 then 152 else if l = 9 then 112 else 0)"
    "len_count fixed_dist_lengths l = (if l = 5 then 30 else 0)" for l
    by (auto simp: len_count_def fixed_length_lengths_def fixed_dist_lengths_def count_list_replicate)
  have f: "first_code L 1 = 0" "first_code L (numeral k) = 2 * (first_code L (pred_numeral k) + len_count L (pred_numeral k))" for L k
    by (simp_all add: numeral_eq_Suc len_count_def)
  have l: "fixed_length_lengths ! 97 = 8" "fixed_length_lengths ! 256 = 7" "fixed_length_lengths ! 257 = 7" "fixed_dist_lengths ! 0 = 5"
    by (simp_all add: fixed_length_lengths_def fixed_dist_lengths_def nth_append)
  have t: "count_list (take 97 fixed_length_lengths) 8 = 97" "count_list (take 256 fixed_length_lengths) 7 = 0"
    "count_list (take 257 fixed_length_lengths) 7 = 1"
    by (simp_all add: fixed_length_lengths_def count_list_replicate)
  have v: "code_value fixed_length_lengths 97 = 145" "code_value fixed_length_lengths 256 = 0" "code_value fixed_length_lengths 257 = 1"
    "code_value fixed_dist_lengths 0 = 0"
    by (simp_all add: code_value_def l t f c)
  show "code_bits fixed_length_lengths 97 = [True, False, False, True, False, False, False, True]"
    "code_bits fixed_length_lengths 256 = [False, False, False, False, False, False, False]" "code_bits fixed_length_lengths 257 = [False, False, False, False, False, False, True]"
    "code_bits fixed_dist_lengths 0 = [False, False, False, False, False]"
    by (simp_all add: code_bits_def lsb_def v l upt_rec bit_numeral_rec bit_0 bit_1_iff)
qed

theorem deflate_fixed_roundtrip_witness:
  "\<exists>g'. deflate_decompress (\<lambda>_. []) (ex_gz [0x4B, 0x04, 0x02, 0x00]) = Some (0, g') \<and> gz_output g' = [97, 97, 97, 97]"
proof -
  let ?ts = "[Lit 97, Ref 0 0 0 0]"
  have t: "lext ! 0 = 0" "lens ! 0 = 3" "dext ! 0 = 0" "dists ! 0 = 1" by (simp_all add: lext_def lens_def dext_def dists_def)
  have c: "coded fixed_length_lengths 97" "coded fixed_length_lengths 257" "coded fixed_dist_lengths 0"
    by (simp_all add: coded_def fixed_length_lengths_def fixed_dist_lengths_def nth_append)
  have ok: "toks_ok fixed_length_lengths fixed_dist_lengths [] (concat [?ts])" using c t by simp
  have o: "foldl tok_out [] (concat [?ts]) = [97, 97, 97, 97]" by (simp add: t numeral_3_eq_3)
  have b: "concat (map byte_bits [0x4B, 0x04, 0x02, 0x00]) = fixed_stream [?ts] @ [False, False]"
    by (simp add: block_bits_def ex_codes lsb_def t byte_bits_def upt_rec bit_numeral_rec)
  have g: "gz_output (ex_gz x) = []" "gz_input (ex_gz x) = x" for x by (simp_all add: ex_gz_def)
  show ?thesis
    using deflate_fixed_roundtrip [of "ex_gz [0x4B, 0x04, 0x02, 0x00]" "[?ts]" "[False, False]" "\<lambda>_. []", OF ex_gz_window] ok o b
    unfolding g by auto
qed

text \<open>
  Property C31.  A gzip file whose data is stored in blocks of less than 64K is decompressed to the data: the
  header is skipped, every block is copied, the trailer is read, and the status is 0.
\<close>

theorem gzip_stored_roundtrip:
  assumes "window_ok g" "gz_output g = []" "cs \<noteq> []" "list_all (\<lambda>c. length c < 65536) cs" "length trailer = 8"
    "gz_input g = [0x1F, 0x8B, 8, 0, t1, t2, t3, t4, xf, os] @ stored_stream cs @ trailer"
  shows "\<exists>g'. gzip_decompress stk g = Some (0, g') \<and> gz_output g' = concat cs \<and> gz_input g' = []"
proof -
  obtain hl hdi where t: "build_fixed = Some (hl, hdi)" using build_fixed_tables by blast
  let ?g = "g\<lparr>bit_buffer := 0, buffer_size := 0, gz_input := stored_stream cs @ trailer\<rparr>"
  have "window_ok ?g" using assms(1) by (simp add: window_ok_def)
  from deflate_stored [OF assms(3,4) this, of trailer stk hl hdi] obtain g' where
    g': "deflate_loop stk hl hdi ?g = Some (0, g')" "gz_input g' = trailer" "gz_output g' = concat cs" using assms(2) by auto
  obtain a b c d e f h i where tr: "trailer = [a, b, c, d, e, f, h, i]"
    using assms(5) by (auto simp: length_Suc_conv numeral_eq_Suc)
  have "deflate_decompress stk (g\<lparr>gz_input := stored_stream cs @ trailer\<rparr>) = Some (0, g')"
    unfolding deflate_start [OF t] using g'(1) by (cases g) simp
  then show ?thesis using assms(6) g'(2,3) tr
    by (simp add: gzip_decompress_def read_byte_def read_32le_def skip_fields_def)
qed

theorem gzip_stored_roundtrip_witness:
  "\<exists>g'. gzip_decompress (\<lambda>_. []) (ex_gz ([0x1F, 0x8B, 8, 0, 0, 0, 0, 0, 0, 3] @ stored_stream [[1, 2], [3]] @ replicate 8 0)) = Some (0, g') \<and>
    gz_output g' = concat [[1, 2], [3]] \<and> gz_input g' = []"
  by (rule gzip_stored_roundtrip [OF ex_gz_window]) (simp_all add: ex_gz_def)

text \<open>
  A stored block whose length does not match its complement is skipped in silence: the check in
  \<^verbatim>\<open>uncompressed\<close> fails, nothing is written, and decompression still reports status 0.
\<close>

theorem stored_check_ignored:
  assumes "gz_input g = 1 # le16 len @ le16 nlen @ rest" "nlen \<noteq> NOT len"
  shows "\<exists>g'. deflate_decompress stk g = Some (0, g') \<and> gz_output g' = gz_output g \<and> gz_input g' = rest"
proof -
  obtain hl hdi where t: "build_fixed = Some (hl, hdi)" using build_fixed_tables by blast
  let ?g = "g\<lparr>bit_buffer := 0, buffer_size := 0\<rparr>"
  obtain g1 g2 where h: "read_bit ?g = Some (True, g1)" "read_bits 2 g1 = Some (0, g2)" "gz_input g2 = le16 len @ le16 nlen @ rest" "same_window ?g g2"
    using stored_header [of ?g True] assms(1) by auto
  let ?g3 = "g2\<lparr>bit_buffer := 0, buffer_size := 0, gz_input := rest\<rparr>"
  have "uncompressed g2 = Some (1, ?g3)"
    unfolding uncompressed_def
    using read_le16 [of "g2\<lparr>bit_buffer := 0, buffer_size := 0\<rparr>" len] read_le16 [of "g2\<lparr>bit_buffer := 0, buffer_size := 0, gz_input := le16 nlen @ rest\<rparr>" nlen rest]
      h(3) assms(2) by simp
  then have "deflate_loop stk hl hdi ?g = Some (0, ?g3)" using h(1,2) by (subst deflate_loop.simps) simp
  then show ?thesis unfolding deflate_start [OF t] using h(4) by (simp add: same_window_def)
qed

theorem stored_check_ignored_witness:
  "\<exists>g'. deflate_decompress (\<lambda>_. []) (ex_gz (1 # le16 5 @ le16 5 @ [])) = Some (0, g') \<and>
    gz_output g' = gz_output (ex_gz (1 # le16 5 @ le16 5 @ [])) \<and> gz_input g' = []"
proof (rule stored_check_ignored)
  have "bit (5 :: u16) 0 \<noteq> bit (NOT (5 :: u16)) 0" by (simp add: bit_not_iff)
  then show "(5 :: u16) \<noteq> NOT 5" by metis
qed (simp add: ex_gz_def)

end
