(* ===== verification/Kwire.thy ===== *)
theory Kwire
  imports Razion_Prelude
begin

text \<open>
  The wire formats of the network stack: byte order (\<^verbatim>\<open>kernel/net/netif.h\<close>), the packed headers of
  \<^verbatim>\<open>kernel/net/eth.h\<close>, \<^verbatim>\<open>kernel/net/ipv4.h\<close> and \<^verbatim>\<open>kernel/net/arp.c\<close>, and the three checksum
  routines of \<^verbatim>\<open>kernel/net/ipv4.c\<close>.

  A packet is the list of its bytes.  A header is a record whose fields hold what the C structure
  holds in memory on the little-endian targets, so a field in network order is still swapped; its
  \<open>_bytes\<close> function is the packed layout.  A load that leaves the packet is the fault \<open>None\<close>.
\<close>

unbundle bit_operations_syntax

section \<open>Byte order\<close>

definition htonl :: "u32 \<Rightarrow> u32" where
  "htonl l = push_bit 24 (l AND 0xFF) OR push_bit 8 (l AND 0xFF00) OR
     drop_bit 8 (l AND 0xFF0000) OR drop_bit 24 (l AND 0xFF000000)"

definition htons :: "u16 \<Rightarrow> u16" where
  "htons s = push_bit 8 (s AND 0xFF) OR drop_bit 8 (s AND 0xFF00)"

definition ntohl :: "u32 \<Rightarrow> u32" where
  "ntohl l = htonl l"

definition ntohs :: "u16 \<Rightarrow> u16" where
  "ntohs s = htons s"

text \<open>A 16- or 32-bit store and load of the little-endian processor.\<close>

definition w16 :: "u16 \<Rightarrow> u8 list" where
  "w16 x = [ucast x, ucast (drop_bit 8 x)]"

definition w32 :: "u32 \<Rightarrow> u8 list" where
  "w32 x = [ucast x, ucast (drop_bit 8 x), ucast (drop_bit 16 x), ucast (drop_bit 24 x)]"

definition rd8 :: "u8 list \<Rightarrow> nat \<Rightarrow> u8 option" where
  "rd8 p i = (if i < length p then Some (p ! i) else None)"

definition rd16 :: "u8 list \<Rightarrow> nat \<Rightarrow> u16 option" where
  "rd16 p i = (if i + 1 < length p then Some (ucast (p ! i) OR push_bit 8 (ucast (p ! (i + 1)))) else None)"

definition rd32 :: "u8 list \<Rightarrow> nat \<Rightarrow> u32 option" where
  "rd32 p i = (if i + 3 < length p
     then Some (ucast (p ! i) OR push_bit 8 (ucast (p ! (i + 1))) OR
       push_bit 16 (ucast (p ! (i + 2))) OR push_bit 24 (ucast (p ! (i + 3)))) else None)"

text \<open>A store into a buffer, and \<^verbatim>\<open>memcpy\<close> out of one.\<close>

definition wr_at :: "u8 list \<Rightarrow> nat \<Rightarrow> u8 list \<Rightarrow> u8 list option" where
  "wr_at p i bs = (if i + length bs \<le> length p then Some (take i p @ bs @ drop (i + length bs) p) else None)"

definition copy_from :: "u8 list \<Rightarrow> nat \<Rightarrow> nat \<Rightarrow> u8 list option" where
  "copy_from p i n = (if i + n \<le> length p then Some (take n (drop i p)) else None)"

section \<open>Headers\<close>

record ethernet_packet =
  eth_destination :: "u8 list"
  eth_source :: "u8 list"
  eth_type :: u16
  eth_payload :: "u8 list"

definition ethernet_bytes :: "ethernet_packet \<Rightarrow> u8 list" where
  "ethernet_bytes f = eth_destination f @ eth_source f @ w16 (eth_type f) @ eth_payload f"

record arp_header =
  arp_htype :: u16
  arp_ptype :: u16
  arp_hlen :: u8
  arp_plen :: u8
  arp_oper :: u16
  arp_sha :: "u8 list"
  arp_spa :: u32
  arp_tha :: "u8 list"
  arp_tpa :: u32

definition arp_bytes :: "arp_header \<Rightarrow> u8 list" where
  "arp_bytes a = w16 (arp_htype a) @ w16 (arp_ptype a) @ [arp_hlen a, arp_plen a] @ w16 (arp_oper a) @
     arp_sha a @ w32 (arp_spa a) @ arp_tha a @ w32 (arp_tpa a)"

record ipv4_packet =
  version_ihl :: u8
  dscp_ecn :: u8
  ip_length :: u16
  ip_ident :: u16
  flags_fragment :: u16
  ip_ttl :: u8
  ip_protocol :: u8
  ip_checksum :: u16
  ip_source :: u32
  ip_destination :: u32

definition ipv4_bytes :: "ipv4_packet \<Rightarrow> u8 list" where
  "ipv4_bytes p = [version_ihl p, dscp_ecn p] @ w16 (ip_length p) @ w16 (ip_ident p) @
     w16 (flags_fragment p) @ [ip_ttl p, ip_protocol p] @ w16 (ip_checksum p) @
     w32 (ip_source p) @ w32 (ip_destination p)"

record udp_packet =
  udp_source_port :: u16
  udp_destination_port :: u16
  udp_length :: u16
  udp_checksum :: u16

definition udp_bytes :: "udp_packet \<Rightarrow> u8 list" where
  "udp_bytes u = w16 (udp_source_port u) @ w16 (udp_destination_port u) @ w16 (udp_length u) @ w16 (udp_checksum u)"

record tcp_header =
  tcp_source_port :: u16
  tcp_destination_port :: u16
  seq_number :: u32
  ack_number :: u32
  tcp_flags :: u16
  window_size :: u16
  tcp_checksum :: u16
  tcp_urgent :: u16

definition tcp_bytes :: "tcp_header \<Rightarrow> u8 list" where
  "tcp_bytes t = w16 (tcp_source_port t) @ w16 (tcp_destination_port t) @ w32 (seq_number t) @
     w32 (ack_number t) @ w16 (tcp_flags t) @ w16 (window_size t) @ w16 (tcp_checksum t) @ w16 (tcp_urgent t)"

record tcp_check_header =
  chk_source :: u32
  chk_destination :: u32
  chk_zeros :: u8
  chk_protocol :: u8
  chk_tcp_len :: u16

definition tcp_check_bytes :: "tcp_check_header \<Rightarrow> u8 list" where
  "tcp_check_bytes c = w32 (chk_source c) @ w32 (chk_destination c) @ [chk_zeros c, chk_protocol c] @ w16 (chk_tcp_len c)"

section \<open>Checksums\<close>

text \<open>One turn of the loops: add a word in host order and fold the carry back.\<close>

definition ck_fold :: "u32 \<Rightarrow> u32" where
  "ck_fold s = (if s > 0xFFFF then drop_bit 16 s + (s AND 0xFFFF) else s)"

fun ck_words :: "u8 list \<Rightarrow> nat \<Rightarrow> nat \<Rightarrow> u32 \<Rightarrow> u32 option" where
  "ck_words p i 0 s = Some s"
| "ck_words p i (Suc n) s = do { w \<leftarrow> rd16 p (i * 2); ck_words p (i + 1) n (ck_fold (s + ucast (ntohs w))) }"

text \<open>\<^verbatim>\<open>~(sum & 0xFFFF) & 0xFFFF\<close>, truncated to the 16-bit result.\<close>

definition ck_result :: "u32 \<Rightarrow> u16" where
  "ck_result s = ucast (NOT (s AND 0xFFFF) AND 0xFFFF)"

definition calculate_ipv4_checksum :: "u8 list \<Rightarrow> u16 option" where
  "calculate_ipv4_checksum p = do { s \<leftarrow> ck_words p 0 10 0; Some (ck_result s) }"

definition calculate_tcp_checksum :: "u8 list \<Rightarrow> u8 list \<Rightarrow> u8 list option \<Rightarrow> u64 \<Rightarrow> u16 option" where
  "calculate_tcp_checksum p h d payload_size = do {
     s \<leftarrow> ck_words p 0 6 0;
     s \<leftarrow> ck_words h 0 10 s;
     s \<leftarrow> (case d of None \<Rightarrow> Some s | Some t \<Rightarrow>
       let d_words = (ucast (payload_size div 2) :: u16) in do {
         s \<leftarrow> ck_words t 0 (unat d_words) s;
         if ucast d_words * 2 \<noteq> payload_size then do {
           b \<leftarrow> rd8 t (unat d_words * 2);
           f \<leftarrow> rd16 [b, 0] 0;
           Some (ck_fold (s + ucast (ntohs f)))
         } else Some s });
     Some (ck_result s) }"

text \<open>
  \<^verbatim>\<open>icmp_checksum\<close> takes the length from the header, adds without folding, and folds once at the end.
  The bound of the loop is a signed division, which rounds a negative difference towards zero.
\<close>

fun icmp_words :: "u8 list \<Rightarrow> nat \<Rightarrow> nat \<Rightarrow> u32 \<Rightarrow> u32 option" where
  "icmp_words p i 0 s = Some s"
| "icmp_words p i (Suc n) s = do { w \<leftarrow> rd16 p (20 + i * 2); icmp_words p (i + 1) n (s + ucast (ntohs w)) }"

definition icmp_checksum :: "u8 list \<Rightarrow> u16 option" where
  "icmp_checksum packet = do {
     len \<leftarrow> rd16 packet 2;
     s \<leftarrow> icmp_words packet 0 ((unat (ntohs len) - 20) div 2) 0;
     Some (ck_result (ck_fold s)) }"

section \<open>The one's complement sum\<close>

text \<open>
  The reference: the big-endian 16-bit words of a byte string, an odd tail padded with zero, are
  summed as numbers; the one's complement sum represents the total in \<open>1..65535\<close>, and zero only if
  the total is zero.
\<close>

fun be_sum :: "u8 list \<Rightarrow> nat" where
  "be_sum [] = 0"
| "be_sum [a] = unat a * 256"
| "be_sum (a # b # r) = unat a * 256 + unat b + be_sum r"

definition ones_sum :: "nat \<Rightarrow> nat" where
  "ones_sum t = (if t = 0 then 0 else (t - 1) mod 65535 + 1)"

definition rfc_checksum :: "u8 list \<Rightarrow> u16" where
  "rfc_checksum bs = of_nat (65535 - ones_sum (be_sum bs))"

lemma ones_sum_le: "ones_sum t \<le> 65535"
proof -
  have "(t - 1) mod 65535 < 65535" by (rule mod_less_divisor) simp
  then show ?thesis unfolding ones_sum_def by (auto simp del: mod_less_divisor One_nat_def)
qed

lemma ones_sum_0 [simp]: "ones_sum t = 0 \<longleftrightarrow> t = 0"
  by (simp add: ones_sum_def)

lemma ones_sum_add:
  assumes "w \<le> 65535"
  shows "ones_sum (t + w) = (if ones_sum t + w > 65535 then ones_sum t + w - 65535 else ones_sum t + w)"
proof (cases "t = 0")
  case True
  then show ?thesis using assms by (auto simp: ones_sum_def)
next
  case False
  define r where "r = (t - 1) mod 65535"
  have r: "r < 65535" by (simp add: r_def)
  have "(t + w - 1) mod 65535 = (t - 1 + w) mod 65535" using False by simp
  also have "\<dots> = (r + w) mod 65535" by (simp add: r_def mod_add_left_eq)
  also have "\<dots> = (if r + w \<ge> 65535 then r + w - 65535 else r + w)"
    using r assms by (auto simp: le_mod_geq)
  finally have "ones_sum (t + w) = (if r + w \<ge> 65535 then r + w - 65535 else r + w) + 1"
    using False by (simp add: ones_sum_def)
  moreover have "ones_sum t = r + 1" using False by (simp add: ones_sum_def r_def)
  ultimately show ?thesis using r assms by auto
qed

lemma ones_sum_complement: "ones_sum (t + (65535 - ones_sum t)) = 65535"
  using ones_sum_add [of "65535 - ones_sum t" t] ones_sum_le [of t] by simp

lemma unat_ck_fold: "unat (ck_fold s) = (if unat s > 65535 then unat s div 65536 + unat s mod 65536 else unat s)"
proof -
  have a: "unat (drop_bit 16 s) = unat s div 65536"
    using unsigned_drop_bit_eq [of 16 s, where 'a = nat] unsigned_less [of s, where 'a = nat]
    by (simp add: take_bit_nat_eq_self drop_bit_nat_def)
  have b: "unat (s AND 0xFFFF) = unat s mod 65536"
  proof -
    have "s AND 0xFFFF = take_bit 16 s" by (simp add: take_bit_eq_mask mask_eq_exp_minus_1)
    then show ?thesis
      by (simp only: unsigned_take_bit_eq) (simp add: take_bit_eq_mod)
  qed
  have "unat s < 2 ^ 32" using unsigned_less [of s] by simp
  then have c: "unat s div 65536 + unat s mod 65536 < 2 ^ 32"
    by (simp add: less_mult_imp_div_less)
  show ?thesis
    using c by (simp add: ck_fold_def word_less_nat_alt unat_word_ariths a b)
qed

lemma unat_ck_add:
  assumes "unat s = ones_sum t" "unat (w :: u16) = n"
  shows "unat (ck_fold (s + ucast w)) = ones_sum (t + n)"
proof -
  have n: "n \<le> 65535" using unsigned_less [of w, where 'a = nat] assms(2) by simp
  have s: "unat s \<le> 65535" using ones_sum_le assms(1) by simp
  have e: "unat (s + ucast w) = unat s + n"
    using n s by (simp add: unat_word_ariths assms(2) unsigned_ucast_eq take_bit_nat_eq_self)
  have d: "x div 65536 + x mod 65536 = x - 65535" if "65535 < x" "x \<le> 131070" for x :: nat
  proof -
    have "x div 65536 = 1" using that by (simp add: div_nat_eqI)
    then show ?thesis using that by (simp add: modulo_nat_def)
  qed
  show ?thesis
    unfolding unat_ck_fold e assms(1) ones_sum_add [OF n]
    using d [of "ones_sum t + n"] n s by (simp add: assms(1))
qed

lemma byte_masks: "(0xFF :: u16) = mask 8" "(0xFF00 :: u16) = push_bit 8 (mask 8)"
  by (simp_all add: mask_eq_exp_minus_1)

lemma unat_ntohs: "unat (ntohs (ucast a OR push_bit 8 (ucast b))) = unat (a :: u8) * 256 + unat (b :: u8)"
proof -
  have "ntohs (ucast a OR push_bit 8 (ucast b)) = push_bit 8 (ucast a) OR ucast b"
    unfolding ntohs_def htons_def byte_masks
    by (rule bit_eqI) (simp add: bit_simps, fastforce dest: bit_imp_le_length)
  also have "\<dots> = push_bit 8 (ucast a) + ucast b"
    by (rule disjunctive_add_eq_or [symmetric]) (rule bit_eqI, auto simp: bit_simps dest: bit_imp_le_length)
  also have "unat \<dots> = unat a * 256 + unat b"
  proof -
    have "unat a * 256 + unat b < 2 ^ 16"
      using unsigned_less [of a, where 'a = nat] unsigned_less [of b, where 'a = nat] by simp
    then show ?thesis by (simp add: push_bit_eq_mult unat_word_ariths unsigned_ucast_eq take_bit_nat_eq_self)
  qed
  finally show ?thesis .
qed

lemma be_sum_append: "even (length xs) \<Longrightarrow> be_sum (xs @ ys) = be_sum xs + be_sum ys"
  by (induction xs rule: be_sum.induct) auto

lemma rd16_word:
  assumes "i + 1 < length p"
  obtains w where "rd16 p i = Some w" "unat (ntohs w) = unat (p ! i) * 256 + unat (p ! (i + 1))"
  using assms unat_ntohs by (simp add: rd16_def)

lemma take_two_words:
  assumes "(i + Suc n) * 2 \<le> length p"
  shows "take (Suc n * 2) (drop (i * 2) p) = p ! (i * 2) # p ! (i * 2 + 1) # take (n * 2) (drop ((i + 1) * 2) p)"
proof -
  have "drop (i * 2) p = p ! (i * 2) # p ! (i * 2 + 1) # drop ((i + 1) * 2) p"
    using assms Cons_nth_drop_Suc [of "i * 2" p] Cons_nth_drop_Suc [of "i * 2 + 1" p] by simp
  then show ?thesis by simp
qed

lemma ck_words_sum:
  assumes "(i + n) * 2 \<le> length p" "unat s = ones_sum t"
  obtains s' where "ck_words p i n s = Some s'" "unat s' = ones_sum (t + be_sum (take (n * 2) (drop (i * 2) p)))"
proof -
  have "\<exists>s'. ck_words p i n s = Some s' \<and> unat s' = ones_sum (t + be_sum (take (n * 2) (drop (i * 2) p)))"
    using assms
  proof (induction n arbitrary: i s t)
    case (Suc n)
    from Suc.prems(1) have "i * 2 + 1 < length p" by simp
    then obtain w where w: "rd16 p (i * 2) = Some w" "unat (ntohs w) = unat (p ! (i * 2)) * 256 + unat (p ! (i * 2 + 1))"
      by (rule rd16_word)
    have "unat (ck_fold (s + ucast (ntohs w))) = ones_sum (t + (unat (p ! (i * 2)) * 256 + unat (p ! (i * 2 + 1))))"
      by (rule unat_ck_add [OF Suc.prems(2) w(2)])
    from Suc.IH [OF _ this, of "i + 1"] Suc.prems(1) obtain s' where
      "ck_words p (i + 1) n (ck_fold (s + ucast (ntohs w))) = Some s'"
      "unat s' = ones_sum (t + (unat (p ! (i * 2)) * 256 + unat (p ! (i * 2 + 1))) + be_sum (take (n * 2) (drop ((i + 1) * 2) p)))"
      by auto
    then show ?case using w(1) take_two_words [OF Suc.prems(1)] by (simp add: add.assoc)
  qed simp
  then show ?thesis using that by blast
qed

lemma ck_result_unat:
  assumes "unat s \<le> 65535"
  shows "ck_result s = of_nat (65535 - unat s)"
proof -
  have m: "(0xFFFF :: u32) = mask 16" by (simp add: mask_eq_exp_minus_1)
  have "ck_result s = NOT (ucast s)"
    unfolding ck_result_def m by (rule bit_eqI) (auto simp: bit_simps)
  also have "\<dots> = - 1 - ucast s" by (simp add: not_eq_complement)
  also have "\<dots> = of_nat 65535 - of_nat (unat s)" by (simp add: unsigned_ucast_eq)
  also have "\<dots> = of_nat (65535 - unat s)" using assms by (simp add: of_nat_diff)
  finally show ?thesis .
qed

lemma calculate_ipv4_checksum_rfc:
  assumes "20 \<le> length p"
  shows "calculate_ipv4_checksum p = Some (rfc_checksum (take 20 p))"
proof -
  obtain s where "ck_words p 0 10 0 = Some s" "unat s = ones_sum (be_sum (take 20 p))"
    using ck_words_sum [of 0 10 p 0 0] assms by (auto simp: ones_sum_def)
  then show ?thesis
    using ck_result_unat [of s] ones_sum_le
    by (simp only: calculate_ipv4_checksum_def rfc_checksum_def bind.bind_lunit)
qed

lemma unat_rfc: "unat (rfc_checksum bs) = 65535 - ones_sum (be_sum bs)"
  by (simp add: rfc_checksum_def unat_of_nat)

lemma w16_word: "ucast (ucast x :: u8) OR push_bit 8 (ucast (ucast (drop_bit 8 x) :: u8)) = (x :: u16)"
  by (rule bit_eqI) (auto simp: bit_simps)

lemma htons_htons [simp]: "htons (htons c) = c"
  unfolding htons_def byte_masks by (rule bit_eqI) (auto simp: bit_simps)

lemma ntohs_htons [simp]: "ntohs (htons c) = c" "htons (ntohs c) = c"
  by (simp_all add: ntohs_def)

lemma htons_0 [simp]: "htons 0 = 0"
  by (simp add: htons_def)

lemma be_sum_w16: "be_sum (w16 x) = unat (ntohs x)"
  using unat_ntohs [of "ucast x" "ucast (drop_bit 8 x)"] by (simp add: w16_def w16_word)

lemma length_w16 [simp]: "length (w16 x) = 2"
  by (simp add: w16_def)

lemma length_w32 [simp]: "length (w32 x) = 4"
  by (simp add: w32_def)

text \<open>Storing a word at an even offset changes the sum by that word.\<close>

lemma be_sum_wr_at:
  assumes "wr_at p (2 * k) (w16 x) = Some q" "2 * k + 2 \<le> n"
  shows "be_sum (take n q) = be_sum (take (2 * k) p) + unat (ntohs x) + be_sum (take (n - (2 * k + 2)) (drop (2 * k + 2) p))"
proof -
  have l: "2 * k + 2 \<le> length p" "q = take (2 * k) p @ w16 x @ drop (2 * k + 2) p"
    using assms(1) by (auto simp: wr_at_def split: if_splits)
  have "take n q = take (2 * k) p @ w16 x @ take (n - (2 * k + 2)) (drop (2 * k + 2) p)"
    using assms(2) l by (simp add: min_absorb2)
  then show ?thesis using l(1) by (simp add: be_sum_append be_sum_w16)
qed

lemma wr_at_same:
  assumes "wr_at p i bs = Some q" "length cs = length bs"
  shows "wr_at q i cs = wr_at p i cs" "length q = length p"
  using assms by (auto simp: wr_at_def split: if_splits)

text \<open>
  Property C20.  \<^verbatim>\<open>calculate_ipv4_checksum\<close> computes the Internet checksum of the twenty bytes of the
  header, and so does its work for the receiver: on any header it returns zero exactly if the one's
  complement sum of the ten words is the all-ones word, and that is the case for a header whose
  checksum field was cleared, summed and then filled in with the result in network byte order.
\<close>

theorem ipv4_checksum_verifies:
  assumes "20 \<le> length p" "wr_at p 10 (w16 0) = Some q" "calculate_ipv4_checksum q = Some c"
    "wr_at q 10 (w16 (htons c)) = Some r"
  shows "c = rfc_checksum (take 20 q) \<and> ones_sum (be_sum (take 20 r)) = 65535 \<and> calculate_ipv4_checksum r = Some 0 \<and>
    (20 \<le> length h \<longrightarrow> (calculate_ipv4_checksum h = Some 0 \<longleftrightarrow> ones_sum (be_sum (take 20 h)) = 65535))"
proof -
  have q: "wr_at p 10 (w16 (htons c)) = Some r" "length q = length p"
    using assms(2,4) wr_at_same [OF assms(2), of "w16 (htons c)"] by simp_all
  have r: "length r = length p" using wr_at_same(2) [OF q(1), of "w16 0"] by simp
  have sq: "be_sum (take 20 q) = be_sum (take 10 p) + be_sum (take 8 (drop 12 p))"
    using be_sum_wr_at [of p 5 0 q 20] assms(2) by (simp add: ntohs_def)
  have rfc: "c = rfc_checksum (take 20 q)" using assms(1,3) calculate_ipv4_checksum_rfc [of q] q(2) by simp
  then have c: "unat c = 65535 - ones_sum (be_sum (take 20 q))" by (simp only: unat_rfc)
  have "be_sum (take 20 r) = be_sum (take 20 q) + (65535 - ones_sum (be_sum (take 20 q)))"
    using be_sum_wr_at [of p 5 "htons c" r 20] q(1) c by (simp add: sq)
  then have ones: "ones_sum (be_sum (take 20 r)) = 65535" by (simp only: ones_sum_complement)
  have iff: "calculate_ipv4_checksum h = Some 0 \<longleftrightarrow> ones_sum (be_sum (take 20 h)) = 65535" if "20 \<le> length h" for h
    using calculate_ipv4_checksum_rfc [OF that] unat_rfc [of "take 20 h"] ones_sum_le [of "be_sum (take 20 h)"]
    by (simp add: unat_eq_zero [symmetric])
  from rfc ones iff [of r] iff [of h] assms(1) r show ?thesis by simp
qed

theorem ipv4_checksum_verifies_witness:
  "15527 = rfc_checksum [69, 0, 0, 84, 0, 0, 64, 0, 64, 1, 0, 0, 127, 0, 0, 1, 127, 0, 0, 1] \<and>
   calculate_ipv4_checksum [69, 0, 0, 84, 0, 0, 64, 0, 64, 1, 60, 167, 127, 0, 0, 1, 127, 0, 0, 1] = Some 0 \<and>
   calculate_ipv4_checksum [69, 0, 0, 84, 0, 0, 64, 0, 64, 1, 60, 167, 127, 0, 0, 1, 127, 0, 0, 2] \<noteq> Some 0"
proof -
  let ?q = "[69, 0, 0, 84, 0, 0, 64, 0, 64, 1, 0, 0, 127, 0, 0, 1, 127, 0, 0, 1]"
  let ?r = "[69, 0, 0, 84, 0, 0, 64, 0, 64, 1, 60, 167, 127, 0, 0, 1, 127, 0, 0, 1]"
  let ?h = "[69, 0, 0, 84, 0, 0, 64, 0, 64, 1, 60, 167, 127, 0, 0, 1, 127, 0, 0, 2]"
  have "wr_at ?q 10 (w16 0) = Some ?q" "calculate_ipv4_checksum ?q = Some 15527" "wr_at ?q 10 (w16 (htons 15527)) = Some ?r"
    by code_simp+
  moreover have "ones_sum (be_sum (take 20 ?h)) \<noteq> 65535" by (simp add: ones_sum_def)
  ultimately show ?thesis using ipv4_checksum_verifies [of ?q ?q 15527 ?r ?h] by simp
qed

lemma tcp_headers_sum:
  assumes "length p = 12" "length h = 20"
  obtains s s' where "ck_words p 0 6 0 = Some s" "ck_words h 0 10 s = Some s'" "unat s' = ones_sum (be_sum p + be_sum h)"
proof -
  obtain s where s: "ck_words p 0 6 0 = Some s" "unat s = ones_sum (be_sum p)"
    using ck_words_sum [of 0 6 p 0 0] assms(1) by (auto simp: ones_sum_def)
  from ck_words_sum [of 0 10 h, OF _ s(2)] assms(2) that [OF s(1)] show ?thesis by auto
qed

lemma calculate_tcp_checksum_null:
  assumes "length p = 12" "length h = 20"
  shows "calculate_tcp_checksum p h None n = Some (rfc_checksum (p @ h))"
proof -
  obtain s s' where "ck_words p 0 6 0 = Some s" "ck_words h 0 10 s = Some s'" "unat s' = ones_sum (be_sum p + be_sum h)"
    using tcp_headers_sum [OF assms] .
  moreover have "be_sum (p @ h) = be_sum p + be_sum h" using assms(1) by (simp add: be_sum_append)
  ultimately show ?thesis using ck_result_unat [of s'] ones_sum_le
    by (simp only: calculate_tcp_checksum_def rfc_checksum_def bind.bind_lunit option.case)
qed

lemma payload_words:
  assumes "length d < 131072"
  shows "unat (ucast ((of_nat (length d) :: u64) div 2) :: u16) = length d div 2"
    "ucast (ucast ((of_nat (length d) :: u64) div 2) :: u16) * 2 = (of_nat (length d) :: u64) \<longleftrightarrow> even (length d)"
proof -
  have n: "unat ((of_nat (length d) :: u64) div 2) = length d div 2"
    using assms by (simp add: unat_div unat_of_nat)
  have h: "length d div 2 < 65536" using assms by linarith
  show u: "unat (ucast ((of_nat (length d) :: u64) div 2) :: u16) = length d div 2"
    using n h by (simp add: unsigned_ucast_eq take_bit_nat_eq_self)
  have "unat (ucast (ucast ((of_nat (length d) :: u64) div 2) :: u16) * 2 :: u64) = length d div 2 * 2"
    using h by (simp add: unat_word_ariths unsigned_ucast_eq [of "ucast _"] u take_bit_nat_eq_self)
  moreover have "unat (of_nat (length d) :: u64) = length d" using assms by (simp add: unat_of_nat)
  ultimately show "ucast (ucast ((of_nat (length d) :: u64) div 2) :: u16) * 2 = (of_nat (length d) :: u64) \<longleftrightarrow> even (length d)"
    by (simp add: word_unat_eq_iff) presburger
qed

lemma be_sum_odd_tail:
  assumes "odd (length d)"
  shows "be_sum d = be_sum (take (length d div 2 * 2) d) + unat (d ! (length d div 2 * 2)) * 256"
proof -
  let ?k = "length d div 2 * 2"
  have k: "Suc ?k = length d" using assms by presburger
  then have "d = take ?k d @ [d ! ?k]" using take_Suc_conv_app_nth [of ?k d] by simp
  then have "be_sum d = be_sum (take ?k d @ [d ! ?k])" by simp
  then show ?thesis using k by (simp add: be_sum_append)
qed

lemma calculate_tcp_checksum_payload:
  assumes "length p = 12" "length h = 20" "length d < 131072"
  shows "calculate_tcp_checksum p h (Some d) (of_nat (length d)) = Some (rfc_checksum (p @ h @ d))"
proof -
  obtain s s1 where s: "ck_words p 0 6 0 = Some s" "ck_words h 0 10 s = Some s1" "unat s1 = ones_sum (be_sum p + be_sum h)"
    using tcp_headers_sum [OF assms(1,2)] .
  obtain s2 where s2: "ck_words d 0 (length d div 2) s1 = Some s2"
    "unat s2 = ones_sum (be_sum p + be_sum h + be_sum (take (length d div 2 * 2) d))"
    using ck_words_sum [of 0 "length d div 2" d, OF _ s(3)] by auto
  have e: "be_sum (p @ h @ d) = be_sum p + be_sum h + be_sum d" using assms by (simp add: be_sum_append)
  show ?thesis
  proof (cases "even (length d)")
    case True
    then show ?thesis
      using s(1,2) s2 ck_result_unat [of s2] ones_sum_le payload_words [OF assms(3)]
      by (simp add: calculate_tcp_checksum_def rfc_checksum_def e del: of_nat_diff)
  next
    case False
    let ?b = "d ! (length d div 2 * 2)"
    have k: "length d div 2 * 2 < length d" using False by presburger
    have "unat (ntohs (ucast ?b OR push_bit 8 (ucast (0 :: u8)))) = unat ?b * 256"
      using unat_ntohs [of ?b 0] by simp
    from unat_ck_add [OF s2(2) this]
    have f: "unat (ck_fold (s2 + ucast (ntohs (ucast ?b)))) = ones_sum (be_sum p + be_sum h + be_sum d)"
      using be_sum_odd_tail [OF False] by (simp add: add.assoc)
    then show ?thesis
      using s(1,2) s2(1) False k ck_result_unat [of "ck_fold (s2 + ucast (ntohs (ucast ?b)))"] ones_sum_le payload_words [OF assms(3)]
      by (simp add: calculate_tcp_checksum_def rfc_checksum_def e rd8_def rd16_def del: of_nat_diff)
  qed
qed

text \<open>
  Property C6.  The checksum of a TCP segment, which folds the carry after every word and treats
  the pseudo header, the header, the payload and an odd last byte apart, is the Internet checksum
  of their concatenation: all words summed first, an odd tail padded with zero, and the total
  reduced once.
\<close>

theorem tcp_checksum_rfc:
  assumes "length p = 12" "length h = 20" "length d < 131072"
  shows "calculate_tcp_checksum p h (Some d) (of_nat (length d)) = Some (rfc_checksum (p @ h @ d))"
  by (rule calculate_tcp_checksum_payload [OF assms])

theorem tcp_checksum_rfc_witness:
  "calculate_tcp_checksum (replicate 12 9) (replicate 20 7) (Some [1, 2, 3]) (of_nat (length [1 :: u8, 2, 3])) =
     Some (rfc_checksum (replicate 12 9 @ replicate 20 7 @ [1, 2, 3]))"
  by (rule tcp_checksum_rfc) simp_all

lemma icmp_words_sum:
  assumes "20 + (i + n) * 2 \<le> length p" "unat s + n * 65535 < 2 ^ 32"
  shows "\<exists>s'. icmp_words p i n s = Some s' \<and> unat s' = unat s + be_sum (take (n * 2) (drop (20 + i * 2) p))"
  using assms
proof (induction n arbitrary: i s)
  case (Suc n)
  from Suc.prems(1) have "20 + i * 2 + 1 < length p" by simp
  then obtain w where w: "rd16 p (20 + i * 2) = Some w" "unat (ntohs w) = unat (p ! (20 + i * 2)) * 256 + unat (p ! (20 + i * 2 + 1))"
    by (rule rd16_word)
  have le: "unat (ntohs w) \<le> 65535" using unsigned_less [of "ntohs w", where 'a = nat] by simp
  have e: "unat (s + ucast (ntohs w)) = unat s + unat (ntohs w)"
    using le Suc.prems(2) by (simp add: unat_word_ariths unsigned_ucast_eq take_bit_nat_eq_self)
  have "\<exists>s'. icmp_words p (i + 1) n (s + ucast (ntohs w)) = Some s' \<and>
      unat s' = unat (s + ucast (ntohs w)) + be_sum (take (n * 2) (drop (20 + (i + 1) * 2) p))"
    using Suc.prems le e by (intro Suc.IH) simp_all
  then show ?case
    using w e take_two_words [of "10 + i" n p] Suc.prems(1) by (auto simp: algebra_simps)
qed simp

lemma single_fold:
  assumes "x < 2 ^ 32"
  shows "(if x > 65535 then x div 65536 + x mod 65536 else x) mod 65536 = ones_sum x \<longleftrightarrow> x div 65536 + x mod 65536 \<le> 65535"
proof (cases "x \<le> 65535")
  case True
  then show ?thesis by (auto simp: ones_sum_def)
next
  case False
  define a b where "a = x div 65536" and "b = x mod 65536"
  have x: "x = a * 65536 + b" "b \<le> 65535" "0 < a" "a \<le> 65535"
    using False assms by (auto simp: a_def b_def div_greater_zero_iff less_mult_imp_div_less)
  have s: "(x - 1) mod 65535 = (a + b - 1) mod 65535"
  proof -
    have "x - 1 = a * 65535 + (a + b - 1)" using x by simp
    then show ?thesis by simp
  qed
  have "ones_sum x = (if a + b \<le> 65535 then a + b else a + b - 65535)"
    unfolding ones_sum_def s using x by (auto simp: le_mod_geq)
  moreover have "(a + b) mod 65536 = (if a + b \<le> 65535 then a + b else a + b - 65536)"
    using x by (auto simp: le_mod_geq)
  ultimately show ?thesis using False x by (auto simp: a_def [symmetric] b_def [symmetric])
qed

lemma ck_result_mod: "ck_result s = of_nat (65535 - unat s mod 65536)"
proof -
  have m: "(0xFFFF :: u32) = mask 16" by (simp add: mask_eq_exp_minus_1)
  have "ck_result s = ck_result (take_bit 16 s)" by (simp add: ck_result_def m take_bit_eq_mask and.assoc)
  moreover have u: "unat (take_bit 16 s) = unat s mod 65536"
    by (simp only: unsigned_take_bit_eq) (simp add: take_bit_eq_mod)
  moreover have "unat s mod 65536 < 65536" by (rule mod_less_divisor) simp
  ultimately show ?thesis using ck_result_unat [of "take_bit 16 s"] by (simp only: u)
qed

lemma of_nat_complement_eq:
  assumes "a \<le> 65535" "b \<le> 65535"
  shows "(of_nat (65535 - a) :: u16) = of_nat (65535 - b) \<longleftrightarrow> a = b"
proof
  assume "(of_nat (65535 - a) :: u16) = of_nat (65535 - b)"
  then have "unat (of_nat (65535 - a) :: u16) = unat (of_nat (65535 - b) :: u16)" by simp
  then have "65535 - a = 65535 - b" by (simp only: unat_of_nat) simp
  then show "a = b" using assms by simp
qed simp

text \<open>
  \<^verbatim>\<open>icmp_checksum\<close> folds the carries of its 32-bit total only once.  On an ICMP message of
  even length it returns the Internet checksum exactly when that fold does not carry again, and a
  wrong value on every other message.
\<close>

theorem icmp_checksum_rfc_iff:
  assumes "rd16 packet 2 = Some len" "unat (ntohs len) = 20 + 2 * n" "20 + 2 * n \<le> length packet"
    "t = be_sum (take (2 * n) (drop 20 packet))"
  shows "icmp_checksum packet = Some (rfc_checksum (take (2 * n) (drop 20 packet))) \<longleftrightarrow> t div 65536 + t mod 65536 \<le> 65535"
proof -
  have n: "n * 65535 < 2 ^ 32" using unsigned_less [of "ntohs len", where 'a = nat] assms(2) by simp
  obtain s where s: "icmp_words packet 0 n 0 = Some s" "unat s = t"
    using icmp_words_sum [of 0 n packet 0] assms(3,4) n by (auto simp: mult.commute)
  have "t < 2 ^ 32" using unsigned_less [of s, where 'a = nat] s(2) by simp
  note f = single_fold [OF this]
  have "icmp_checksum packet = Some (of_nat (65535 - (if t > 65535 then t div 65536 + t mod 65536 else t) mod 65536))"
    using assms(1,2) s by (simp only: icmp_checksum_def bind.bind_lunit ck_result_mod unat_ck_fold) simp
  moreover have "(if t > 65535 then t div 65536 + t mod 65536 else t) mod 65536 \<le> 65535"
    using mod_less_divisor [of 65536 "if t > 65535 then t div 65536 + t mod 65536 else t"] by linarith
  note of_nat_complement_eq [OF this ones_sum_le [of t]]
  ultimately show ?thesis using f assms(4) by (simp add: rfc_checksum_def del: of_nat_diff)
qed

theorem icmp_checksum_rfc_iff_witness:
  "icmp_checksum ([69, 0, 0, 26] @ replicate 16 0 @ [255, 255, 255, 255, 0, 1]) \<noteq>
     Some (rfc_checksum [255, 255, 255, 255, 0, 1])"
  using icmp_checksum_rfc_iff [of "[69, 0, 0, 26] @ replicate 16 0 @ [255, 255, 255, 255, 0, 1]" 6656 3 131071]
  by (simp add: rd16_def ntohs_def htons_def)

section \<open>Reading what was laid out\<close>

lemma w32_word:
  "ucast (ucast x :: u8) OR push_bit 8 (ucast (ucast (drop_bit 8 x) :: u8)) OR
     push_bit 16 (ucast (ucast (drop_bit 16 x) :: u8)) OR push_bit 24 (ucast (ucast (drop_bit 24 x) :: u8)) = (x :: u32)"
proof (rule bit_eqI)
  fix n
  assume "possible_bit TYPE(u32) n"
  then consider "n < 8" | "8 \<le> n" "n < 16" | "16 \<le> n" "n < 24" | "24 \<le> n" "n < 32" by force
  then show "bit (ucast (ucast x :: u8) OR push_bit 8 (ucast (ucast (drop_bit 8 x) :: u8)) OR
      push_bit 16 (ucast (ucast (drop_bit 16 x) :: u8)) OR push_bit 24 (ucast (ucast (drop_bit 24 x) :: u8)) :: u32) n = bit x n"
    by cases (auto simp: bit_simps)
qed

lemma rd8_mid: "length xs = i \<Longrightarrow> rd8 (xs @ x # ys) i = Some x"
  by (auto simp: rd8_def)

lemma rd16_mid: "length xs = i \<Longrightarrow> rd16 (xs @ w16 x @ ys) i = Some x"
  by (auto simp: rd16_def w16_def nth_append w16_word)

lemma rd32_mid: "length xs = i \<Longrightarrow> rd32 (xs @ w32 x @ ys) i = Some x"
  by (auto simp: rd32_def w32_def nth_append w32_word)

lemma copy_mid: "length xs = i \<Longrightarrow> length bs = n \<Longrightarrow> copy_from (xs @ bs @ ys) i n = Some bs"
  by (auto simp: copy_from_def)

lemma copy_all: "n = length bs \<Longrightarrow> copy_from bs 0 n = Some bs"
  by (simp add: copy_from_def)

lemma wr_mid: "length xs = i \<Longrightarrow> length cs = length bs \<Longrightarrow> wr_at (xs @ bs @ ys) i cs = Some (xs @ cs @ ys)"
  by (auto simp: wr_at_def)

lemma htonl_htonl [simp]: "htonl (htonl x) = x"
proof -
  have m: "(0xFF :: u32) = mask 8" "(0xFF00 :: u32) = push_bit 8 (mask 8)" "(0xFF0000 :: u32) = push_bit 16 (mask 8)"
    "(0xFF000000 :: u32) = push_bit 24 (mask 8)"
    by (simp_all add: mask_eq_exp_minus_1)
  show ?thesis
  proof (rule bit_eqI)
    fix n
    assume "possible_bit TYPE(u32) n"
    then consider "n < 8" | "8 \<le> n" "n < 16" | "16 \<le> n" "n < 24" | "24 \<le> n" "n < 32" by force
    then show "bit (htonl (htonl x)) n = bit x n"
      unfolding htonl_def m by cases (auto simp: bit_simps)
  qed
qed

lemma ntohl_htonl [simp]: "ntohl (htonl c) = c" "htonl (ntohl c) = c"
  by (simp_all add: ntohl_def)

lemma header_lengths [simp]:
  "length (ipv4_bytes p) = 20" "length (tcp_bytes t) = 20" "length (udp_bytes u) = 8" "length (tcp_check_bytes c) = 12"
  by (simp_all add: ipv4_bytes_def tcp_bytes_def udp_bytes_def tcp_check_bytes_def)

lemma ipv4_fields:
  "rd16 (ipv4_bytes p @ r) 2 = Some (ip_length p)"
  "rd8 (ipv4_bytes p @ r) 9 = Some (ip_protocol p)"
  "rd32 (ipv4_bytes p @ r) 12 = Some (ip_source p)"
  "rd32 (ipv4_bytes p @ r) 16 = Some (ip_destination p)"
  using rd16_mid [of "[version_ihl p, dscp_ecn p]" 2]
    rd32_mid [of "take 12 (ipv4_bytes p)" 12 "ip_source p" "w32 (ip_destination p) @ r"]
    rd32_mid [of "take 16 (ipv4_bytes p)" 16 "ip_destination p" r]
  by (simp_all add: ipv4_bytes_def w16_def w32_def rd8_def numeral_nat)

lemma arp_fields:
  assumes "length (arp_sha a) = 6" "length (arp_tha a) = 6"
  shows "rd16 (arp_bytes a) 0 = Some (arp_htype a)" "rd16 (arp_bytes a) 2 = Some (arp_ptype a)"
    "rd16 (arp_bytes a) 6 = Some (arp_oper a)" "copy_from (arp_bytes a) 8 6 = Some (arp_sha a)"
    "rd32 (arp_bytes a) 14 = Some (arp_spa a)" "rd32 (arp_bytes a) 24 = Some (arp_tpa a)" "length (arp_bytes a) = 28"
  using rd16_mid [of "[]" 0 "arp_htype a"] rd16_mid [of "w16 (arp_htype a)" 2 "arp_ptype a"]
    rd16_mid [of "w16 (arp_htype a) @ w16 (arp_ptype a) @ [arp_hlen a, arp_plen a]" 6 "arp_oper a"]
    copy_mid [of "w16 (arp_htype a) @ w16 (arp_ptype a) @ [arp_hlen a, arp_plen a] @ w16 (arp_oper a)" 8 "arp_sha a" 6]
    rd32_mid [of "w16 (arp_htype a) @ w16 (arp_ptype a) @ [arp_hlen a, arp_plen a] @ w16 (arp_oper a) @ arp_sha a" 14 "arp_spa a"]
    rd32_mid [of "w16 (arp_htype a) @ w16 (arp_ptype a) @ [arp_hlen a, arp_plen a] @ w16 (arp_oper a) @ arp_sha a @ w32 (arp_spa a) @ arp_tha a"
      24 "arp_tpa a" "[]"] assms
  by (simp_all add: arp_bytes_def)

lemma ethernet_fields:
  assumes "length (eth_destination f) = 6" "length (eth_source f) = 6"
  shows "copy_from (ethernet_bytes f) 0 6 = Some (eth_destination f)" "copy_from (ethernet_bytes f) 6 6 = Some (eth_source f)"
    "rd16 (ethernet_bytes f) 12 = Some (eth_type f)" "drop 14 (ethernet_bytes f) = eth_payload f"
    "length (ethernet_bytes f) = 14 + length (eth_payload f)"
  using copy_mid [of "[]" 0 "eth_destination f" 6] copy_mid [of "eth_destination f" 6 "eth_source f" 6]
    rd16_mid [of "eth_destination f @ eth_source f" 12 "eth_type f"] assms
  by (simp_all add: ethernet_bytes_def)

end
