(* ===== verification/Knet.thy ===== *)
theory Knet
  imports Kwire Khashmap
begin

text \<open>
  The shared state of the network stack and its lower half: the table of interfaces
  (\<^verbatim>\<open>kernel/net/netif.c\<close>), the packet queues of sockets (\<^verbatim>\<open>kernel/net/socket.c\<close>), the sending half of
  \<^verbatim>\<open>kernel/net/eth.c\<close> and the address resolution of \<^verbatim>\<open>kernel/net/arp.c\<close>.

  Sockets, interfaces and cache entries are objects in stores indexed by their address.  The tables
  are the hash maps of \<^verbatim>\<open>kernel/misc/hashmap.c\<close> as modelled in \<open>Khashmap\<close>; the queues of a socket are the lists
  that the linked lists represent, oldest element first.
\<close>

section \<open>State\<close>

record EthernetDevice =
  if_name :: "u8 list"
  mac :: "u8 list"
  mtu :: u64
  ipv4_addr :: u32
  ipv4_subnet :: u32
  ipv4_gateway :: u32
  ipv6_addr :: "u8 list"
  device_node :: addr

record ArpCacheEntry =
  hwaddr :: "u8 list"
  arp_flags :: u16
  arp_iface :: addr

record netif_counters_t =
  tx_count :: u64
  tx_bytes :: u64
  rx_count :: u64
  rx_bytes :: u64

text \<open>
  Which functions the method pointers of a socket hold: the four constructors
  \<^verbatim>\<open>net_raw_socket\<close>, \<^verbatim>\<open>icmp_socket\<close>, \<^verbatim>\<open>udp_socket\<close> and \<^verbatim>\<open>tcp_socket\<close> each install one set.
\<close>

datatype sock_kind = RAW | ICMP | UDP | TCP

text \<open>
  \<open>s_port\<close>, \<open>s_state\<close> and \<open>s_ident\<close> are the slots 0, 1 and 2 of \<^verbatim>\<open>priv\<close>; \<open>s_seq\<close>, \<open>s_ack\<close> and \<open>s_ttl\<close> are the
  slots 0, 1 and 2 of \<^verbatim>\<open>priv32\<close>.  An ICMP socket keeps its identifier in slot 0 of \<^verbatim>\<open>priv32\<close>, which is
  \<open>s_seq\<close>.  \<open>s_dest\<close> is the 16-byte \<^verbatim>\<open>struct sockaddr\<close>.
\<close>

record sock_t =
  s_kind :: sock_kind
  s_refcount :: int
  s_device :: addr
  s_alert_wait :: "addr list"
  s_rx_wait :: "addr list"
  s_rx_queue :: "u8 list list"
  s_port :: u16
  s_state :: u16
  s_ident :: u16
  s_dest :: "u8 list"
  s_seq :: u32
  s_ack :: u32
  s_ttl :: u32
  s_unread :: nat
  s_buf :: "u8 list"
  s_nonblocking :: bool
  s_timeout_s :: u64
  s_timeout_us :: u64

text \<open>
  \<open>n_device\<close> is the \<^verbatim>\<open>device\<close> field of the interface nodes; \<open>n_malloc\<close> lists what the next calls of
  \<^verbatim>\<open>malloc\<close> return for cache entries and sockets; \<open>n_alerted\<close> records the calls of
  \<^verbatim>\<open>process_alert_node\<close>, \<open>n_node_waits\<close> the entries added to the \<^verbatim>\<open>node_waits\<close> list of a process, \<open>n_mounts\<close>
  the calls of \<^verbatim>\<open>vfs_mount\<close>, and \<open>n_woken\<close> the processes that \<^verbatim>\<open>wakeup_queue\<close> made ready; \<open>n_sent\<close> records the frames a
  network driver was given.
\<close>

record net =
  n_interfaces :: "u8 list hashmap_t"
  n_mounts :: "(u8 list \<times> addr) list"
  n_if_first :: addr
  n_if_loop :: addr
  n_device :: "addr \<Rightarrow> addr option"
  n_nics :: "addr \<Rightarrow> EthernetDevice option"
  n_counts :: "addr \<Rightarrow> netif_counters_t option"
  n_arp :: "u64 hashmap_t"
  n_entries :: "addr \<Rightarrow> ArpCacheEntry option"
  n_raw :: "addr list"
  n_udp :: "u64 hashmap_t"
  n_tcp :: "u64 hashmap_t"
  n_icmp :: "u64 hashmap_t"
  n_next_port :: int
  n_next_tcp_port :: int
  n_socks :: "addr \<Rightarrow> sock_t option"
  n_malloc :: "addr list"
  n_alerted :: "(addr \<times> addr) list"
  n_node_waits :: "(addr \<times> addr) list"
  n_woken :: "addr list"
  n_sent :: "(addr \<times> u8 list) list"

text \<open>
  What the stack calls outside: \<^verbatim>\<open>write_fs\<close> on an interface node (a method of the driver), a sleep of
  the current process, during which anything else may run, \<^verbatim>\<open>process_append_fd\<close>, \<^verbatim>\<open>rand\<close>, and the
  current process with its table of file descriptors and the \<^verbatim>\<open>flags\<close> of the nodes in it.
\<close>

record net_env =
  d_write :: "addr \<Rightarrow> u8 list \<Rightarrow> net \<Rightarrow> (int \<times> net) option"
  d_nap :: "net \<Rightarrow> net"
  d_append_fd :: "addr \<Rightarrow> int \<Rightarrow> net \<Rightarrow> int \<times> net"
  d_rand :: u32
  d_proc :: addr
  d_pid :: u32
  d_user :: int
  d_fds :: "addr list"
  d_flags :: "addr \<Rightarrow> u64"

definition alloc :: "net \<Rightarrow> (addr \<times> net) option" where
  "alloc s = (case n_malloc s of [] \<Rightarrow> None
     | a # r \<Rightarrow> if a = NULL then None else Some (a, s\<lparr>n_malloc := r\<rparr>))"

definition nic_device :: "addr \<Rightarrow> net \<Rightarrow> EthernetDevice option" where
  "nic_device nic s = do { d \<leftarrow> n_device s nic; n_nics s d }"

definition upd_sock :: "addr \<Rightarrow> (sock_t \<Rightarrow> sock_t) \<Rightarrow> net \<Rightarrow> net" where
  "upd_sock a f s = s\<lparr>n_socks := (n_socks s)(a := map_option f (n_socks s a))\<rparr>"

section \<open>Interfaces (netif.c)\<close>

text \<open>The mount point is \<^verbatim>\<open>/dev/net/\<close> and the name, cut off by the 100-byte buffer.\<close>

definition dev_net_prefix :: "u8 list" where
  "dev_net_prefix = [47, 100, 101, 118, 47, 110, 101, 116, 47]"

definition net_add_interface :: "u8 list \<Rightarrow> addr \<Rightarrow> net \<Rightarrow> (int \<times> net) option" where
  "net_add_interface name deviceNode s = do {
     (m, _) \<leftarrow> hashmap_set (n_interfaces s) name deviceNode;
     let s = s\<lparr>n_interfaces := m\<rparr>;
     let tmp = take 99 (dev_net_prefix @ name);
     let s = s\<lparr>n_mounts := n_mounts s @ [(tmp, deviceNode)]\<rparr>;
     let s = (if n_if_first s = NULL then s\<lparr>n_if_first := deviceNode\<rparr> else s);
     Some (0, s) }"

definition net_if_lookup :: "u8 list \<Rightarrow> net \<Rightarrow> addr option" where
  "net_if_lookup name s = hashmap_get (n_interfaces s) name"

definition net_if_any :: "net \<Rightarrow> addr" where
  "net_if_any s = n_if_first s"

definition net_if_route :: "u32 \<Rightarrow> net \<Rightarrow> addr" where
  "net_if_route a s = (if a = 0x0100007F then n_if_loop s else n_if_first s)"

section \<open>Packet queues (socket.c)\<close>

text \<open>The loop takes the waiting processes in the order in which they came and alerts each.\<close>

definition net_sock_alert :: "addr \<Rightarrow> net \<Rightarrow> net option" where
  "net_sock_alert a s = do {
     k \<leftarrow> n_socks s a;
     Some (upd_sock a (\<lambda>k. k\<lparr>s_alert_wait := []\<rparr>)
       (s\<lparr>n_alerted := n_alerted s @ map (\<lambda>p. (p, a)) (s_alert_wait k)\<rparr>)) }"

text \<open>\<^verbatim>\<open>wakeup_queue\<close> pops the sleepers from the end of the queue.\<close>

definition net_sock_add :: "addr \<Rightarrow> u8 list \<Rightarrow> nat \<Rightarrow> net \<Rightarrow> net option" where
  "net_sock_add a frame sz s = do {
     k \<leftarrow> n_socks s a;
     bleh \<leftarrow> copy_from frame 0 sz;
     let s = upd_sock a (\<lambda>k. k\<lparr>s_rx_queue := s_rx_queue k @ [bleh]\<rparr>) s;
     let s = upd_sock a (\<lambda>k. k\<lparr>s_rx_wait := []\<rparr>) (s\<lparr>n_woken := n_woken s @ rev (s_rx_wait k)\<rparr>);
     net_sock_alert a s }"

text \<open>
  The sleeps of a blocked reader: whether the sleep was interrupted, and what the rest of the system
  did meanwhile.  When the list is used up the reader is still asleep.
\<close>

type_synonym net_sleeps = "(bool \<times> (net \<Rightarrow> net)) list"

fun net_sock_get :: "net_env \<Rightarrow> net_sleeps \<Rightarrow> addr \<Rightarrow> net \<Rightarrow> (u8 list option \<times> net) option" where
  "net_sock_get D sl a s = (case n_socks s a of None \<Rightarrow> None | Some k \<Rightarrow>
     (case s_rx_queue k of
        v # r \<Rightarrow> Some (Some v, upd_sock a (\<lambda>k. k\<lparr>s_rx_queue := r\<rparr>) s)
      | [] \<Rightarrow> (case sl of [] \<Rightarrow> None | (interrupted, others) # sl \<Rightarrow>
          (let s = others (upd_sock a (\<lambda>k. k\<lparr>s_rx_wait := s_rx_wait k @ [d_proc D]\<rparr>) s) in
           case n_socks s a of None \<Rightarrow> None | Some k \<Rightarrow>
             if interrupted \<and> s_rx_queue k = [] then Some (None, s) else net_sock_get D sl a s))))"

declare net_sock_get.simps [simp del]

definition sock_generic_check :: "addr \<Rightarrow> net \<Rightarrow> int option" where
  "sock_generic_check a s = do {
     k \<leftarrow> n_socks s a;
     Some (if s_rx_queue k \<noteq> [] then 0 else if s_unread k \<noteq> 0 then 0 else 1) }"

definition sock_generic_wait :: "addr \<Rightarrow> addr \<Rightarrow> net \<Rightarrow> (int \<times> net) option" where
  "sock_generic_wait a process s = do {
     k \<leftarrow> n_socks s a;
     let s = (if process \<in> set (s_alert_wait k) then s
              else upd_sock a (\<lambda>k. k\<lparr>s_alert_wait := s_alert_wait k @ [process]\<rparr>) s);
     Some (0, s\<lparr>n_node_waits := n_node_waits s @ [(process, a)]\<rparr>) }"

text \<open>
  \<^verbatim>\<open>net_sock_create\<close> clears the object and opens it once; the kind stands for the methods its caller
  installs.
\<close>

definition net_sock_create :: "sock_kind \<Rightarrow> net \<Rightarrow> (addr \<times> net) option" where
  "net_sock_create kind s = do {
     (a, s) \<leftarrow> alloc s;
     let k = \<lparr>s_kind = kind, s_refcount = 0, s_device = NULL, s_alert_wait = [], s_rx_wait = [], s_rx_queue = [],
              s_port = 0, s_state = 0, s_ident = 0, s_dest = replicate 16 0, s_seq = 0, s_ack = 0, s_ttl = 0,
              s_unread = 0, s_buf = [], s_nonblocking = False, s_timeout_s = 0, s_timeout_us = 0\<rparr>;
     let k = (if s_refcount k \<ge> 0 then k\<lparr>s_refcount := s_refcount k + 1\<rparr> else k);
     Some (a, s\<lparr>n_socks := (n_socks s)(a \<mapsto> k)\<rparr>) }"

section \<open>Ethernet output (eth.c)\<close>

abbreviation (input) ETHERNET_TYPE_IPV4 :: u16 where "ETHERNET_TYPE_IPV4 \<equiv> 0x0800"
abbreviation (input) ETHERNET_TYPE_ARP :: u16 where "ETHERNET_TYPE_ARP \<equiv> 0x0806"
definition ETHERNET_BROADCAST_MAC :: "u8 list" where "ETHERNET_BROADCAST_MAC = replicate 6 0xFF"

definition net_eth_send :: "net_env \<Rightarrow> EthernetDevice \<Rightarrow> nat \<Rightarrow> u8 list \<Rightarrow> u16 \<Rightarrow> u8 list \<Rightarrow> net \<Rightarrow> net option" where
  "net_eth_send D nic len data type dest s = do {
     payload \<leftarrow> copy_from data 0 len;
     destination \<leftarrow> copy_from dest 0 6;
     source \<leftarrow> copy_from (mac nic) 0 6;
     (_, s) \<leftarrow> d_write D (device_node nic) (ethernet_bytes \<lparr>eth_destination = destination, eth_source = source,
                 eth_type = htons type, eth_payload = payload\<rparr>) s;
     Some s }"

section \<open>Address resolution (arp.c)\<close>

definition net_arp_cache_add :: "addr \<Rightarrow> u32 \<Rightarrow> u8 list \<Rightarrow> u16 \<Rightarrow> net \<Rightarrow> net option" where
  "net_arp_cache_add iface a hw flags s = do {
     entry \<leftarrow> hashmap_get (n_arp s) (ucast a);
     (entry, s) \<leftarrow> (if entry = NULL then alloc s else Some (entry, s));
     hw \<leftarrow> copy_from hw 0 6;
     let s = s\<lparr>n_entries := (n_entries s)(entry \<mapsto> \<lparr>hwaddr = hw, arp_flags = flags, arp_iface = iface\<rparr>)\<rparr>;
     (m, _) \<leftarrow> hashmap_set (n_arp s) (ucast a) entry;
     Some (s\<lparr>n_arp := m\<rparr>) }"

definition net_arp_cache_get :: "u32 \<Rightarrow> net \<Rightarrow> addr option" where
  "net_arp_cache_get a s = hashmap_get (n_arp s) (ucast a)"

definition net_arp_ask :: "net_env \<Rightarrow> u32 \<Rightarrow> addr \<Rightarrow> net \<Rightarrow> net option" where
  "net_arp_ask D a fsnic s = do {
     ethnic \<leftarrow> nic_device fsnic s;
     sha \<leftarrow> copy_from (mac ethnic) 0 6;
     let arp_request = \<lparr>arp_htype = htons 1, arp_ptype = htons ETHERNET_TYPE_IPV4, arp_hlen = 6, arp_plen = 4,
           arp_oper = htons 1, arp_sha = sha,
           arp_spa = (if ipv4_addr ethnic \<noteq> 0 then ipv4_addr ethnic else 0),
           arp_tha = replicate 6 0, arp_tpa = a\<rparr>;
     net_eth_send D ethnic 28 (arp_bytes arp_request) ETHERNET_TYPE_ARP ETHERNET_BROADCAST_MAC s }"

definition net_arp_handle :: "net_env \<Rightarrow> u8 list \<Rightarrow> addr \<Rightarrow> net \<Rightarrow> net option" where
  "net_arp_handle D packet nic s = do {
     dev \<leftarrow> n_device s nic;
     htype \<leftarrow> rd16 packet 0;
     if ntohs htype \<noteq> 1 then Some s else do {
     ptype \<leftarrow> rd16 packet 2;
     if ntohs ptype \<noteq> ETHERNET_TYPE_IPV4 then Some s else do {
     spa \<leftarrow> rd32 packet 14;
     s \<leftarrow> (if spa \<noteq> 0 then do { sha \<leftarrow> copy_from packet 8 6; net_arp_cache_add dev spa sha 0 s } else Some s);
     oper \<leftarrow> rd16 packet 6;
     if ntohs oper = 1 then do {
       eth_dev \<leftarrow> n_nics s dev;
       tpa \<leftarrow> rd32 packet 24;
       if ipv4_addr eth_dev \<noteq> 0 \<and> tpa = ipv4_addr eth_dev then do {
         own \<leftarrow> copy_from (mac eth_dev) 0 6;
         sha \<leftarrow> copy_from packet 8 6;
         let response = \<lparr>arp_htype = htons 1, arp_ptype = htons ETHERNET_TYPE_IPV4, arp_hlen = 6, arp_plen = 4,
               arp_oper = htons 2, arp_sha = own, arp_spa = ipv4_addr eth_dev, arp_tha = sha, arp_tpa = spa\<rparr>;
         net_eth_send D eth_dev 28 (arp_bytes response) ETHERNET_TYPE_ARP sha s
       } else Some s
     } else Some s }}}"

section \<open>Sockets and the stores\<close>

lemma upd_sock_simps [simp]:
  "n_socks (upd_sock a f s) b = (if b = a then map_option f (n_socks s a) else n_socks s b)"
  "n_interfaces (upd_sock a f s) = n_interfaces s" "n_if_first (upd_sock a f s) = n_if_first s"
  "n_if_loop (upd_sock a f s) = n_if_loop s" "n_device (upd_sock a f s) = n_device s" "n_nics (upd_sock a f s) = n_nics s"
  "n_counts (upd_sock a f s) = n_counts s"
  "n_arp (upd_sock a f s) = n_arp s" "n_entries (upd_sock a f s) = n_entries s" "n_raw (upd_sock a f s) = n_raw s"
  "n_udp (upd_sock a f s) = n_udp s" "n_tcp (upd_sock a f s) = n_tcp s" "n_icmp (upd_sock a f s) = n_icmp s"
  "n_next_port (upd_sock a f s) = n_next_port s" "n_next_tcp_port (upd_sock a f s) = n_next_tcp_port s"
  "n_malloc (upd_sock a f s) = n_malloc s" "n_sent (upd_sock a f s) = n_sent s" "n_mounts (upd_sock a f s) = n_mounts s"
  by (simp_all add: upd_sock_def)

lemma nic_device_upd [simp]: "nic_device nic (upd_sock a f s) = nic_device nic s"
  by (simp add: nic_device_def)

lemma net_if_route_upd [simp]: "net_if_route x (upd_sock a f s) = net_if_route x s"
  by (simp add: net_if_route_def)

text \<open>
  Adding a packet appends it to the queue of that socket, wakes every reader and every poller, and
  changes no other socket and no table.
\<close>

definition sock_added :: "addr \<Rightarrow> sock_t \<Rightarrow> u8 list \<Rightarrow> net \<Rightarrow> net" where
  "sock_added a k v s = s\<lparr>
     n_socks := (n_socks s)(a \<mapsto> k\<lparr>s_rx_queue := s_rx_queue k @ [v], s_rx_wait := [], s_alert_wait := []\<rparr>),
     n_woken := n_woken s @ rev (s_rx_wait k), n_alerted := n_alerted s @ map (\<lambda>p. (p, a)) (s_alert_wait k)\<rparr>"

lemma net_sock_add_effect:
  assumes "n_socks s a = Some k" "n \<le> length frame"
  shows "net_sock_add a frame n s = Some (sock_added a k (take n frame) s)"
  using assms by (auto simp: net_sock_add_def net_sock_alert_def copy_from_def upd_sock_def sock_added_def)

lemma net_sock_get_ready:
  assumes "n_socks s a = Some k" "s_rx_queue k = v # r"
  shows "net_sock_get D sl a s = Some (Some v, upd_sock a (\<lambda>k. k\<lparr>s_rx_queue := r\<rparr>) s)"
  using assms by (simp add: net_sock_get.simps)

section \<open>Address resolution\<close>

text \<open>A driver that takes every frame; what it was given is recorded.\<close>

definition records :: "net_env \<Rightarrow> bool" where
  "records D \<longleftrightarrow> (\<forall>node buffer s. d_write D node buffer s = Some (int (length buffer), s\<lparr>n_sent := n_sent s @ [(node, buffer)]\<rparr>))"

text \<open>The cache has an entry for the address, or the next allocation succeeds.\<close>

definition arp_room :: "u32 \<Rightarrow> net \<Rightarrow> bool" where
  "arp_room a s \<longleftrightarrow> hm_ok (n_arp s) \<and> (or_null (hm_abs (n_arp s) (ucast a)) \<noteq> NULL \<or> (n_malloc s \<noteq> [] \<and> hd (n_malloc s) \<noteq> NULL))"

lemma net_arp_cache_add_effect:
  assumes "arp_room a s" "length hw = 6"
  obtains m e ms where
    "net_arp_cache_add iface a hw fl s = Some (s\<lparr>n_arp := m,
       n_entries := (n_entries s)(e \<mapsto> \<lparr>hwaddr = hw, arp_flags = fl, arp_iface = iface\<rparr>), n_malloc := ms\<rparr>)"
    "e \<noteq> NULL" "hm_ok m" "hm_abs m = (hm_abs (n_arp s))(ucast a \<mapsto> e)"
proof -
  let ?old = "or_null (hm_abs (n_arp s) (ucast a))"
  have ok: "hm_ok (n_arp s)" using assms(1) by (simp add: arp_room_def)
  obtain e ms where e: "(if ?old = NULL then alloc s else Some (?old, s)) = Some (e, s\<lparr>n_malloc := ms\<rparr>)" "e \<noteq> NULL"
  proof (cases "?old = NULL")
    case True
    then obtain m r where "n_malloc s = m # r" "m \<noteq> NULL"
      using assms(1) by (cases "n_malloc s") (simp_all add: arp_room_def)
    then show ?thesis using True by (intro that [of m r]) (simp_all add: alloc_def)
  next
    case False
    then show ?thesis by (intro that [of ?old "n_malloc s"]) simp_all
  qed
  from imap.put_law [OF ok, of "ucast a" e] obtain m where
    m: "hashmap_set (n_arp s) (ucast a) e = Some (m, ?old)" "hm_ok m" "hm_abs m = (hm_abs (n_arp s))(ucast a \<mapsto> e)"
    by blast
  have "net_arp_cache_add iface a hw fl s = Some (s\<lparr>n_arp := m,
       n_entries := (n_entries s)(e \<mapsto> \<lparr>hwaddr = hw, arp_flags = fl, arp_iface = iface\<rparr>), n_malloc := ms\<rparr>)"
    using e(1) m(1) copy_all [of 6 hw] assms(2)
    by (simp add: net_arp_cache_add_def imap.get_law [OF ok])
  then show ?thesis by (rule that [OF _ e(2) m(2,3)])
qed

lemma net_eth_send_effect:
  assumes "records D" "length data = n" "length dest = 6" "length (mac e) = 6"
  shows "net_eth_send D e n data type dest s = Some (s\<lparr>n_sent := n_sent s @ [(device_node e,
    ethernet_bytes \<lparr>eth_destination = dest, eth_source = mac e, eth_type = htons type, eth_payload = data\<rparr>)]\<rparr>)"
  using assms by (simp add: net_eth_send_def copy_all records_def)

text \<open>The answer to a request: our address, to the host that asked.\<close>

definition arp_answer :: "EthernetDevice \<Rightarrow> arp_header \<Rightarrow> arp_header" where
  "arp_answer e a = \<lparr>arp_htype = htons 1, arp_ptype = htons ETHERNET_TYPE_IPV4, arp_hlen = 6, arp_plen = 4,
     arp_oper = htons 2, arp_sha = mac e, arp_spa = ipv4_addr e, arp_tha = arp_sha a, arp_tpa = arp_spa a\<rparr>"

text \<open>
  An ARP request for IPv4 over Ethernet teaches the cache the hardware address of its
  sender, whoever it asks for, and is answered exactly if it asks for the address of the interface:
  then one frame goes to the sender, with our address as the answer.
\<close>

theorem arp_request_handled:
  assumes "records D" "n_device s nic = Some dev" "n_nics s dev = Some e" "length (mac e) = 6" "ipv4_addr e \<noteq> 0"
    "length (arp_sha a) = 6" "length (arp_tha a) = 6" "arp_htype a = htons 1" "arp_ptype a = htons ETHERNET_TYPE_IPV4"
    "arp_oper a = htons 1" "arp_spa a \<noteq> 0" "arp_room (arp_spa a) s"
  shows "\<exists>s' c. net_arp_handle D (arp_bytes a) nic s = Some s' \<and>
    net_arp_cache_get (arp_spa a) s' = Some c \<and> c \<noteq> NULL \<and> map_option hwaddr (n_entries s' c) = Some (arp_sha a) \<and>
    n_sent s' = n_sent s @ (if arp_tpa a = ipv4_addr e
      then [(device_node e, ethernet_bytes \<lparr>eth_destination = arp_sha a, eth_source = mac e,
              eth_type = htons ETHERNET_TYPE_ARP, eth_payload = arp_bytes (arp_answer e a)\<rparr>)]
      else [])"
proof -
  from net_arp_cache_add_effect [OF assms(12,6), of dev 0] obtain m c ms where
    m: "net_arp_cache_add dev (arp_spa a) (arp_sha a) 0 s = Some (s\<lparr>n_arp := m,
       n_entries := (n_entries s)(c \<mapsto> \<lparr>hwaddr = arp_sha a, arp_flags = 0, arp_iface = dev\<rparr>), n_malloc := ms\<rparr>)"
      "c \<noteq> NULL" "hm_ok m" "hm_abs m = (hm_abs (n_arp s))(ucast (arp_spa a) \<mapsto> c)" .
  have l: "length (arp_bytes (arp_answer e a)) = 28"
    by (rule arp_fields(7)) (simp_all add: arp_answer_def assms)
  note fields = arp_fields [OF assms(6,7)]
  show ?thesis
    using m(2,4) assms(2,3,5) fields net_eth_send_effect [OF assms(1) l assms(6,4)]
    by (simp add: net_arp_handle_def m(1) assms(4,8-11) copy_all arp_answer_def [symmetric]
        net_arp_cache_get_def imap.get_law [OF m(3)])
qed

text \<open>A small state for examples: one interface besides the loopback interface, empty tables.\<close>

definition ex_map :: "u64 hashmap_t" where
  "ex_map = \<lparr>hash_func = hashmap_int_hash, hash_comp = hashmap_int_comp, hm_size = 10, hm_entries = replicate 10 []\<rparr>"

definition ex_eth :: EthernetDevice where
  "ex_eth = \<lparr>if_name = [101], mac = [2, 0, 0, 0, 0, 1], mtu = 1500, ipv4_addr = 0x0A00000A, ipv4_subnet = 0xFF,
     ipv4_gateway = 0x0100000A, ipv6_addr = replicate 16 0, device_node = 16\<rparr>"

definition ex_lo :: EthernetDevice where
  "ex_lo = \<lparr>if_name = [108, 111], mac = replicate 6 0, mtu = 65536, ipv4_addr = 0x0100007F, ipv4_subnet = 0xFF,
     ipv4_gateway = 0, ipv6_addr = replicate 16 0, device_node = 32\<rparr>"

definition ex_net :: net where
  "ex_net = \<lparr>n_interfaces = \<lparr>hash_func = hashmap_string_hash, hash_comp = hashmap_string_comp, hm_size = 10, hm_entries = replicate 10 []\<rparr>,
     n_mounts = [], n_if_first = 16, n_if_loop = 32, n_device = [16 \<mapsto> 17, 32 \<mapsto> 33], n_nics = [17 \<mapsto> ex_eth, 33 \<mapsto> ex_lo],
     n_counts = [33 \<mapsto> \<lparr>tx_count = 0, tx_bytes = 0, rx_count = 0, rx_bytes = 0\<rparr>],
     n_arp = ex_map, n_entries = (\<lambda>_. None), n_raw = [], n_udp = ex_map, n_tcp = ex_map, n_icmp = ex_map,
     n_next_port = 12345, n_next_tcp_port = 49152, n_socks = (\<lambda>_. None), n_malloc = [64, 80, 96, 112],
     n_alerted = [], n_node_waits = [], n_woken = [], n_sent = []\<rparr>"

definition log_env :: net_env where
  "log_env = \<lparr>d_write = (\<lambda>node buffer s. Some (int (length buffer), s\<lparr>n_sent := n_sent s @ [(node, buffer)]\<rparr>)),
     d_nap = (\<lambda>s. s), d_append_fd = (\<lambda>a flags s. (3, s)), d_rand = 4, d_proc = 8, d_pid = 7, d_user = 0,
     d_fds = [], d_flags = (\<lambda>_. 0)\<rparr>"

lemma ex_map_ok [simp]: "hm_ok ex_map" "hm_abs ex_map = (\<lambda>_. None)"
  by (rule hm_create_ok [of 10]; simp add: ex_map_def int_comp_eq)+

lemma records_log_env [simp]: "records log_env"
  by (simp add: records_def log_env_def)

definition ex_ask :: arp_header where
  "ex_ask = \<lparr>arp_htype = htons 1, arp_ptype = htons ETHERNET_TYPE_IPV4, arp_hlen = 6, arp_plen = 4, arp_oper = htons 1,
     arp_sha = [2, 0, 0, 0, 0, 9], arp_spa = 0x0900000A, arp_tha = replicate 6 0, arp_tpa = 0x0A00000A\<rparr>"

theorem arp_request_handled_witness:
  "\<exists>s' c. net_arp_handle log_env (arp_bytes ex_ask) 16 ex_net = Some s' \<and>
    net_arp_cache_get 0x0900000A s' = Some c \<and> c \<noteq> NULL \<and> map_option hwaddr (n_entries s' c) = Some [2, 0, 0, 0, 0, 9] \<and>
    length (n_sent s') = 1"
proof -
  have "\<exists>s' c. net_arp_handle log_env (arp_bytes ex_ask) 16 ex_net = Some s' \<and>
    net_arp_cache_get (arp_spa ex_ask) s' = Some c \<and> c \<noteq> NULL \<and> map_option hwaddr (n_entries s' c) = Some (arp_sha ex_ask) \<and>
    n_sent s' = n_sent ex_net @ (if arp_tpa ex_ask = ipv4_addr ex_eth
      then [(device_node ex_eth, ethernet_bytes \<lparr>eth_destination = arp_sha ex_ask, eth_source = mac ex_eth,
              eth_type = htons ETHERNET_TYPE_ARP, eth_payload = arp_bytes (arp_answer ex_eth ex_ask)\<rparr>)]
      else [])"
    by (rule arp_request_handled [where dev = 17])
      (simp_all add: ex_net_def ex_eth_def ex_ask_def arp_room_def)
  then show ?thesis by (auto simp: ex_ask_def ex_eth_def ex_net_def)
qed

end
