(* ===== verification/Kipv4.thy ===== *)
theory Kipv4
  imports Knet
begin

text \<open>
  The Internet protocols of \<^verbatim>\<open>kernel/net/ipv4.c\<close>: sending with address resolution, the handlers of
  incoming ICMP, UDP and TCP packets, and the operations of the three kinds of sockets.
\<close>

section \<open>Constants and messages\<close>

abbreviation (input) EAGAIN :: int where "EAGAIN \<equiv> 11"
abbreviation (input) ENONET :: int where "ENONET \<equiv> 64"
abbreviation (input) EAFNOSUPPORT :: int where "EAFNOSUPPORT \<equiv> 106"
abbreviation (input) ENOTSOCK :: int where "ENOTSOCK \<equiv> 108"
abbreviation (input) ENOPROTOOPT :: int where "ENOPROTOOPT \<equiv> 109"
abbreviation (input) ECONNREFUSED :: int where "ECONNREFUSED \<equiv> 111"
abbreviation (input) EADDRINUSE :: int where "EADDRINUSE \<equiv> 112"
abbreviation (input) ECONNABORTED :: int where "ECONNABORTED \<equiv> 113"
abbreviation (input) ETIMEDOUT :: int where "ETIMEDOUT \<equiv> 116"
abbreviation (input) ESOCKTNOSUPPORT :: int where "ESOCKTNOSUPPORT \<equiv> 124"
abbreviation (input) EADDRNOTAVAIL :: int where "EADDRNOTAVAIL \<equiv> 125"


abbreviation (input) IPV4_PROT_UDP :: u8 where "IPV4_PROT_UDP \<equiv> 17"
abbreviation (input) IPV4_PROT_TCP :: u8 where "IPV4_PROT_TCP \<equiv> 6"

abbreviation (input) TCP_STATE_NONE :: u16 where "TCP_STATE_NONE \<equiv> 0"
abbreviation (input) TCP_STATE_WAITING :: u16 where "TCP_STATE_WAITING \<equiv> 1"
abbreviation (input) TCP_STATE_ACKED :: u16 where "TCP_STATE_ACKED \<equiv> 2"
abbreviation (input) TCP_STATE_FIN :: u16 where "TCP_STATE_FIN \<equiv> 3"
abbreviation (input) TCP_STATE_BOUND :: u16 where "TCP_STATE_BOUND \<equiv> 4"

abbreviation (input) TCP_FLAGS_FIN :: u16 where "TCP_FLAGS_FIN \<equiv> 1"
abbreviation (input) TCP_FLAGS_SYN :: u16 where "TCP_FLAGS_SYN \<equiv> 2"
abbreviation (input) TCP_FLAGS_RST :: u16 where "TCP_FLAGS_RST \<equiv> 4"
abbreviation (input) TCP_FLAGS_PSH :: u16 where "TCP_FLAGS_PSH \<equiv> 8"
abbreviation (input) TCP_FLAGS_ACK :: u16 where "TCP_FLAGS_ACK \<equiv> 16"


definition DEFAULT_TCP_WINDOW_SIZE :: u16 where "DEFAULT_TCP_WINDOW_SIZE = 65535"

text \<open>
  A \<^verbatim>\<open>struct msghdr\<close>: the buffers behind its pointers are byte lists of the lengths that go with them,
  so \<^verbatim>\<open>msg_iovlen\<close> is the length of \<open>msg_iov\<close> and \<^verbatim>\<open>iov_len\<close> the length of a buffer.  A copy that does not
  fit into its buffer is a fault.
\<close>

record msghdr =
  msg_name :: "u8 list option"
  msg_namelen :: nat
  msg_iov :: "u8 list list"
  msg_control :: "u8 list"
  msg_controllen :: nat

text \<open>\<^verbatim>\<open>struct sockaddr_in\<close>: the family at offset 0, the port at 2, the address at 4, 16 bytes in all.\<close>

definition sin_port :: "u8 list \<Rightarrow> u16 option" where "sin_port a = rd16 a 2"
definition sin_addr :: "u8 list \<Rightarrow> u32 option" where "sin_addr a = rd32 a 4"

definition sockaddr_in_bytes :: "u16 \<Rightarrow> u32 \<Rightarrow> u8 list" where
  "sockaddr_in_bytes port a = w16 1 @ w16 port @ w32 a @ replicate 8 0"

abbreviation (input) AF_INET :: int where "AF_INET \<equiv> 1"

section \<open>Output\<close>

definition net_ipv4_send :: "net_env \<Rightarrow> u8 list \<Rightarrow> addr \<Rightarrow> net \<Rightarrow> net option" where
  "net_ipv4_send D response nic s = do {
     dev \<leftarrow> n_device s nic;
     enic \<leftarrow> n_nics s dev;
     ipdest \<leftarrow> rd32 response 16;
     (resp, s) \<leftarrow>
       (if ipv4_subnet enic = 0 \<or> (ipdest AND ipv4_subnet enic) \<noteq> (ipv4_addr enic AND ipv4_subnet enic)
        then do { resp \<leftarrow> net_arp_cache_get (ipv4_gateway enic) s; Some (resp, s) }
        else do {
          resp \<leftarrow> net_arp_cache_get ipdest s;
          if resp = NULL then do {
            s \<leftarrow> net_arp_ask D ipdest nic s;
            let s = d_nap D s;
            resp \<leftarrow> net_arp_cache_get ipdest s;
            Some (resp, s)
          } else Some (resp, s) });
     enic \<leftarrow> n_nics s dev;
     len \<leftarrow> rd16 response 2;
     hw \<leftarrow> (if resp \<noteq> NULL then map_option hwaddr (n_entries s resp) else Some ETHERNET_BROADCAST_MAC);
     net_eth_send D enic (unat (ntohs len)) response ETHERNET_TYPE_IPV4 hw s }"

text \<open>The header every sender fills in: 20 bytes without options, time to live 64, and the checksum.\<close>

definition ipv4_header :: "nat \<Rightarrow> u32 \<Rightarrow> u32 \<Rightarrow> u8 \<Rightarrow> u16 \<Rightarrow> u16 \<Rightarrow> u8 list option" where
  "ipv4_header total_length destination source protocol ident fragment = (
     let response = \<lparr>version_ihl = 0x45, dscp_ecn = 0, ip_length = htons (of_nat total_length), ip_ident = ident,
           flags_fragment = htons fragment, ip_ttl = 64, ip_protocol = protocol, ip_checksum = 0,
           ip_source = source, ip_destination = destination\<rparr>
     in do {
       c \<leftarrow> calculate_ipv4_checksum (ipv4_bytes response);
       Some (ipv4_bytes (response\<lparr>ip_checksum := htons c\<rparr>)) })"

text \<open>A TCP header and payload with the checksum over the pseudo header.\<close>

definition tcp_segment :: "u32 \<Rightarrow> u32 \<Rightarrow> u16 \<Rightarrow> u16 \<Rightarrow> u32 \<Rightarrow> u32 \<Rightarrow> u16 \<Rightarrow> u8 list option \<Rightarrow> u8 list option" where
  "tcp_segment source destination port dest_port seq ack flags payload = (
     let data = (case payload of None \<Rightarrow> [] | Some d \<Rightarrow> d);
         tcp = \<lparr>tcp_source_port = htons port, tcp_destination_port = dest_port, seq_number = htonl seq,
           ack_number = htonl ack, tcp_flags = htons (flags OR 0x5000), window_size = htons DEFAULT_TCP_WINDOW_SIZE,
           tcp_checksum = 0, tcp_urgent = 0\<rparr>;
         check_hd = \<lparr>chk_source = source, chk_destination = destination, chk_zeros = 0, chk_protocol = IPV4_PROT_TCP,
           chk_tcp_len = htons (of_nat (20 + length data))\<rparr>
     in do {
       c \<leftarrow> calculate_tcp_checksum (tcp_check_bytes check_hd) (tcp_bytes tcp) payload (of_nat (length data));
       Some (tcp_bytes (tcp\<lparr>tcp_checksum := htons c\<rparr>) @ data) })"

text \<open>\<^verbatim>\<open>struct cmsghdr\<close>: an 8-byte length, level and type, then the data.\<close>

definition cmsg_bytes :: "u8 \<Rightarrow> u8 list" where
  "cmsg_bytes ttl = [17, 0, 0, 0, 0, 0, 0, 0] @ w32 0 @ w32 12 @ [ttl]"

definition sock_ipv4_control_common :: "sock_t \<Rightarrow> msghdr \<Rightarrow> u8 list \<Rightarrow> msghdr option" where
  "sock_ipv4_control_common sock msg src = (
     if s_ttl sock \<noteq> 0 \<and> msg_controllen msg > 16 + 1 then do {
       ttl \<leftarrow> rd8 src 8;
       ctl \<leftarrow> wr_at (msg_control msg) 0 (cmsg_bytes ttl);
       Some (msg\<lparr>msg_control := ctl, msg_controllen := 16 + 1\<rparr>)
     } else Some (msg\<lparr>msg_controllen := 0\<rparr>))"

section \<open>ICMP\<close>

definition icmp_echo_reply :: "u8 list \<Rightarrow> u32 \<Rightarrow> u8 list option" where
  "icmp_echo_reply packet own = do {
     len \<leftarrow> rd16 packet 2;
     packet \<leftarrow> (if odd (unat (ntohs len)) then wr_at packet 2 (w16 (htons (ntohs len + 1))) else Some packet);
     len \<leftarrow> rd16 packet 2;
     response \<leftarrow> copy_from packet 0 (unat (ntohs len));
     response \<leftarrow> wr_at response 2 (w16 len);
     src \<leftarrow> rd32 packet 12;
     response \<leftarrow> wr_at response 16 (w32 src);
     response \<leftarrow> wr_at response 12 (w32 own);
     response \<leftarrow> wr_at response 8 [64];
     response \<leftarrow> wr_at response 9 [1];
     ident \<leftarrow> rd16 packet 4;
     response \<leftarrow> wr_at response 4 (w16 ident);
     response \<leftarrow> wr_at response 6 (w16 (htons 0x4000));
     response \<leftarrow> wr_at response 0 [0x45];
     response \<leftarrow> wr_at response 1 [0];
     response \<leftarrow> wr_at response 10 (w16 0);
     c \<leftarrow> calculate_ipv4_checksum response;
     response \<leftarrow> wr_at response 10 (w16 (htons c));
     response \<leftarrow> wr_at response 22 (w16 0);
     response \<leftarrow> wr_at response 20 [0];
     c \<leftarrow> icmp_checksum response;
     wr_at response 22 (w16 (htons c)) }"

definition icmp_handle :: "net_env \<Rightarrow> u8 list \<Rightarrow> addr \<Rightarrow> net \<Rightarrow> net option" where
  "icmp_handle D packet nic s = do {
     type \<leftarrow> rd8 packet 20;
     if type \<noteq> 8 \<and> type \<noteq> 0 then Some s else do {
     code \<leftarrow> rd8 packet 21;
     if code \<noteq> 0 then Some s
     else if type = 8 then do {
       dev \<leftarrow> nic_device nic s;
       response \<leftarrow> icmp_echo_reply packet (ipv4_addr dev);
       net_ipv4_send D response nic s
     } else do {
       identifier \<leftarrow> rd16 packet 24;
       handler \<leftarrow> hashmap_get (n_icmp s) (ucast (ntohs identifier));
       if handler \<noteq> NULL then do {
         len \<leftarrow> rd16 packet 2;
         net_sock_add handler packet (unat (ntohs len)) s
       } else Some s }}}"

definition sock_icmp_close :: "addr \<Rightarrow> net \<Rightarrow> net option" where
  "sock_icmp_close a s = do {
     sock \<leftarrow> n_socks s a;
     (m, _) \<leftarrow> hashmap_remove (n_icmp s) (ucast (s_seq sock));
     Some (s\<lparr>n_icmp := m\<rparr>) }"

text \<open>
  Storing the sender's address: family, port and address into a name buffer of the right length, if
  there is one.
\<close>

definition store_name :: "msghdr \<Rightarrow> u16 \<Rightarrow> u32 \<Rightarrow> msghdr option" where
  "store_name msg port a = (
     if msg_namelen msg = 16 then (case msg_name msg of None \<Rightarrow> Some msg | Some n \<Rightarrow> do {
       n \<leftarrow> wr_at n 0 (w16 1);
       n \<leftarrow> wr_at n 2 (w16 port);
       n \<leftarrow> wr_at n 4 (w32 a);
       Some (msg\<lparr>msg_name := Some n\<rparr>) })
     else Some msg)"

definition store_iov :: "msghdr \<Rightarrow> u8 list \<Rightarrow> msghdr option" where
  "store_iov msg data = (case msg_iov msg of [] \<Rightarrow> None | b # r \<Rightarrow> do {
     b \<leftarrow> wr_at b 0 data;
     Some (msg\<lparr>msg_iov := b # r\<rparr>) })"

definition sock_icmp_recv :: "net_env \<Rightarrow> net_sleeps \<Rightarrow> addr \<Rightarrow> msghdr \<Rightarrow> net \<Rightarrow> (int \<times> msghdr \<times> net) option" where
  "sock_icmp_recv D sl a msg s = (
     if length (msg_iov msg) > 1 then Some (- ENOTSUP, msg, s)
     else if msg_iov msg = [] then Some (0, msg, s)
     else do {
       sock \<leftarrow> n_socks s a;
       if s_rx_queue sock = [] \<and> s_nonblocking sock then Some (- EAGAIN, msg, s) else do {
       (packet, s) \<leftarrow> net_sock_get D sl a s;
       case packet of None \<Rightarrow> Some (- EINTR, msg, s) | Some src \<Rightarrow> do {
         sock \<leftarrow> n_socks s a;
         let packet_size = (of_nat (length src) - 20 :: u64);
         let iov_len = (of_nat (length (hd (msg_iov msg))) :: u64);
         let packet_size = (if packet_size > iov_len then iov_len else packet_size);
         source \<leftarrow> rd32 src 12;
         msg \<leftarrow> store_name msg 0 source;
         msg \<leftarrow> sock_ipv4_control_common sock msg src;
         data \<leftarrow> copy_from src 20 (unat packet_size);
         msg \<leftarrow> store_iov msg data;
         Some (sint packet_size, msg, s) }}})"

definition sock_icmp_send :: "net_env \<Rightarrow> addr \<Rightarrow> msghdr \<Rightarrow> net \<Rightarrow> (int \<times> net) option" where
  "sock_icmp_send D a msg s = (
     if length (msg_iov msg) > 1 then Some (- ENOTSUP, s)
     else if msg_iov msg = [] then Some (0, s)
     else if msg_namelen msg \<noteq> 16 then Some (- EINVAL, s)
     else let icmp = hd (msg_iov msg) in
     if length icmp < 6 then Some (- EINVAL, s)
     else do {
       type \<leftarrow> rd8 icmp 0;
       code \<leftarrow> rd8 icmp 1;
       if type \<noteq> 8 \<or> code \<noteq> 0 then Some (- EINVAL, s) else do {
       identifier \<leftarrow> rd16 icmp 4;
       if identifier \<noteq> 0 then Some (- EINVAL, s) else do {
       name \<leftarrow> msg_name msg;
       dest \<leftarrow> sin_addr name;
       let nic = net_if_route dest s;
       if nic = NULL then Some (- ENONET, s) else do {
       dev \<leftarrow> nic_device nic s;
       hdr \<leftarrow> ipv4_header (20 + length icmp) dest (ipv4_addr dev) 1 0 0x4000;
       sock \<leftarrow> n_socks s a;
       response \<leftarrow> wr_at (hdr @ icmp) 24 (w16 (htons (ucast (s_seq sock))));
       response \<leftarrow> wr_at response 22 (w16 0);
       c \<leftarrow> icmp_checksum response;
       response \<leftarrow> wr_at response 22 (w16 (htons c));
       s \<leftarrow> net_ipv4_send D response nic s;
       Some (0, s) }}}})"

abbreviation (input) PROC_FD_MODE__RW :: int where "PROC_FD_MODE__RW \<equiv> 3"

definition icmp_socket :: "net_env \<Rightarrow> int \<Rightarrow> bool \<Rightarrow> net \<Rightarrow> (int \<times> net) option" where
  "icmp_socket D flags nb s = do {
     taken \<leftarrow> hashmap_has (n_icmp s) (scast (d_pid D));
     if taken then Some (- EINVAL, s) else do {
     (a, s) \<leftarrow> net_sock_create ICMP s;
     let s = upd_sock a (\<lambda>k. k\<lparr>s_seq := d_pid D, s_nonblocking := nb\<rparr>) s;
     (m, _) \<leftarrow> hashmap_set (n_icmp s) (ucast (d_pid D)) a;
     Some (d_append_fd D a (flags OR PROC_FD_MODE__RW) (s\<lparr>n_icmp := m\<rparr>)) }}"

section \<open>Input\<close>

definition tcp_ack :: "net_env \<Rightarrow> addr \<Rightarrow> addr \<Rightarrow> u8 list \<Rightarrow> bool \<Rightarrow> u64 \<Rightarrow> net \<Rightarrow> (bool \<times> net) option" where
  "tcp_ack D nic a packet isSynAck payload_len s = do {
     sock \<leftarrow> n_socks s a;
     seqn \<leftarrow> rd32 packet 24;
     let unexpected = (s_ack sock \<noteq> 0 \<and> \<not> isSynAck \<and> s_ack sock \<noteq> ntohl seqn);
     let sock = (if unexpected then sock
       else sock\<lparr>s_seq := (if isSynAck then 1 else s_seq sock), s_ack := ucast (ucast (ntohl seqn) + payload_len),
                 s_state := TCP_STATE_ACKED\<rparr>);
     let sock = sock\<lparr>s_ident := s_ident sock + 1\<rparr>;
     source \<leftarrow> rd32 packet 12;
     dev \<leftarrow> nic_device nic s;
     hdr \<leftarrow> ipv4_header 40 source (ipv4_addr dev) IPV4_PROT_TCP (htons (s_ident sock)) 0;
     flags \<leftarrow> rd16 packet 32;
     let sock = (if ntohs flags AND TCP_FLAGS_FIN \<noteq> 0
       then sock\<lparr>s_ack := s_ack sock + 1, s_state := TCP_STATE_FIN\<rparr> else sock);
     source_port \<leftarrow> rd16 packet 20;
     tcp \<leftarrow> tcp_segment (ipv4_addr dev) source (s_port sock) source_port (s_seq sock) (s_ack sock) TCP_FLAGS_ACK None;
     let s = upd_sock a (\<lambda>_. sock) s;
     s \<leftarrow> net_ipv4_send D (hdr @ tcp) nic s;
     s \<leftarrow> (if unexpected then do { s \<leftarrow> net_ipv4_send D (hdr @ tcp) nic s; net_ipv4_send D (hdr @ tcp) nic s } else Some s);
     Some (\<not> unexpected, s) }"

definition tcp_handle :: "net_env \<Rightarrow> u8 list \<Rightarrow> addr \<Rightarrow> addr \<Rightarrow> net \<Rightarrow> net option" where
  "tcp_handle D packet nic a s = do {
     sock \<leftarrow> n_socks s a;
     if s_state sock = TCP_STATE_WAITING then do {
       flags \<leftarrow> rd16 packet 32;
       if (ntohs flags AND (TCP_FLAGS_SYN OR TCP_FLAGS_ACK)) = (TCP_FLAGS_SYN OR TCP_FLAGS_ACK) then do {
         (ok, s) \<leftarrow> tcp_ack D nic a packet True 1 s;
         len \<leftarrow> rd16 packet 2;
         if ok then net_sock_add a packet (unat (ntohs len)) s else Some s
       } else if ntohs flags AND TCP_FLAGS_RST \<noteq> 0 then
         net_sock_alert a (upd_sock a (\<lambda>k. k\<lparr>s_state := 0\<rparr>) s)
       else Some s
     } else if s_state sock = TCP_STATE_ACKED then do {
       len \<leftarrow> rd16 packet 2;
       flags \<leftarrow> rd16 packet 32;
       let packet_len = (ucast (ntohs len) - 20 :: u64);
       let hlen = (ucast (drop_bit 12 (ntohs flags AND 0xF000)) * 4 :: u64);
       let payload_len = packet_len - hlen;
       if payload_len \<noteq> 0 then do {
         (ok, s) \<leftarrow> tcp_ack D nic a packet False payload_len s;
         if ok then net_sock_add a packet (unat (ntohs len)) s else Some s
       } else if ntohs flags AND TCP_FLAGS_FIN \<noteq> 0 then do {
         (_, s) \<leftarrow> tcp_ack D nic a packet False 0 s;
         Some s
       } else Some s
     } else Some s }"

text \<open>A packet shorter than the header is reported, but not dropped: the loads below then leave it.\<close>

definition net_ipv4_handle :: "net_env \<Rightarrow> u8 list \<Rightarrow> addr \<Rightarrow> net \<Rightarrow> net option" where
  "net_ipv4_handle D packet nic s = do {
     _ \<leftarrow> rd32 packet 16;
     _ \<leftarrow> rd32 packet 12;
     protocol \<leftarrow> rd8 packet 9;
     if protocol = 1 then icmp_handle D packet nic s
     else if protocol = IPV4_PROT_UDP then do {
       dest_port \<leftarrow> rd16 packet 22;
       known \<leftarrow> hashmap_has (n_udp s) (ucast (ntohs dest_port));
       if known then do {
         sock \<leftarrow> hashmap_get (n_udp s) (ucast (ntohs dest_port));
         len \<leftarrow> rd16 packet 2;
         net_sock_add sock packet (unat (ntohs len)) s
       } else Some s
     } else if protocol = IPV4_PROT_TCP then do {
       dest_port \<leftarrow> rd16 packet 22;
       sock \<leftarrow> hashmap_get (n_tcp s) (ucast (ntohs dest_port));
       if sock \<noteq> NULL then tcp_handle D packet nic sock s else Some s
     } else Some s }"

section \<open>UDP sockets\<close>

definition udp_get_port :: "addr \<Rightarrow> net \<Rightarrow> (int \<times> net) option" where
  "udp_get_port a s = do {
     let out = n_next_port s;
     (m, _) \<leftarrow> hashmap_set (n_udp s) (of_int out) a;
     Some (out, upd_sock a (\<lambda>k. k\<lparr>s_port := of_int out\<rparr>) (s\<lparr>n_next_port := out + 1, n_udp := m\<rparr>)) }"

text \<open>The copy of a \<^verbatim>\<open>struct sockaddr_in\<close> to the caller, cut off at the length the caller gives.\<close>

definition copy_name :: "u8 list \<Rightarrow> u8 list \<Rightarrow> nat \<Rightarrow> (u8 list \<times> nat) option" where
  "copy_name out addr_buf addrlen = do {
     b \<leftarrow> wr_at addr_buf 0 (take (if addrlen < 16 then addrlen else 16) out);
     Some (b, if addrlen < 16 then 16 else addrlen) }"

definition sock_udp_getsockname :: "addr \<Rightarrow> u8 list \<Rightarrow> nat \<Rightarrow> net \<Rightarrow> (int \<times> u8 list \<times> nat) option" where
  "sock_udp_getsockname a addr_buf addrlen s = do {
     sock \<leftarrow> n_socks s a;
     if s_port sock = 0 then Some (- EINVAL, addr_buf, addrlen) else do {
     (b, l) \<leftarrow> copy_name (sockaddr_in_bytes (htons (s_port sock)) 0) addr_buf addrlen;
     Some (0, b, l) }}"

definition sock_udp_send :: "net_env \<Rightarrow> addr \<Rightarrow> msghdr \<Rightarrow> net \<Rightarrow> (int \<times> net) option" where
  "sock_udp_send D a msg s = (
     if length (msg_iov msg) > 1 then Some (- ENOTSUP, s)
     else if msg_iov msg = [] then Some (0, s)
     else if msg_namelen msg \<noteq> 16 then Some (- EINVAL, s)
     else let data = hd (msg_iov msg) in do {
       name \<leftarrow> msg_name msg;
       port \<leftarrow> sin_port name;
       if port = 0 then Some (- EADDRNOTAVAIL, s) else do {
       sock \<leftarrow> n_socks s a;
       (_, s) \<leftarrow> (if s_port sock = 0 then udp_get_port a s else Some (0, s));
       dest \<leftarrow> sin_addr name;
       let nic = net_if_route dest s;
       if nic = NULL then Some (0, s) else do {
       dev \<leftarrow> nic_device nic s;
       hdr \<leftarrow> ipv4_header (20 + length data + 8) dest (ipv4_addr dev) IPV4_PROT_UDP 0 0x4000;
       sock \<leftarrow> n_socks s a;
       let udp = \<lparr>udp_source_port = htons (s_port sock), udp_destination_port = port,
             udp_length = htons (of_nat (8 + length data)), udp_checksum = 0\<rparr>;
       s \<leftarrow> net_ipv4_send D (hdr @ udp_bytes udp @ data) nic s;
       Some (int (length data), s) }}})"

definition sock_udp_recv :: "net_env \<Rightarrow> net_sleeps \<Rightarrow> addr \<Rightarrow> msghdr \<Rightarrow> net \<Rightarrow> (int \<times> msghdr \<times> net) option" where
  "sock_udp_recv D sl a msg s = do {
     sock \<leftarrow> n_socks s a;
     if s_port sock = 0 then Some (- EINVAL, msg, s)
     else if length (msg_iov msg) > 1 then Some (- ENOTSUP, msg, s)
     else if msg_iov msg = [] then Some (0, msg, s)
     else if s_rx_queue sock = [] \<and> s_nonblocking sock then Some (- EAGAIN, msg, s)
     else do {
       (packet, s) \<leftarrow> net_sock_get D sl a s;
       case packet of None \<Rightarrow> Some (- EINTR, msg, s) | Some data \<Rightarrow> do {
         sock \<leftarrow> n_socks s a;
         len \<leftarrow> rd16 data 2;
         let resp = (ucast (ntohs len) - 20 - 8 :: u64);
         bytes \<leftarrow> copy_from data 28 (unat resp);
         msg \<leftarrow> store_iov msg bytes;
         port \<leftarrow> rd16 data 20;
         source \<leftarrow> rd32 data 12;
         msg \<leftarrow> store_name msg port source;
         msg \<leftarrow> sock_ipv4_control_common sock msg data;
         Some (sint resp, msg, s) }}}"

definition sock_udp_close :: "addr \<Rightarrow> net \<Rightarrow> net option" where
  "sock_udp_close a s = do {
     sock \<leftarrow> n_socks s a;
     if s_port sock \<noteq> 0 then do {
       (m, _) \<leftarrow> hashmap_remove (n_udp s) (ucast (s_port sock));
       Some (s\<lparr>n_udp := m\<rparr>)
     } else Some s }"

definition sock_udp_bind :: "net_env \<Rightarrow> addr \<Rightarrow> u8 list \<Rightarrow> net \<Rightarrow> (int \<times> net) option" where
  "sock_udp_bind D a addr_in s = do {
     sock \<leftarrow> n_socks s a;
     if s_port sock \<noteq> 0 then Some (- EINVAL, s) else do {
     sp \<leftarrow> sin_port addr_in;
     let port = int (unat (ntohs sp));
     let (port, s, denied) =
       (if port = 0 then (n_next_port s, s\<lparr>n_next_port := n_next_port s + 1\<rparr>, False)
        else (port, s, port < 1024 \<and> d_user D \<noteq> 0));
     if denied then Some (- EACCES, s) else do {
     used \<leftarrow> hashmap_has (n_udp s) (of_int port);
     if used then Some (- EADDRINUSE, s) else do {
     (m, _) \<leftarrow> hashmap_set (n_udp s) (of_int port) a;
     Some (0, upd_sock a (\<lambda>k. k\<lparr>s_port := of_int port\<rparr>) (s\<lparr>n_udp := m\<rparr>)) }}}}"

definition udp_socket :: "net_env \<Rightarrow> int \<Rightarrow> bool \<Rightarrow> net \<Rightarrow> (int \<times> net) option" where
  "udp_socket D flags nb s = do {
     (a, s) \<leftarrow> net_sock_create UDP s;
     let s = upd_sock a (\<lambda>k. k\<lparr>s_nonblocking := nb\<rparr>) s;
     Some (d_append_fd D a (flags OR PROC_FD_MODE__RW) s) }"

section \<open>TCP sockets\<close>

definition sock_tcp_close :: "net_env \<Rightarrow> addr \<Rightarrow> net \<Rightarrow> net option" where
  "sock_tcp_close D a s = do {
     sock \<leftarrow> n_socks s a;
     if s_port sock = 0 then Some s else do {
     (m, _) \<leftarrow> hashmap_remove (n_tcp s) (ucast (s_port sock));
     let s = s\<lparr>n_tcp := m\<rparr>;
     dest \<leftarrow> sin_addr (s_dest sock);
     let nic = net_if_route dest s;
     if nic = NULL then Some s else do {
     dev \<leftarrow> nic_device nic s;
     let sock = sock\<lparr>s_ident := s_ident sock + 1\<rparr>;
     let s = upd_sock a (\<lambda>_. sock) s;
     hdr \<leftarrow> ipv4_header 40 dest (ipv4_addr dev) IPV4_PROT_TCP (htons (s_ident sock)) 0;
     port \<leftarrow> sin_port (s_dest sock);
     tcp \<leftarrow> tcp_segment (ipv4_addr dev) dest (s_port sock) port (s_seq sock) (s_ack sock)
       (TCP_FLAGS_FIN OR TCP_FLAGS_ACK) (Some []);
     net_ipv4_send D (hdr @ tcp) nic s }}}"

definition tcp_get_port :: "addr \<Rightarrow> net \<Rightarrow> (int \<times> net) option" where
  "tcp_get_port a s = do {
     let out = n_next_tcp_port s;
     (m, _) \<leftarrow> hashmap_set (n_tcp s) (of_int out) a;
     Some (out, upd_sock a (\<lambda>k. k\<lparr>s_port := of_int out\<rparr>) (s\<lparr>n_next_tcp_port := out + 1, n_tcp := m\<rparr>)) }"

text \<open>
  The calls of \<^verbatim>\<open>process_wait_nodes\<close> of a blocked socket operation: the result of the call, the time
  read afterwards, and what the rest of the system did meanwhile.
\<close>

type_synonym waits = "(int \<times> (u64 \<times> u64) \<times> (net \<Rightarrow> net)) list"

definition later :: "u64 \<times> u64 \<Rightarrow> u64 \<times> u64 \<Rightarrow> bool" where
  "later now deadline = (fst now > fst deadline \<or> (fst now = fst deadline \<and> snd now > snd deadline))"

text \<open>The loop of \<^verbatim>\<open>sock_tcp_recv\<close> and \<^verbatim>\<open>sock_tcp_accept\<close>: \<open>Some r\<close> is an early return, \<open>None\<close> its normal end.\<close>

fun tcp_wait :: "u64 \<times> u64 \<Rightarrow> waits \<Rightarrow> addr \<Rightarrow> net \<Rightarrow> (int option \<times> net) option" where
  "tcp_wait deadline ws a s = (case n_socks s a of None \<Rightarrow> None | Some k \<Rightarrow>
     if s_rx_queue k \<noteq> [] then Some (None, s)
     else (case ws of [] \<Rightarrow> None | (r, now, others) # ws \<Rightarrow>
       (let s = others s in
        if r > 0 \<and> deadline \<noteq> (0, 0) \<and> later now deadline then Some (Some (- EAGAIN), s)
        else if r = - EINTR then Some (Some (- ERESTARTSYS), s)
        else (case n_socks s a of None \<Rightarrow> None | Some k \<Rightarrow>
          if s_rx_queue k = [] \<and> s_state k = TCP_STATE_FIN then Some (Some 0, s)
          else tcp_wait deadline ws a s))))"

declare tcp_wait.simps [simp del]

definition sock_tcp_recv :: "net_env \<Rightarrow> u64 \<times> u64 \<Rightarrow> waits \<Rightarrow> net_sleeps \<Rightarrow> addr \<Rightarrow> msghdr \<Rightarrow> net \<Rightarrow> (int \<times> msghdr \<times> net) option" where
  "sock_tcp_recv D clock ws sl a msg s = do {
     sock \<leftarrow> n_socks s a;
     if s_port sock = 0 then Some (- EINVAL, msg, s)
     else if length (msg_iov msg) > 1 then Some (- ENOTSUP, msg, s)
     else if msg_iov msg = [] then Some (0, msg, s)
     else let iov_len = length (hd (msg_iov msg)) in
     if s_unread sock \<noteq> 0 then
       (if s_unread sock > iov_len then do {
          let unread = s_unread sock - iov_len;
          data \<leftarrow> copy_from (s_buf sock) 0 iov_len;
          msg \<leftarrow> store_iov msg data;
          x \<leftarrow> copy_from (s_buf sock) iov_len unread;
          Some (int iov_len, msg, upd_sock a (\<lambda>k. k\<lparr>s_unread := unread, s_buf := x\<rparr>) s)
        } else do {
          data \<leftarrow> copy_from (s_buf sock) 0 (s_unread sock);
          msg \<leftarrow> store_iov msg data;
          Some (int (s_unread sock), msg, upd_sock a (\<lambda>k. k\<lparr>s_unread := 0, s_buf := []\<rparr>) s) })
     else if s_rx_queue sock = [] \<and> s_state sock = TCP_STATE_FIN then Some (0, msg, s)
     else if s_rx_queue sock = [] \<and> s_nonblocking sock then Some (- EAGAIN, msg, s)
     else do {
       (early, s) \<leftarrow> tcp_wait (if s_timeout_s sock \<noteq> 0 \<or> s_timeout_us sock \<noteq> 0 then clock else (0, 0)) ws a s;
       case early of Some r \<Rightarrow> Some (r, msg, s) | None \<Rightarrow> do {
       (packet, s) \<leftarrow> net_sock_get D sl a s;
       case packet of None \<Rightarrow> Some (- EINTR, msg, s) | Some data \<Rightarrow>
         (let resp = length data in
          if resp < 20 + 20 then None
          else let resp = resp - (20 + 20) in
          if resp > iov_len then do {
            first \<leftarrow> copy_from data 40 iov_len;
            msg \<leftarrow> store_iov msg first;
            let resp = resp - iov_len;
            rest \<leftarrow> copy_from data (40 + iov_len) resp;
            Some (int iov_len, msg, upd_sock a (\<lambda>k. k\<lparr>s_unread := resp, s_buf := rest\<rparr>) s)
          } else do {
            bytes \<leftarrow> copy_from data 40 resp;
            msg \<leftarrow> store_iov msg bytes;
            Some (int resp, msg, s) }) }}}"

text \<open>
  The loop of \<^verbatim>\<open>sock_tcp_connect\<close>.  A wait also gives the deadline that is computed if the attempt is
  repeated in that turn.
\<close>

fun tcp_connect_wait :: "net_env \<Rightarrow> u8 list \<Rightarrow> addr \<Rightarrow> u64 \<times> u64 \<Rightarrow> nat \<Rightarrow> (int \<times> (u64 \<times> u64) \<times> (u64 \<times> u64) \<times> (net \<Rightarrow> net)) list
    \<Rightarrow> addr \<Rightarrow> net \<Rightarrow> (int option \<times> net) option" where
  "tcp_connect_wait D response nic deadline attempts ws a s = (case n_socks s a of None \<Rightarrow> None | Some k \<Rightarrow>
     if s_rx_queue k \<noteq> [] then Some (None, s)
     else (case ws of [] \<Rightarrow> None | (r, now, again, others) # ws \<Rightarrow>
       (let s = others s in
        if r = - EINTR then Some (Some (- EINTR), s)
        else (case n_socks s a of None \<Rightarrow> None | Some k \<Rightarrow>
          if s_state k = TCP_STATE_NONE then Some (Some (- ECONNREFUSED), s)
          else if r \<noteq> 0 \<and> later now deadline then
            (if attempts = 3 then Some (Some (- ETIMEDOUT), s)
             else (case net_ipv4_send D response nic s of None \<Rightarrow> None | Some s \<Rightarrow>
               tcp_connect_wait D response nic again (attempts + 1) ws a s))
          else tcp_connect_wait D response nic deadline attempts ws a s))))"

declare tcp_connect_wait.simps [simp del]

definition sock_tcp_connect :: "net_env \<Rightarrow> u64 \<times> u64 \<Rightarrow> (int \<times> (u64 \<times> u64) \<times> (u64 \<times> u64) \<times> (net \<Rightarrow> net)) list \<Rightarrow> net_sleeps
    \<Rightarrow> addr \<Rightarrow> u8 list \<Rightarrow> nat \<Rightarrow> net \<Rightarrow> (int \<times> net) option" where
  "sock_tcp_connect D deadline ws sl a dest addrlen s = do {
     sock \<leftarrow> n_socks s a;
     dest_addr \<leftarrow> sin_addr dest;
     if s_state sock \<noteq> TCP_STATE_NONE then Some (- EINVAL, s) else do {
     port \<leftarrow> sin_port dest;
     if port = 0 then Some (- EADDRNOTAVAIL, s) else do {
     (_, s) \<leftarrow> tcp_get_port a s;
     let s = upd_sock a (\<lambda>k. k\<lparr>s_state := TCP_STATE_WAITING\<rparr>) s;
     sock \<leftarrow> n_socks s a;
     bytes \<leftarrow> copy_from dest 0 addrlen;
     d \<leftarrow> wr_at (s_dest sock) 0 bytes;
     let s = upd_sock a (\<lambda>k. k\<lparr>s_dest := d\<rparr>) s;
     let nic = net_if_route dest_addr s;
     if nic = NULL then Some (- ENONET, s) else do {
     dev \<leftarrow> nic_device nic s;
     let s = upd_sock a (\<lambda>k. k\<lparr>s_ident := ucast (d_rand D)\<rparr>) s;
     hdr \<leftarrow> ipv4_header 40 dest_addr (ipv4_addr dev) IPV4_PROT_TCP (htons (ucast (d_rand D))) 0;
     tcp \<leftarrow> tcp_segment (ipv4_addr dev) dest_addr (s_port sock) port 0 0 2 None;
     s \<leftarrow> net_ipv4_send D (hdr @ tcp) nic s;
     (early, s) \<leftarrow> tcp_connect_wait D (hdr @ tcp) nic deadline 0 ws a s;
     case early of Some r \<Rightarrow> Some (r, s) | None \<Rightarrow> do {
       (packet, s) \<leftarrow> net_sock_get D sl a s;
       Some (case packet of None \<Rightarrow> - EINTR | Some _ \<Rightarrow> 0, s) }}}}}"

text \<open>
  The loop of \<^verbatim>\<open>sock_tcp_send\<close>: segments of at most 1024 bytes.  \<open>pause i\<close> is what the rest of the system
  does if the process yields after the first \<open>i\<close> bytes.
\<close>

function tcp_send_loop :: "net_env \<Rightarrow> (nat \<Rightarrow> net \<Rightarrow> net) \<Rightarrow> addr \<Rightarrow> u8 list \<Rightarrow> nat \<Rightarrow> net \<Rightarrow> (int \<times> net) option" where
  "tcp_send_loop D pause a data size_into s = (
     let size_remaining = length data - size_into in
     if size_remaining = 0 then Some (int size_into, s)
     else let size_to_send = (if size_remaining > 1024 then 1024 else size_remaining) in do {
       sock \<leftarrow> n_socks s a;
       dest \<leftarrow> sin_addr (s_dest sock);
       let nic = net_if_route dest s;
       if nic = NULL then Some (- ENONET, s) else do {
       dev \<leftarrow> nic_device nic s;
       let sock = sock\<lparr>s_ident := s_ident sock + 1\<rparr>;
       hdr \<leftarrow> ipv4_header (40 + size_to_send) dest (ipv4_addr dev) IPV4_PROT_TCP (htons (s_ident sock)) 0;
       port \<leftarrow> sin_port (s_dest sock);
       chunk \<leftarrow> copy_from data size_into size_to_send;
       tcp \<leftarrow> tcp_segment (ipv4_addr dev) dest (s_port sock) port (s_seq sock) (s_ack sock)
         (TCP_FLAGS_PSH OR TCP_FLAGS_ACK) (Some chunk);
       let s = upd_sock a (\<lambda>_. sock\<lparr>s_seq := s_seq sock + of_nat size_to_send\<rparr>) s;
       s \<leftarrow> net_ipv4_send D (hdr @ tcp) nic s;
       let s = (if size_remaining - size_to_send \<noteq> 0 then pause (size_into + size_to_send) s else s);
       tcp_send_loop D pause a data (size_into + size_to_send) s }})"
  by pat_completeness auto

termination
  by (relation "measure (\<lambda>(_, _, _, data, size_into, _). length data - size_into)") auto

declare tcp_send_loop.simps [simp del]

definition sock_tcp_send :: "net_env \<Rightarrow> (nat \<Rightarrow> net \<Rightarrow> net) \<Rightarrow> addr \<Rightarrow> msghdr \<Rightarrow> net \<Rightarrow> (int \<times> net) option" where
  "sock_tcp_send D pause a msg s = (
     if length (msg_iov msg) > 1 then Some (- ENOTSUP, s)
     else if msg_iov msg = [] then Some (0, s)
     else tcp_send_loop D pause a (hd (msg_iov msg)) 0 s)"

definition plain_msg :: "u8 list \<Rightarrow> msghdr" where
  "plain_msg buffer = \<lparr>msg_name = None, msg_namelen = 0, msg_iov = [buffer], msg_control = [], msg_controllen = 0\<rparr>"

definition sock_tcp_read :: "net_env \<Rightarrow> u64 \<times> u64 \<Rightarrow> waits \<Rightarrow> net_sleeps \<Rightarrow> addr \<Rightarrow> u8 list \<Rightarrow> net \<Rightarrow> (int \<times> msghdr \<times> net) option" where
  "sock_tcp_read D clock ws sl node buffer s = sock_tcp_recv D clock ws sl node (plain_msg buffer) s"

definition sock_tcp_write :: "net_env \<Rightarrow> (nat \<Rightarrow> net \<Rightarrow> net) \<Rightarrow> addr \<Rightarrow> u8 list \<Rightarrow> net \<Rightarrow> (int \<times> net) option" where
  "sock_tcp_write D pause node buffer s = sock_tcp_send D pause node (plain_msg buffer) s"

definition sock_tcp_getsockname :: "addr \<Rightarrow> u8 list \<Rightarrow> nat \<Rightarrow> net \<Rightarrow> (int \<times> u8 list \<times> nat) option" where
  "sock_tcp_getsockname a addr_buf addrlen s = do {
     sock \<leftarrow> n_socks s a;
     dest \<leftarrow> sin_addr (s_dest sock);
     let nic = net_if_route dest s;
     ip4_addr \<leftarrow> (if nic \<noteq> NULL then map_option ipv4_addr (nic_device nic s) else Some 0);
     (b, l) \<leftarrow> copy_name (sockaddr_in_bytes (htons (s_port sock)) ip4_addr) addr_buf addrlen;
     Some (0, b, l) }"

definition sock_tcp_getpeername :: "addr \<Rightarrow> u8 list \<Rightarrow> nat \<Rightarrow> net \<Rightarrow> (int \<times> u8 list \<times> nat) option" where
  "sock_tcp_getpeername a addr_buf addrlen s = do {
     sock \<leftarrow> n_socks s a;
     dest \<leftarrow> sin_addr (s_dest sock);
     port \<leftarrow> sin_port (s_dest sock);
     (b, l) \<leftarrow> copy_name (sockaddr_in_bytes port dest) addr_buf addrlen;
     Some (0, b, l) }"

definition sock_tcp_bind :: "net_env \<Rightarrow> addr \<Rightarrow> u8 list \<Rightarrow> net \<Rightarrow> (int \<times> net) option" where
  "sock_tcp_bind D a addr_in s = do {
     sock \<leftarrow> n_socks s a;
     if s_port sock \<noteq> 0 then Some (- EINVAL, s) else do {
     sp \<leftarrow> sin_port addr_in;
     let port = ntohs sp;
     if port = 0 then Some (- EINVAL, s)
     else if port < 1024 \<and> d_user D \<noteq> 0 then Some (- EACCES, s)
     else do {
     used \<leftarrow> hashmap_has (n_tcp s) (ucast port);
     if used then Some (- EADDRINUSE, s) else do {
     (m, _) \<leftarrow> hashmap_set (n_tcp s) (ucast port) a;
     Some (0, upd_sock a (\<lambda>k. k\<lparr>s_port := port, s_state := TCP_STATE_BOUND\<rparr>) (s\<lparr>n_tcp := m\<rparr>)) }}}}"

definition sock_tcp_listen :: "addr \<Rightarrow> net \<Rightarrow> int option" where
  "sock_tcp_listen a s = do { sock \<leftarrow> n_socks s a; Some (if s_port sock = 0 then - EINVAL else 0) }"

definition sock_tcp_accept :: "net_env \<Rightarrow> u64 \<times> u64 \<Rightarrow> waits \<Rightarrow> net_sleeps \<Rightarrow> addr \<Rightarrow> net \<Rightarrow> (int \<times> net) option" where
  "sock_tcp_accept D clock ws sl a s = do {
     sock \<leftarrow> n_socks s a;
     if s_port sock = 0 then Some (- EINVAL, s) else do {
     (early, s) \<leftarrow> tcp_wait (if s_timeout_s sock \<noteq> 0 \<or> s_timeout_us sock \<noteq> 0 then clock else (0, 0)) ws a s;
     case early of Some r \<Rightarrow> Some (r, s) | None \<Rightarrow> do {
       (connect_request, s) \<leftarrow> net_sock_get D sl a s;
       Some (case connect_request of None \<Rightarrow> - ECONNABORTED | Some _ \<Rightarrow> - EINVAL, s) }}}"

definition tcp_socket :: "net_env \<Rightarrow> int \<Rightarrow> bool \<Rightarrow> net \<Rightarrow> (int \<times> net) option" where
  "tcp_socket D flags nb s = do {
     (a, s) \<leftarrow> net_sock_create TCP s;
     Some (d_append_fd D a (flags OR PROC_FD_MODE__RW) s) }"

definition net_ipv4_socket :: "net_env \<Rightarrow> int \<Rightarrow> int \<Rightarrow> int \<Rightarrow> bool \<Rightarrow> net \<Rightarrow> (int \<times> net) option" where
  "net_ipv4_socket D type protocol flags nb s = (
     if type = 2 then
       (if protocol = 0 \<or> protocol = 17 then udp_socket D flags nb s
        else if protocol = 1 then icmp_socket D flags nb s
        else Some (- EINVAL, s))
     else if type = 1 then tcp_socket D flags nb s
     else Some (- EINVAL, s))"

definition net_so_ipv4_socket :: "addr \<Rightarrow> int \<Rightarrow> u8 list \<Rightarrow> nat \<Rightarrow> net \<Rightarrow> (int \<times> net) option" where
  "net_so_ipv4_socket a optname optval optlen s = (
     if optname = 12 then
       (if optlen \<noteq> 4 then Some (- EINVAL, s)
        else do { v \<leftarrow> rd32 optval 0; Some (0, upd_sock a (\<lambda>k. k\<lparr>s_ttl := v\<rparr>) s) })
     else Some (- ENOPROTOOPT, s))"

section \<open>Sending\<close>

text \<open>The host a packet goes to next, and that its hardware address is in the cache.\<close>

definition next_hop :: "EthernetDevice \<Rightarrow> u32 \<Rightarrow> u32" where
  "next_hop e dst = (if ipv4_subnet e = 0 \<or> (dst AND ipv4_subnet e) \<noteq> (ipv4_addr e AND ipv4_subnet e)
     then ipv4_gateway e else dst)"

definition resolved :: "net \<Rightarrow> EthernetDevice \<Rightarrow> u32 \<Rightarrow> u8 list \<Rightarrow> bool" where
  "resolved s e dst hw \<longleftrightarrow> hm_ok (n_arp s) \<and> length hw = 6 \<and> (\<exists>c. hm_abs (n_arp s) (ucast (next_hop e dst)) = Some c \<and>
     c \<noteq> NULL \<and> map_option hwaddr (n_entries s c) = Some hw)"

definition eth_frame :: "EthernetDevice \<Rightarrow> u8 list \<Rightarrow> u8 list \<Rightarrow> u8 list" where
  "eth_frame e hw p = ethernet_bytes \<lparr>eth_destination = hw, eth_source = mac e, eth_type = htons ETHERNET_TYPE_IPV4, eth_payload = p\<rparr>"

text \<open>Handing a packet for a known host to the driver, as a single call of its write method.\<close>

lemma net_ipv4_send_resolved:
  assumes "n_device s nic = Some dev" "n_nics s dev = Some e" "length (mac e) = 6"
    "rd32 p 16 = Some dst" "rd16 p 2 = Some len" "unat (ntohs len) = length p" "resolved s e dst hw"
  shows "net_ipv4_send D p nic s = map_option snd (d_write D (device_node e) (eth_frame e hw p) s)"
proof -
  obtain c en where c: "hm_abs (n_arp s) (ucast (next_hop e dst)) = Some c" "c \<noteq> NULL" "n_entries s c = Some en" "hwaddr en = hw"
    using assms(7) by (auto simp: resolved_def)
  have ok: "hm_ok (n_arp s)" "length hw = 6" using assms(7) by (simp_all add: resolved_def)
  have g: "net_arp_cache_get (next_hop e dst) s = Some c"
    by (simp add: net_arp_cache_get_def imap.get_law [OF ok(1)] c(1))
  have "net_eth_send D e (length p) p ETHERNET_TYPE_IPV4 hw s = map_option snd (d_write D (device_node e) (eth_frame e hw p) s)"
    using ok(2) assms(3) by (cases "d_write D (device_node e) (eth_frame e hw p) s")
      (auto simp: net_eth_send_def copy_all eth_frame_def)
  then show ?thesis
    using assms(1,2,4-6) g c(2-4) by (auto simp: net_ipv4_send_def next_hop_def split: if_splits)
qed

lemma ipv4_header_filled:
  obtains h where "ipv4_header n dst src proto ident frag = Some (ipv4_bytes h)"
    "ip_length h = htons (of_nat n)" "ip_destination h = dst" "ip_source h = src" "ip_protocol h = proto"
  by (auto simp: ipv4_header_def calculate_ipv4_checksum_rfc)

lemma tcp_segment_filled:
  assumes "length (case payload of None \<Rightarrow> [] | Some d \<Rightarrow> d) < 131072"
  obtains t where "tcp_segment src dst port dport seq ack flags payload = Some (tcp_bytes t @ (case payload of None \<Rightarrow> [] | Some d \<Rightarrow> d))"
    "tcp_source_port t = htons port" "tcp_destination_port t = dport" "seq_number t = htonl seq" "ack_number t = htonl ack"
    "tcp_flags t = htons (flags OR 0x5000)"
  using assms by (cases payload) (auto simp: tcp_segment_def calculate_tcp_checksum_null calculate_tcp_checksum_payload)

section \<open>UDP\<close>

definition udp_datagram :: "ipv4_packet \<Rightarrow> udp_packet \<Rightarrow> u8 list \<Rightarrow> u8 list" where
  "udp_datagram h u data = ipv4_bytes h @ udp_bytes u @ data"

definition udp_wf :: "ipv4_packet \<Rightarrow> u8 list \<Rightarrow> bool" where
  "udp_wf h data \<longleftrightarrow> ip_protocol h = IPV4_PROT_UDP \<and> ip_length h = htons (of_nat (28 + length data)) \<and> 28 + length data < 65536"

lemma udp_datagram_fields:
  "rd16 (udp_datagram h u data) 20 = Some (udp_source_port u)"
  "rd16 (udp_datagram h u data) 22 = Some (udp_destination_port u)"
  "copy_from (udp_datagram h u data) 28 (length data) = Some data"
  "length (udp_datagram h u data) = 28 + length data"
  using rd16_mid [of "ipv4_bytes h" 20] rd16_mid [of "ipv4_bytes h @ w16 (udp_source_port u)" 22]
    copy_mid [of "ipv4_bytes h @ udp_bytes u" 28 data "length data" "[]"]
  by (simp_all add: udp_datagram_def) (simp_all add: udp_bytes_def)

lemma unat_of_nat_16: "n < 65536 \<Longrightarrow> unat (of_nat n :: u16) = n"
  by (simp add: unat_of_nat)

lemma udp_payload_size:
  assumes "n < 65536 - 28"
  shows "unat (ucast (of_nat (28 + n) :: u16) - 28 :: u64) = n" "sint (ucast (of_nat (28 + n) :: u16) - 28 :: u64) = int n"
proof -
  have "(ucast (of_nat (28 + n) :: u16) :: u64) = of_nat (unat (of_nat (28 + n) :: u16))" by simp
  also have "\<dots> = of_nat (28 + n)" using assms by (simp only: unat_of_nat_16)
  finally have e: "(ucast (of_nat (28 + n) :: u16) - 28 :: u64) = of_nat n" by simp
  show "unat (ucast (of_nat (28 + n) :: u16) - 28 :: u64) = n"
    unfolding e using assms by (simp add: unat_of_nat)
  show "sint (ucast (of_nat (28 + n) :: u16) - 28 :: u64) = int n"
    unfolding e using assms by (simp add: signed_of_nat signed_take_bit_int_eq_self)
qed

lemma udp_handle_bound:
  assumes "hm_ok (n_udp s)" "hm_abs (n_udp s) (ucast p) = Some a" "n_socks s a = Some k"
    "udp_wf h data" "udp_destination_port u = htons p"
  shows "net_ipv4_handle D (udp_datagram h u data) nic s = Some (sock_added a k (udp_datagram h u data) s)"
proof -
  let ?p = "udp_datagram h u data"
  have l: "rd16 ?p 2 = Some (ip_length h)" "rd8 ?p 9 = Some IPV4_PROT_UDP" "rd32 ?p 12 = Some (ip_source h)" "rd32 ?p 16 = Some (ip_destination h)"
    using assms(4) by (simp_all add: udp_datagram_def ipv4_fields udp_wf_def)
  have n: "unat (ntohs (ip_length h)) = length ?p"
    using assms(4) unat_of_nat_16 [of "28 + length data"] by (simp add: udp_wf_def udp_datagram_fields(4) del: of_nat_add)
  have "hashmap_has (n_udp s) (ucast p) = Some True" "hashmap_get (n_udp s) (ucast p) = Some a"
    by (simp_all add: hashmap_has_abs [OF assms(1)] hashmap_get_abs [OF assms(1)] assms(2))
  then show ?thesis
    using net_sock_add_effect [of s a k "length ?p" ?p] assms(3,5)
    by (simp add: net_ipv4_handle_def l udp_datagram_fields(2) n)
qed

lemma sock_udp_bind_ok:
  assumes "hm_ok (n_udp s)" "n_socks s a = Some k" "s_port k = 0" "sin_port addr_in = Some (htons p)" "p \<noteq> 0"
    "1024 \<le> p \<or> d_user D = 0" "hm_abs (n_udp s) (ucast p) = None"
  obtains m where "sock_udp_bind D a addr_in s = Some (0, upd_sock a (\<lambda>k. k\<lparr>s_port := p\<rparr>) (s\<lparr>n_udp := m\<rparr>))"
    "hm_ok m" "hm_abs m = (hm_abs (n_udp s))(ucast p \<mapsto> a)"
proof -
  from imap.put_law [OF assms(1), of "ucast p" a] obtain m where
    m: "hashmap_set (n_udp s) (ucast p) a = Some (m, NULL)" "hm_ok m" "hm_abs m = (hm_abs (n_udp s))(ucast p \<mapsto> a)"
    using assms(7) by auto
  have u: "uint p \<noteq> 0" "\<not> uint p < 1024 \<or> d_user D = 0"
    using assms(5,6) by (auto simp: word_le_def uint_0_iff)
  have w: "(word_of_int (uint p) :: u64) = ucast p" by simp
  have "sock_udp_bind D a addr_in s = Some (0, upd_sock a (\<lambda>k. k\<lparr>s_port := p\<rparr>) (s\<lparr>n_udp := m\<rparr>))"
    using assms(2-4) u m(1) hashmap_has_abs [OF assms(1), of "ucast p"] assms(7)
    by (auto simp: sock_udp_bind_def Let_def w)
  then show ?thesis by (rule that [OF _ m(2,3)])
qed

lemma sock_udp_recv_queued:
  assumes "n_socks s a = Some k" "s_port k \<noteq> 0" "s_rx_queue k = udp_datagram h u data # r" "udp_wf h data"
    "msg_iov msg = [buf]"
  shows "sock_udp_recv D sl a msg s = do {
    msg \<leftarrow> store_iov msg data;
    msg \<leftarrow> store_name msg (udp_source_port u) (ip_source h);
    msg \<leftarrow> sock_ipv4_control_common (k\<lparr>s_rx_queue := r\<rparr>) msg (udp_datagram h u data);
    Some (int (length data), msg, upd_sock a (\<lambda>k. k\<lparr>s_rx_queue := r\<rparr>) s) }"
proof -
  let ?p = "udp_datagram h u data"
  have l: "rd16 ?p 2 = Some (htons (of_nat (28 + length data)))" "rd32 ?p 12 = Some (ip_source h)"
    using assms(4) by (simp_all add: udp_datagram_def ipv4_fields udp_wf_def)
  have "length data < 65536 - 28" using assms(4) by (simp add: udp_wf_def)
  note n = udp_payload_size [OF this]
  show ?thesis
    using assms(1-3,5) net_sock_get_ready [OF assms(1,3)]
    by (simp add: sock_udp_recv_def Let_def l n udp_datagram_fields(1,3) del: of_nat_add)
qed

text \<open>
  Property C18.  A UDP socket that is bound to a port receives a datagram for that port: the handler
  queues the packet on that socket and on no other, and the next \<^verbatim>\<open>recv\<close> with a large enough buffer
  returns the length of the payload, stores the payload at the start of the buffer and the sender's
  port and address in the name.
\<close>

theorem udp_delivery:
  assumes "hm_ok (n_udp s)" "n_socks s a = Some k" "s_port k = 0" "s_rx_queue k = []" "s_ttl k = 0"
    "sin_port addr_in = Some (htons p)" "p \<noteq> 0" "1024 \<le> p \<or> d_user D = 0" "hm_abs (n_udp s) (ucast p) = None"
    "udp_wf h data" "udp_destination_port u = htons p"
    "msg_iov msg = [buf]" "length data \<le> length buf" "msg_name msg = Some nm" "msg_namelen msg = 16" "length nm = 16"
  shows "\<exists>s1 s2 msg' s3. sock_udp_bind D a addr_in s = Some (0, s1) \<and>
    net_ipv4_handle D (udp_datagram h u data) nic s1 = Some s2 \<and>
    (\<forall>b. b \<noteq> a \<longrightarrow> n_socks s2 b = n_socks s b) \<and>
    sock_udp_recv D [] a msg s2 = Some (int (length data), msg', s3) \<and>
    msg_iov msg' = [data @ drop (length data) buf] \<and>
    (\<exists>n. msg_name msg' = Some n \<and> take 8 n = w16 1 @ w16 (udp_source_port u) @ w32 (ip_source h))"
proof -
  from sock_udp_bind_ok [OF assms(1-3,6-9)] obtain m where
    m: "sock_udp_bind D a addr_in s = Some (0, upd_sock a (\<lambda>k. k\<lparr>s_port := p\<rparr>) (s\<lparr>n_udp := m\<rparr>))"
      "hm_ok m" "hm_abs m = (hm_abs (n_udp s))(ucast p \<mapsto> a)" .
  let ?s1 = "upd_sock a (\<lambda>k. k\<lparr>s_port := p\<rparr>) (s\<lparr>n_udp := m\<rparr>)" and ?k1 = "k\<lparr>s_port := p\<rparr>" and ?p = "udp_datagram h u data"
  have s1: "n_socks ?s1 a = Some ?k1" "hm_ok (n_udp ?s1)" "hm_abs (n_udp ?s1) (ucast p) = Some a"
    using assms(2) m(2,3) by simp_all
  let ?s2 = "sock_added a ?k1 ?p ?s1" and ?k2 = "?k1\<lparr>s_rx_queue := s_rx_queue ?k1 @ [?p], s_rx_wait := [], s_alert_wait := []\<rparr>"
  have h: "net_ipv4_handle D ?p nic ?s1 = Some ?s2"
    by (rule udp_handle_bound [OF s1(2,3,1) assms(10,11)])
  have k2: "n_socks ?s2 a = Some ?k2" "s_port ?k2 \<noteq> 0" "s_rx_queue ?k2 = ?p # []"
    using assms(4,7) by (simp_all add: sock_added_def)
  obtain n where n: "wr_at nm 0 (w16 1) = Some (w16 1 @ drop 2 nm)"
    "wr_at (w16 1 @ drop 2 nm) 2 (w16 (udp_source_port u)) = Some (w16 1 @ w16 (udp_source_port u) @ drop 4 nm)"
    "wr_at (w16 1 @ w16 (udp_source_port u) @ drop 4 nm) 4 (w32 (ip_source h)) = Some n"
    "n = w16 1 @ w16 (udp_source_port u) @ w32 (ip_source h) @ drop 8 nm"
    using assms(16) by (simp add: wr_at_def numeral_nat)
  have "\<exists>msg' s3. sock_udp_recv D [] a msg ?s2 = Some (int (length data), msg', s3) \<and>
      msg_iov msg' = [data @ drop (length data) buf] \<and> msg_name msg' = Some n"
    unfolding sock_udp_recv_queued [OF k2 assms(10,12)]
    using assms(5,12-15) n
    by (simp add: store_iov_def wr_at_def [of buf] store_name_def sock_ipv4_control_common_def)
  then obtain msg' s3 where "sock_udp_recv D [] a msg ?s2 = Some (int (length data), msg', s3)"
    "msg_iov msg' = [data @ drop (length data) buf]" "msg_name msg' = Some n" by blast
  then show ?thesis using m(1) h n(4)
    by (intro exI [of _ ?s1] exI [of _ ?s2] exI [of _ msg'] exI [of _ s3]) (simp add: sock_added_def)
qed

definition ex_sock :: "sock_kind \<Rightarrow> sock_t" where
  "ex_sock kind = \<lparr>s_kind = kind, s_refcount = 1, s_device = NULL, s_alert_wait = [], s_rx_wait = [], s_rx_queue = [],
     s_port = 0, s_state = 0, s_ident = 0, s_dest = replicate 16 0, s_seq = 0, s_ack = 0, s_ttl = 0,
     s_unread = 0, s_buf = [], s_nonblocking = False, s_timeout_s = 0, s_timeout_us = 0\<rparr>"

definition ex_ip :: "u8 \<Rightarrow> nat \<Rightarrow> ipv4_packet" where
  "ex_ip proto n = \<lparr>version_ihl = 0x45, dscp_ecn = 0, ip_length = htons (of_nat n), ip_ident = 0, flags_fragment = 0,
     ip_ttl = 64, ip_protocol = proto, ip_checksum = 0, ip_source = 0x0900000A, ip_destination = 0x0A00000A\<rparr>"

definition ex_udp :: udp_packet where
  "ex_udp = \<lparr>udp_source_port = htons 53, udp_destination_port = htons 5000, udp_length = htons 11, udp_checksum = 0\<rparr>"

definition ex_msg :: "u8 list \<Rightarrow> msghdr" where
  "ex_msg buf = \<lparr>msg_name = Some (replicate 16 0), msg_namelen = 16, msg_iov = [buf], msg_control = [], msg_controllen = 0\<rparr>"

theorem udp_delivery_witness:
  "\<exists>s1 s2 msg' s3. sock_udp_bind log_env 48 (sockaddr_in_bytes (htons 5000) 0) (ex_net\<lparr>n_socks := [48 \<mapsto> ex_sock UDP]\<rparr>) = Some (0, s1) \<and>
    net_ipv4_handle log_env (udp_datagram (ex_ip 17 31) ex_udp [1, 2, 3]) 16 s1 = Some s2 \<and>
    sock_udp_recv log_env [] 48 (ex_msg [0, 0, 0, 9]) s2 = Some (3, msg', s3) \<and> msg_iov msg' = [[1, 2, 3, 9]]"
proof -
  have p: "sin_port (sockaddr_in_bytes (htons 5000) 0) = Some (htons 5000)"
    using rd16_mid [of "w16 1" 2 "htons 5000"] by (simp add: sin_port_def sockaddr_in_bytes_def)
  have "\<exists>s1 s2 msg' s3. sock_udp_bind log_env 48 (sockaddr_in_bytes (htons 5000) 0) (ex_net\<lparr>n_socks := [48 \<mapsto> ex_sock UDP]\<rparr>) = Some (0, s1) \<and>
    net_ipv4_handle log_env (udp_datagram (ex_ip 17 31) ex_udp [1, 2, 3]) 16 s1 = Some s2 \<and>
    (\<forall>b. b \<noteq> 48 \<longrightarrow> n_socks s2 b = n_socks (ex_net\<lparr>n_socks := [48 \<mapsto> ex_sock UDP]\<rparr>) b) \<and>
    sock_udp_recv log_env [] 48 (ex_msg [0, 0, 0, 9]) s2 = Some (int (length [1 :: u8, 2, 3]), msg', s3) \<and>
    msg_iov msg' = [[1, 2, 3] @ drop (length [1 :: u8, 2, 3]) [0, 0, 0, 9]] \<and>
    (\<exists>n. msg_name msg' = Some n \<and> take 8 n = w16 1 @ w16 (udp_source_port ex_udp) @ w32 (ip_source (ex_ip 17 31)))"
    by (rule udp_delivery [where p = 5000 and k = "ex_sock UDP" and nm = "replicate 16 0"])
      (simp_all add: ex_net_def ex_sock_def ex_ip_def ex_udp_def ex_msg_def p udp_wf_def)
  then show ?thesis by auto
qed

text \<open>
  \<^verbatim>\<open>sock_udp_recv\<close> copies the whole payload whatever the length of the buffer: on a queued
  datagram it stays inside the buffer exactly if the payload fits.
\<close>

theorem sock_udp_recv_overrun:
  assumes "n_socks s a = Some k" "s_port k \<noteq> 0" "s_rx_queue k = udp_datagram h u data # r" "udp_wf h data" "s_ttl k = 0"
    "msg_iov msg = [buf]" "msg_namelen msg = 0"
  shows "sock_udp_recv D sl a msg s = None \<longleftrightarrow> length buf < length data"
  unfolding sock_udp_recv_queued [OF assms(1-4,6)]
  using assms(5-7) by (simp add: store_iov_def wr_at_def store_name_def sock_ipv4_control_common_def)

theorem sock_udp_recv_overrun_witness:
  "sock_udp_recv log_env [] 48 ((ex_msg [0])\<lparr>msg_namelen := 0\<rparr>)
     (ex_net\<lparr>n_socks := [48 \<mapsto> (ex_sock UDP)\<lparr>s_port := 5000, s_rx_queue := [udp_datagram (ex_ip 17 31) ex_udp [1, 2, 3]]\<rparr>]\<rparr>) = None"
proof -
  let ?k = "(ex_sock UDP)\<lparr>s_port := 5000, s_rx_queue := [udp_datagram (ex_ip 17 31) ex_udp [1, 2, 3]]\<rparr>"
  have "sock_udp_recv log_env [] 48 ((ex_msg [0])\<lparr>msg_namelen := 0\<rparr>) (ex_net\<lparr>n_socks := [48 \<mapsto> ?k]\<rparr>) = None \<longleftrightarrow>
      length [0 :: u8] < length [1 :: u8, 2, 3]"
    by (rule sock_udp_recv_overrun [where k = ?k and h = "ex_ip 17 31" and u = ex_udp and r = "[]"])
      (simp_all add: ex_sock_def ex_ip_def ex_msg_def udp_wf_def)
  then show ?thesis by simp
qed

text \<open>
  An unbound socket that sends is given the next port number without a look at the table:
  if another socket is bound to that port, its entry is replaced and from then on datagrams for the
  port are queued on the sender.
\<close>

theorem udp_get_port_takes_over:
  assumes "hm_ok (n_udp s)" "n_socks s a = Some k" "n_next_port s = uint p" "hm_abs (n_udp s) (ucast p) = Some b" "b \<noteq> a"
    "udp_wf h data" "udp_destination_port u = htons p"
  shows "\<exists>s' k'. udp_get_port a s = Some (uint p, s') \<and> n_socks s' a = Some k' \<and>
    net_ipv4_handle D (udp_datagram h u data) nic s' = Some (sock_added a k' (udp_datagram h u data) s')"
proof -
  from imap.put_law [OF assms(1), of "ucast p" a] obtain m where
    m: "hashmap_set (n_udp s) (ucast p) a = Some (m, or_null (hm_abs (n_udp s) (ucast p)))" "hm_ok m"
      "hm_abs m = (hm_abs (n_udp s))(ucast p \<mapsto> a)" by blast
  let ?s = "upd_sock a (\<lambda>k. k\<lparr>s_port := p\<rparr>) (s\<lparr>n_next_port := uint p + 1, n_udp := m\<rparr>)"
  have "udp_get_port a s = Some (uint p, ?s)" using m(1) assms(3) by (simp add: udp_get_port_def Let_def)
  moreover have "net_ipv4_handle D (udp_datagram h u data) nic ?s = Some (sock_added a (k\<lparr>s_port := p\<rparr>) (udp_datagram h u data) ?s)"
    using m(2,3) assms(2) by (intro udp_handle_bound [OF _ _ _ assms(6,7)]) simp_all
  ultimately show ?thesis using assms(2) by simp
qed

theorem udp_get_port_takes_over_witness:
  "\<exists>s s' k'. hm_abs (n_udp s) 12345 = Some 56 \<and> udp_get_port 48 s = Some (12345, s') \<and> n_socks s' 48 = Some k' \<and>
    net_ipv4_handle log_env (udp_datagram (ex_ip 17 31) (ex_udp\<lparr>udp_destination_port := htons 12345\<rparr>) [1, 2, 3]) 16 s' =
      Some (sock_added 48 k' (udp_datagram (ex_ip 17 31) (ex_udp\<lparr>udp_destination_port := htons 12345\<rparr>) [1, 2, 3]) s')"
proof -
  from imap.put_law [OF ex_map_ok(1), of 12345 56] obtain m where
    m: "hm_ok (m :: u64 hashmap_t)" "hm_abs m = [12345 \<mapsto> 56]" by auto
  let ?s = "ex_net\<lparr>n_udp := m, n_socks := [48 \<mapsto> ex_sock UDP]\<rparr>"
  have "\<exists>s' k'. udp_get_port 48 ?s = Some (uint (12345 :: u16), s') \<and> n_socks s' 48 = Some k' \<and>
    net_ipv4_handle log_env (udp_datagram (ex_ip 17 31) (ex_udp\<lparr>udp_destination_port := htons 12345\<rparr>) [1, 2, 3]) 16 s' =
      Some (sock_added 48 k' (udp_datagram (ex_ip 17 31) (ex_udp\<lparr>udp_destination_port := htons 12345\<rparr>) [1, 2, 3]) s')"
    by (rule udp_get_port_takes_over [where b = 56 and k = "ex_sock UDP" and p = 12345])
      (simp_all add: m ex_net_def ex_ip_def udp_wf_def)
  then obtain s' k' where "udp_get_port 48 ?s = Some (12345, s')" "n_socks s' 48 = Some k'"
    "net_ipv4_handle log_env (udp_datagram (ex_ip 17 31) (ex_udp\<lparr>udp_destination_port := htons 12345\<rparr>) [1, 2, 3]) 16 s' =
      Some (sock_added 48 k' (udp_datagram (ex_ip 17 31) (ex_udp\<lparr>udp_destination_port := htons 12345\<rparr>) [1, 2, 3]) s')"
    by auto
  then show ?thesis using m(2) by (intro exI [of _ ?s] exI [of _ s'] exI [of _ k']) simp
qed

section \<open>The byte stream of a TCP socket\<close>

text \<open>
  The bytes a reader has not seen yet: what an earlier read left over, then the payloads of the
  queued packets.
\<close>

definition tcp_stream :: "sock_t \<Rightarrow> u8 list" where
  "tcp_stream k = s_buf k @ concat (map (drop 40) (s_rx_queue k))"

definition tcp_rx_ok :: "sock_t \<Rightarrow> bool" where
  "tcp_rx_ok k \<longleftrightarrow> s_unread k = length (s_buf k) \<and> (\<forall>p \<in> set (s_rx_queue k). 40 \<le> length p)"

lemma store_iov_fits:
  "msg_iov msg = [buf] \<Longrightarrow> length d \<le> length buf \<Longrightarrow> store_iov msg d = Some (msg\<lparr>msg_iov := [d @ drop (length d) buf]\<rparr>)"
  by (simp add: store_iov_def wr_at_def)

lemma tcp_recv_buffered:
  assumes "n_socks s a = Some k" "s_port k \<noteq> 0" "msg_iov msg = [buf]" "s_unread k = length (s_buf k)" "s_buf k = d @ rest"
    "s_buf k \<noteq> []" "rest = [] \<and> length d \<le> length buf \<or> length d = length buf"
  shows "sock_tcp_recv D clock ws sl a msg s = Some (int (length d), msg\<lparr>msg_iov := [d @ drop (length d) buf]\<rparr>,
    upd_sock a (\<lambda>k. k\<lparr>s_unread := length rest, s_buf := rest\<rparr>) s)"
proof -
  have m: "store_iov msg d = Some (msg\<lparr>msg_iov := [d @ drop (length d) buf]\<rparr>)"
    using store_iov_fits [OF assms(3), of d] assms(7) by auto
  show ?thesis
  proof (cases "rest = []")
    case True
    then have d: "length d \<le> length buf" using assms(7) by auto
    then show ?thesis using assms(1-6) True by (simp add: sock_tcp_recv_def copy_from_def m Let_def)
  next
    case False
    then have d: "length buf = length d" using assms(7) by auto
    then show ?thesis using assms(1-6) False m by (simp add: sock_tcp_recv_def copy_from_def Let_def)
  qed
qed

lemma tcp_recv_queued:
  assumes "n_socks s a = Some k" "s_port k \<noteq> 0" "msg_iov msg = [buf]" "s_unread k = 0" "s_rx_queue k = p # r"
    "40 \<le> length p" "drop 40 p = d @ rest" "rest = [] \<and> length d \<le> length buf \<or> length d = length buf"
  shows "sock_tcp_recv D clock ws sl a msg s = Some (int (length d), msg\<lparr>msg_iov := [d @ drop (length d) buf]\<rparr>,
    if rest = [] then upd_sock a (\<lambda>k. k\<lparr>s_rx_queue := r\<rparr>) s
    else upd_sock a (\<lambda>k. k\<lparr>s_unread := length rest, s_buf := rest\<rparr>) (upd_sock a (\<lambda>k. k\<lparr>s_rx_queue := r\<rparr>) s))"
proof -
  have m: "store_iov msg d = Some (msg\<lparr>msg_iov := [d @ drop (length d) buf]\<rparr>)"
    using store_iov_fits [OF assms(3), of d] assms(8) by auto
  have w: "tcp_wait dl ws a s = Some (None, s)" for dl using assms(1,5) by (simp add: tcp_wait.simps)
  have g: "net_sock_get D sl a s = Some (Some p, upd_sock a (\<lambda>k. k\<lparr>s_rx_queue := r\<rparr>) s)"
    by (rule net_sock_get_ready [OF assms(1,5)])
  obtain hdr where p: "p = hdr @ d @ rest" "length hdr = 40"
    using assms(6,7) append_take_drop_id [of 40 p] by (metis length_take min_absorb2)
  show ?thesis
  proof (cases "rest = []")
    case True
    then have d: "length d \<le> length buf" using assms(8) by auto
    then show ?thesis using assms(1-5) True by (simp add: sock_tcp_recv_def w g p m copy_from_def Let_def)
  next
    case False
    then have d: "length buf = length d" using assms(8) by auto
    have c: "copy_from p (40 + length d) (length rest) = Some rest" "copy_from p 40 (length d) = Some d"
      using p by (simp_all add: copy_from_def)
    have "length p = 40 + (length d + length rest)" using p by simp
    then show ?thesis using assms(1-5) False d m c by (simp add: sock_tcp_recv_def w g Let_def)
  qed
qed

text \<open>What a read takes from: the rest of the last segment, or else the payload of the first queued one.\<close>

definition tcp_next :: "sock_t \<Rightarrow> u8 list" where
  "tcp_next k = (if s_unread k \<noteq> 0 then s_buf k else case s_rx_queue k of [] \<Rightarrow> [] | p # _ \<Rightarrow> drop 40 p)"

text \<open>
  Property C9.  A read from a TCP socket that has data takes the next bytes of the stream, and as many as
  there are: it stores and counts exactly the beginning of what is left of the last segment, or of the
  payload of the first queued segment when nothing is left, as far as the buffer reaches.  The bytes
  it stored followed by the stream that remains are the stream there was; the rest of the buffer and
  every other socket are unchanged.  This holds in every state of the connection, so also after
  the peer has closed it.
\<close>

theorem sock_tcp_recv_stream:
  assumes "n_socks s a = Some k" "s_port k \<noteq> 0" "tcp_rx_ok k" "msg_iov msg = [buf]" "s_unread k \<noteq> 0 \<or> s_rx_queue k \<noteq> []"
  shows "\<exists>d msg' s' k'. sock_tcp_recv D clock ws sl a msg s = Some (int (length d), msg', s') \<and>
    d = take (length buf) (tcp_next k) \<and> msg_iov msg' = [d @ drop (length d) buf] \<and>
    n_socks s' = (n_socks s)(a \<mapsto> k') \<and> tcp_rx_ok k' \<and> d @ tcp_stream k' = tcp_stream k"
proof (cases "s_unread k = 0")
  case False
  define d rest where "d = take (length buf) (s_buf k)" and "rest = drop (length buf) (s_buf k)"
  have u: "s_unread k = length (s_buf k)" "s_buf k \<noteq> []" using assms(3) False by (auto simp: tcp_rx_ok_def)
  have d: "s_buf k = d @ rest" "rest = [] \<and> length d \<le> length buf \<or> length d = length buf"
    by (auto simp: d_def rest_def)
  let ?k = "k\<lparr>s_unread := length rest, s_buf := rest\<rparr>"
  have "tcp_rx_ok ?k" using assms(3) by (simp add: tcp_rx_ok_def)
  moreover have "d @ tcp_stream ?k = tcp_stream k" by (simp add: tcp_stream_def d(1))
  moreover have "n_socks (upd_sock a (\<lambda>k. k\<lparr>s_unread := length rest, s_buf := rest\<rparr>) s) = (n_socks s)(a \<mapsto> ?k)"
    using assms(1) by (simp add: upd_sock_def)
  ultimately show ?thesis
    unfolding tcp_recv_buffered [OF assms(1,2,4) u(1) d(1) u(2) d(2)] using d_def False
    by (intro exI [of _ d] exI conjI) (rule refl, simp_all add: tcp_next_def)
next
  case True
  then obtain p r where q: "s_rx_queue k = p # r" using assms(5) by (cases "s_rx_queue k") auto
  have p: "40 \<le> length p" "s_buf k = []" using assms(3) q True by (simp_all add: tcp_rx_ok_def)
  define d rest where "d = take (length buf) (drop 40 p)" and "rest = drop (length buf) (drop 40 p)"
  have d: "drop 40 p = d @ rest" "rest = [] \<and> length d \<le> length buf \<or> length d = length buf"
    unfolding d_def rest_def append_take_drop_id by auto
  let ?k = "k\<lparr>s_rx_queue := r, s_unread := length rest, s_buf := rest\<rparr>"
  have "tcp_rx_ok ?k" using assms(3) q by (simp add: tcp_rx_ok_def)
  moreover have "d @ tcp_stream ?k = tcp_stream k" using p(2) q d(1) by (simp add: tcp_stream_def)
  moreover have "k\<lparr>s_rx_queue := r, s_unread := 0, s_buf := []\<rparr> = k\<lparr>s_rx_queue := r\<rparr>"
    using True p(2) by (cases k) simp
  then have "n_socks (if rest = [] then upd_sock a (\<lambda>k. k\<lparr>s_rx_queue := r\<rparr>) s
      else upd_sock a (\<lambda>k. k\<lparr>s_unread := length rest, s_buf := rest\<rparr>) (upd_sock a (\<lambda>k. k\<lparr>s_rx_queue := r\<rparr>) s)) = (n_socks s)(a \<mapsto> ?k)"
    using assms(1) by (simp add: upd_sock_def)
  ultimately show ?thesis
    unfolding tcp_recv_queued [OF assms(1,2,4) True q p(1) d(1,2)] using d_def True q
    by (intro exI [of _ d] exI conjI) (rule refl, simp_all add: tcp_next_def)
qed

theorem sock_tcp_recv_stream_witness:
  "\<exists>msg' s' k'. sock_tcp_recv log_env (0, 0) [] [] 48 (ex_msg [8, 9])
      (ex_net\<lparr>n_socks := [48 \<mapsto> (ex_sock TCP)\<lparr>s_port := 80, s_state := TCP_STATE_FIN, s_rx_queue := [replicate 40 0 @ [1, 2, 3]]\<rparr>]\<rparr>) =
        Some (2, msg', s') \<and>
    msg_iov msg' = [[1, 2]] \<and> n_socks s' 48 = Some k' \<and> tcp_stream k' = [3]"
proof -
  let ?k = "(ex_sock TCP)\<lparr>s_port := 80, s_state := TCP_STATE_FIN, s_rx_queue := [replicate 40 0 @ [1, 2, 3]]\<rparr>"
  let ?s = "ex_net\<lparr>n_socks := [48 \<mapsto> ?k]\<rparr>"
  have "\<exists>d msg' s' k'. sock_tcp_recv log_env (0, 0) [] [] 48 (ex_msg [8, 9]) ?s = Some (int (length d), msg', s') \<and>
    d = take (length [8 :: u8, 9]) (tcp_next ?k) \<and> msg_iov msg' = [d @ drop (length d) [8, 9]] \<and>
    n_socks s' = (n_socks ?s)(48 \<mapsto> k') \<and> tcp_rx_ok k' \<and> d @ tcp_stream k' = tcp_stream ?k"
    by (rule sock_tcp_recv_stream) (simp_all add: ex_sock_def ex_msg_def tcp_rx_ok_def)
  moreover have "tcp_stream ?k = [1, 2, 3]" "take (length [8 :: u8, 9]) (tcp_next ?k) = [1, 2]"
    by (simp_all add: tcp_stream_def tcp_next_def ex_sock_def)
  ultimately show ?thesis by fastforce
qed

text \<open>A socket whose peer can be reached: the route, its device, and the resolved next hop.\<close>

definition tcp_link :: "net \<Rightarrow> sock_t \<Rightarrow> EthernetDevice \<Rightarrow> u8 list \<Rightarrow> bool" where
  "tcp_link s k e hw \<longleftrightarrow> (\<exists>dst port dev. sin_addr (s_dest k) = Some dst \<and> sin_port (s_dest k) = Some port \<and>
     net_if_route dst s \<noteq> NULL \<and> n_device s (net_if_route dst s) = Some dev \<and> n_nics s dev = Some e \<and>
     length (mac e) = 6 \<and> resolved s e dst hw)"

lemma tcp_segment_seq: "rd32 (ipv4_bytes h @ tcp_bytes t @ d) 24 = Some (seq_number t)"
  using rd32_mid [of "ipv4_bytes h @ w16 (tcp_source_port t) @ w16 (tcp_destination_port t)" 24 "seq_number t"]
  by (simp add: tcp_bytes_def)

definition tcp_sent :: "addr \<Rightarrow> sock_t \<Rightarrow> nat \<Rightarrow> EthernetDevice \<Rightarrow> u8 list \<Rightarrow> u8 list \<Rightarrow> net \<Rightarrow> net" where
  "tcp_sent a k n e hw p s = s\<lparr>n_socks := (n_socks s)(a \<mapsto> k\<lparr>s_ident := s_ident k + 1, s_seq := s_seq k + of_nat n\<rparr>),
     n_sent := n_sent s @ [(device_node e, eth_frame e hw p)]\<rparr>"

text \<open>One turn of the loop sends the next chunk as one packet.\<close>

lemma tcp_send_turn:
  assumes "records D" "n_socks s a = Some k" "tcp_link s k e hw" "into < length data" "c = take 1024 (drop into data)"
  obtains p where "tcp_send_loop D (\<lambda>_ s. s) a data into s = tcp_send_loop D (\<lambda>_ s. s) a data (into + length c) (tcp_sent a k (length c) e hw p s)"
    "drop 40 p = c" "length p = 40 + length c" "rd32 p 24 = Some (htonl (s_seq k))"
proof -
  obtain dst port dev where l: "sin_addr (s_dest k) = Some dst" "sin_port (s_dest k) = Some port"
     "net_if_route dst s \<noteq> NULL" "n_device s (net_if_route dst s) = Some dev" "n_nics s dev = Some e"
     "length (mac e) = 6" "resolved s e dst hw"
    using assms(3) by (auto simp: tcp_link_def)
  let ?n = "if length data - into > 1024 then 1024 else length data - into"
  have n: "?n = length c" "length c \<le> 1024" "0 < length c" "copy_from data into ?n = Some c"
    using assms(4,5) by (auto simp: copy_from_def)
  obtain h where h: "ipv4_header (40 + length c) dst (ipv4_addr e) IPV4_PROT_TCP (htons (s_ident k + 1)) 0 = Some (ipv4_bytes h)"
    "ip_length h = htons (of_nat (40 + length c))" "ip_destination h = dst"
    by (rule ipv4_header_filled)
  from tcp_segment_filled [where payload = "Some c" and src = "ipv4_addr e" and dst = dst and port = "s_port k" and dport = port
    and seq = "s_seq k" and ack = "s_ack k" and flags = "TCP_FLAGS_PSH OR TCP_FLAGS_ACK"]
  obtain t where t: "tcp_segment (ipv4_addr e) dst (s_port k) port (s_seq k) (s_ack k) (TCP_FLAGS_PSH OR TCP_FLAGS_ACK) (Some c) =
      Some (tcp_bytes t @ c)" "seq_number t = htonl (s_seq k)"
    using n(2) by auto
  let ?p = "ipv4_bytes h @ tcp_bytes t @ c"
  have p: "rd32 ?p 16 = Some dst" "rd16 ?p 2 = Some (ip_length h)" "unat (ntohs (ip_length h)) = length ?p"
    using h(2,3) n(2) unat_of_nat_16 [of "40 + length c"] by (simp_all add: ipv4_fields del: of_nat_add)
  let ?s1 = "upd_sock a (\<lambda>_. k\<lparr>s_ident := s_ident k + 1, s_seq := s_seq k + of_nat (length c)\<rparr>) s"
  have "net_ipv4_send D ?p (net_if_route dst s) ?s1 = map_option snd (d_write D (device_node e) (eth_frame e hw ?p) ?s1)"
    using l(4-7) by (intro net_ipv4_send_resolved [OF _ _ l(6) p]) (simp_all add: resolved_def)
  also have "\<dots> = Some (tcp_sent a k (length c) e hw ?p s)"
    using assms(1,2) by (simp add: records_def tcp_sent_def upd_sock_def)
  finally have x: "net_ipv4_send D ?p (net_if_route dst s) ?s1 = Some (tcp_sent a k (length c) e hw ?p s)" .
  have "tcp_send_loop D (\<lambda>_ s. s) a data into s = tcp_send_loop D (\<lambda>_ s. s) a data (into + length c) (tcp_sent a k (length c) e hw ?p s)"
    using assms(4) n(1,4) l h(1) t(1) x assms(2)
    by (subst tcp_send_loop.simps) (simp add: Let_def n(1) nic_device_def)
  then show ?thesis using t(2) by (intro that [of ?p]) (simp_all add: tcp_segment_seq)
qed

text \<open>Packets that carry consecutive bytes: each one's sequence number continues the one before.\<close>

fun tcp_seqs :: "u32 \<Rightarrow> u8 list list \<Rightarrow> bool" where
  "tcp_seqs q [] = True"
| "tcp_seqs q (p # ps) = (rd32 p 24 = Some (htonl q) \<and> tcp_seqs (q + of_nat (length (drop 40 p))) ps)"

definition sent_as :: "EthernetDevice \<Rightarrow> u8 list \<Rightarrow> addr \<Rightarrow> sock_t \<Rightarrow> u8 list \<Rightarrow> u8 list list \<Rightarrow> net \<Rightarrow> net \<Rightarrow> bool" where
  "sent_as e hw a k bytes ps s s' \<longleftrightarrow>
     n_sent s' = n_sent s @ map (\<lambda>p. (device_node e, eth_frame e hw p)) ps \<and>
     concat (map (drop 40) ps) = bytes \<and> (\<forall>p \<in> set ps. 40 < length p \<and> length p \<le> 1064) \<and> tcp_seqs (s_seq k) ps \<and>
     n_socks s' = (n_socks s)(a \<mapsto> k\<lparr>s_ident := s_ident k + of_nat (length ps), s_seq := s_seq k + of_nat (length bytes)\<rparr>)"

lemma tcp_link_sent:
  assumes "tcp_link s k e hw" "s_dest k' = s_dest k"
  shows "tcp_link (tcp_sent a j n e2 hw2 p s) k' e hw"
proof -
  have "net_if_route x (tcp_sent a j n e2 hw2 p s) = net_if_route x s"
    "resolved (tcp_sent a j n e2 hw2 p s) e x hw = resolved s e x hw"
    "n_device (tcp_sent a j n e2 hw2 p s) = n_device s" "n_nics (tcp_sent a j n e2 hw2 p s) = n_nics s" for x
    by (simp_all add: tcp_sent_def net_if_route_def resolved_def)
  then show ?thesis using assms by (simp add: tcp_link_def)
qed

lemma sent_as_turn:
  assumes "sent_as e hw a (k\<lparr>s_ident := s_ident k + 1, s_seq := s_seq k + of_nat (length c)\<rparr>) bytes ps (tcp_sent a k (length c) e hw p s) s'"
    "drop 40 p = c" "length p = 40 + length c" "rd32 p 24 = Some (htonl (s_seq k))" "0 < length c" "length c \<le> 1024"
  shows "sent_as e hw a k (c @ bytes) (p # ps) s s'"
  using assms by (simp add: sent_as_def tcp_sent_def add.assoc)

lemma tcp_send_all:
  assumes "records D" "n_socks s a = Some k" "tcp_link s k e hw" "into \<le> length data"
  shows "\<exists>s' ps. tcp_send_loop D (\<lambda>_ s. s) a data into s = Some (int (length data), s') \<and> sent_as e hw a k (drop into data) ps s s'"
  using assms(2-4)
proof (induction "length data - into" arbitrary: into s k rule: less_induct)
  case less
  show ?case
  proof (cases "into = length data")
    case True
    have "sent_as e hw a k (drop into data) [] s s" using True less.prems(1) by (simp add: sent_as_def fun_upd_idem)
    moreover have "tcp_send_loop D (\<lambda>_ s. s) a data into s = Some (int (length data), s)"
      using True by (simp add: tcp_send_loop.simps)
    ultimately show ?thesis by blast
  next
    case False
    define c where "c = take 1024 (drop into data)"
    have lt: "into < length data" using False less.prems(3) by simp
    have cl: "0 < length c" "length c \<le> 1024" "into + length c \<le> length data" "drop into data = c @ drop (into + length c) data"
      using lt append_take_drop_id [of 1024 "drop into data"] by (auto simp: c_def min_def add.commute)
    obtain p where p: "tcp_send_loop D (\<lambda>_ s. s) a data into s = tcp_send_loop D (\<lambda>_ s. s) a data (into + length c) (tcp_sent a k (length c) e hw p s)"
      "drop 40 p = c" "length p = 40 + length c" "rd32 p 24 = Some (htonl (s_seq k))"
      by (rule tcp_send_turn [OF assms(1) less.prems(1,2) lt c_def])
    let ?s = "tcp_sent a k (length c) e hw p s" and ?k = "k\<lparr>s_ident := s_ident k + 1, s_seq := s_seq k + of_nat (length c)\<rparr>"
    have "n_socks ?s a = Some ?k" "tcp_link ?s ?k e hw" "length data - (into + length c) < length data - into"
      by (simp add: tcp_sent_def, rule tcp_link_sent [OF less.prems(2)], simp, use lt cl(1,3) in linarith)
    from less.hyps [OF this(3,1,2) cl(3)] obtain s' ps where
      s': "tcp_send_loop D (\<lambda>_ s. s) a data (into + length c) ?s = Some (int (length data), s')"
        "sent_as e hw a ?k (drop (into + length c) data) ps ?s s'" by blast
    have "sent_as e hw a k (drop into data) (p # ps) s s'"
      unfolding cl(4) by (rule sent_as_turn [OF s'(2) p(2-4) cl(1,2)])
    then show ?thesis using p(1) s'(1) by (intro exI [of _ s'] exI [of _ "p # ps"]) simp
  qed
qed

text \<open>
  Property C12.  Sending on a connected TCP socket whose peer is resolved, with a driver that takes
  every frame and no other activity in between: all bytes are sent, in packets of 1 to 1024 bytes of
  payload whose concatenation is the data and whose sequence numbers are consecutive; the sequence
  number of the socket moves on by the number of bytes, its packet identifier by the number of
  packets, and no other socket changes.
\<close>

theorem sock_tcp_send_segments:
  assumes "records D" "n_socks s a = Some k" "tcp_link s k e hw" "msg_iov msg = [data]"
  shows "\<exists>s' ps. sock_tcp_send D (\<lambda>_ s. s) a msg s = Some (int (length data), s') \<and> sent_as e hw a k data ps s s'"
  using tcp_send_all [OF assms(1-3), of 0 data] assms(4) by (simp add: sock_tcp_send_def)

lemma ex_resolved:
  "\<exists>m. resolved (ex_net\<lparr>n_arp := m, n_entries := [200 \<mapsto> \<lparr>hwaddr = replicate 6 5, arp_flags = 0, arp_iface = 17\<rparr>],
    n_socks := x\<rparr>) ex_eth 0x0900000A (replicate 6 5)"
proof -
  from imap.put_law [OF ex_map_ok(1), of "0x0900000A" 200] obtain m where
    m: "hm_ok (m :: u64 hashmap_t)" "hm_abs m = [0x0900000A \<mapsto> 200]" by auto
  then show ?thesis by (intro exI [of _ m]) (simp add: resolved_def next_hop_def ex_eth_def)
qed

lemma sockaddr_in_fields:
  "sin_port (sockaddr_in_bytes p x) = Some p" "sin_addr (sockaddr_in_bytes p x) = Some x"
  using rd16_mid [of "w16 1" 2 p] rd32_mid [of "w16 1 @ w16 p" 4 x] by (simp_all add: sin_port_def sin_addr_def sockaddr_in_bytes_def)

theorem sock_tcp_send_segments_witness:
  "\<exists>s s' ps. sock_tcp_send log_env (\<lambda>_ s. s) 48 (ex_msg (replicate 1500 7)) s = Some (1500, s') \<and>
     sent_as ex_eth (replicate 6 5) 48 ((ex_sock TCP)\<lparr>s_dest := sockaddr_in_bytes (htons 80) 0x0900000A\<rparr>) (replicate 1500 7) ps s s'"
proof -
  let ?k = "(ex_sock TCP)\<lparr>s_dest := sockaddr_in_bytes (htons 80) 0x0900000A\<rparr>"
  obtain m where r: "resolved (ex_net\<lparr>n_arp := m, n_entries := [200 \<mapsto> \<lparr>hwaddr = replicate 6 5, arp_flags = 0, arp_iface = 17\<rparr>],
    n_socks := [48 \<mapsto> ?k]\<rparr>) ex_eth 0x0900000A (replicate 6 5)" using ex_resolved by blast
  let ?s = "ex_net\<lparr>n_arp := m, n_entries := [200 \<mapsto> \<lparr>hwaddr = replicate 6 5, arp_flags = 0, arp_iface = 17\<rparr>], n_socks := [48 \<mapsto> ?k]\<rparr>"
  have "net_if_route 0x0900000A ?s = 16" "n_device ?s 16 = Some 17" "n_nics ?s 17 = Some ex_eth" "length (mac ex_eth) = 6"
    by (simp_all add: net_if_route_def ex_net_def ex_eth_def)
  then have "tcp_link ?s ?k ex_eth (replicate 6 5)"
    unfolding tcp_link_def using r by (intro exI [of _ "0x0900000A"] exI [of _ "htons 80"] exI [of _ 17]) (simp add: sockaddr_in_fields)
  then have "\<exists>s' ps. sock_tcp_send log_env (\<lambda>_ s. s) 48 (ex_msg (replicate 1500 7)) ?s = Some (int (length (replicate 1500 (7 :: u8))), s') \<and>
     sent_as ex_eth (replicate 6 5) 48 ?k (replicate 1500 7) ps ?s s'"
    by (intro sock_tcp_send_segments) (simp_all add: ex_msg_def)
  then show ?thesis by (simp only: length_replicate of_nat_numeral) blast
qed

section \<open>Incoming TCP segments\<close>

definition tcp_packet :: "ipv4_packet \<Rightarrow> tcp_header \<Rightarrow> u8 list \<Rightarrow> u8 list" where
  "tcp_packet h t data = ipv4_bytes h @ tcp_bytes t @ data"

text \<open>A segment without options, of the length its header says.\<close>

definition tcp_wf :: "ipv4_packet \<Rightarrow> tcp_header \<Rightarrow> u8 list \<Rightarrow> bool" where
  "tcp_wf h t data \<longleftrightarrow> ip_length h = htons (of_nat (40 + length data)) \<and> 40 + length data < 65536 \<and> ntohs (tcp_flags t) AND 0xF000 = 0x5000"

lemma tcp_packet_fields:
  "rd16 (tcp_packet h t d) 2 = Some (ip_length h)" "rd32 (tcp_packet h t d) 12 = Some (ip_source h)"
  "rd16 (tcp_packet h t d) 20 = Some (tcp_source_port t)" "rd32 (tcp_packet h t d) 24 = Some (seq_number t)"
  "rd16 (tcp_packet h t d) 32 = Some (tcp_flags t)" "length (tcp_packet h t d) = 40 + length d" "drop 40 (tcp_packet h t d) = d"
  using rd16_mid [of "ipv4_bytes h" 20 "tcp_source_port t"]
    rd16_mid [of "ipv4_bytes h @ w16 (tcp_source_port t) @ w16 (tcp_destination_port t) @ w32 (seq_number t) @ w32 (ack_number t)" 32 "tcp_flags t"]
  by (simp_all add: tcp_packet_def ipv4_fields tcp_segment_seq) (simp_all add: tcp_bytes_def)

text \<open>What an acknowledgement leaves in the socket.\<close>

definition tcp_in_order :: "sock_t \<Rightarrow> bool \<Rightarrow> tcp_header \<Rightarrow> bool" where
  "tcp_in_order k syn t \<longleftrightarrow> s_ack k = 0 \<or> syn \<or> s_ack k = ntohl (seq_number t)"

definition tcp_acked :: "sock_t \<Rightarrow> bool \<Rightarrow> u64 \<Rightarrow> tcp_header \<Rightarrow> sock_t" where
  "tcp_acked k syn n t = (
     let k1 = (if tcp_in_order k syn t
       then k\<lparr>s_seq := (if syn then 1 else s_seq k), s_ack := ucast (ucast (ntohl (seq_number t)) + n), s_state := TCP_STATE_ACKED\<rparr> else k);
         k2 = k1\<lparr>s_ident := s_ident k1 + 1\<rparr>
     in if ntohs (tcp_flags t) AND TCP_FLAGS_FIN \<noteq> 0 then k2\<lparr>s_ack := s_ack k2 + 1, s_state := TCP_STATE_FIN\<rparr> else k2)"

definition with_frames :: "addr \<Rightarrow> sock_t \<Rightarrow> (addr \<times> u8 list) list \<Rightarrow> net \<Rightarrow> net" where
  "with_frames a k fs s = s\<lparr>n_socks := (n_socks s)(a \<mapsto> k), n_sent := n_sent s @ fs\<rparr>"

text \<open>An acknowledgement without data, from the socket to the sender of the segment.\<close>

definition ack_packet :: "EthernetDevice \<Rightarrow> sock_t \<Rightarrow> ipv4_packet \<Rightarrow> tcp_header \<Rightarrow> u8 list \<Rightarrow> bool" where
  "ack_packet e k h t p \<longleftrightarrow> (\<exists>h' t'. p = ipv4_bytes h' @ tcp_bytes t' \<and> ip_length h' = htons 40 \<and> ip_protocol h' = IPV4_PROT_TCP \<and>
     ip_source h' = ipv4_addr e \<and> ip_destination h' = ip_source h \<and>
     tcp_source_port t' = htons (s_port k) \<and> tcp_destination_port t' = tcp_source_port t \<and>
     seq_number t' = htonl (s_seq k) \<and> ack_number t' = htonl (s_ack k) \<and> tcp_flags t' = htons (TCP_FLAGS_ACK OR 0x5000))"

lemma tcp_ack_effect:
  assumes "records D" "n_socks s a = Some k" "n_device s nic = Some dev" "n_nics s dev = Some e" "length (mac e) = 6"
    "resolved s e (ip_source h) hw"
  obtains p where "tcp_ack D nic a (tcp_packet h t d) syn n s = Some (tcp_in_order k syn t,
    with_frames a (tcp_acked k syn n t) (replicate (if tcp_in_order k syn t then 1 else 3) (device_node e, eth_frame e hw p)) s)"
    "ack_packet e (tcp_acked k syn n t) h t p"
proof -
  let ?k = "tcp_acked k syn n t"
  obtain h' where h': "ipv4_header 40 (ip_source h) (ipv4_addr e) IPV4_PROT_TCP (htons (s_ident k + 1)) 0 = Some (ipv4_bytes h')"
    "ip_length h' = htons (of_nat 40)" "ip_destination h' = ip_source h" "ip_source h' = ipv4_addr e" "ip_protocol h' = IPV4_PROT_TCP"
    by (rule ipv4_header_filled)
  from tcp_segment_filled [where payload = None and src = "ipv4_addr e" and dst = "ip_source h" and port = "s_port k" and
    dport = "tcp_source_port t" and seq = "s_seq ?k" and ack = "s_ack ?k" and flags = TCP_FLAGS_ACK]
  obtain t' where t': "tcp_segment (ipv4_addr e) (ip_source h) (s_port k) (tcp_source_port t) (s_seq ?k) (s_ack ?k) TCP_FLAGS_ACK None =
      Some (tcp_bytes t')" "tcp_source_port t' = htons (s_port k)" "tcp_destination_port t' = tcp_source_port t"
      "seq_number t' = htonl (s_seq ?k)" "ack_number t' = htonl (s_ack ?k)" "tcp_flags t' = htons (TCP_FLAGS_ACK OR 0x5000)" by auto
  let ?p = "ipv4_bytes h' @ tcp_bytes t'"
  have p: "rd32 ?p 16 = Some (ip_source h)" "rd16 ?p 2 = Some (ip_length h')" "unat (ntohs (ip_length h')) = length ?p"
    using h'(2,3) by (simp_all add: ipv4_fields)
  have send: "net_ipv4_send D ?p nic (with_frames a ?k fs s) = Some (with_frames a ?k (fs @ [(device_node e, eth_frame e hw ?p)]) s)" for fs
  proof -
    have "net_ipv4_send D ?p nic (with_frames a ?k fs s) = map_option snd (d_write D (device_node e) (eth_frame e hw ?p) (with_frames a ?k fs s))"
      using assms(3,4,6) by (intro net_ipv4_send_resolved [OF _ _ assms(5) p]) (simp_all add: with_frames_def resolved_def)
    then show ?thesis using assms(1) by (simp add: records_def with_frames_def)
  qed
  have u: "upd_sock a (\<lambda>_. ?k) s = with_frames a ?k [] s" using assms(2) by (simp add: upd_sock_def with_frames_def)
  have "tcp_ack D nic a (tcp_packet h t d) syn n s = Some (tcp_in_order k syn t,
      with_frames a ?k (replicate (if tcp_in_order k syn t then 1 else 3) (device_node e, eth_frame e hw ?p)) s)"
    using assms(2-4) h'(1) t'(1) send [of "[]"] send u
    by (cases syn; cases "s_ack k = 0"; cases "s_ack k = ntohl (seq_number t)"; cases "ntohs (tcp_flags t) AND TCP_FLAGS_FIN = 0")
      (simp_all add: tcp_ack_def tcp_packet_fields nic_device_def tcp_in_order_def tcp_acked_def numeral_3_eq_3 cong: if_cong)
  moreover have "ack_packet e ?k h t ?p"
    unfolding ack_packet_def using h'(2-5) t'(2-6) by (intro exI [of _ h'] exI [of _ t']) (simp add: tcp_acked_def Let_def)
  ultimately show ?thesis by (rule that)
qed

lemma ucast_ack: "ucast (ucast (x :: u32) + of_nat n :: u64) = x + of_nat n"
proof -
  have u: "unat (ucast x + of_nat n :: u64) = (unat x + n) mod 2 ^ 64"
  proof -
    have "unat (ucast x + of_nat n :: u64) = (unat (ucast x :: u64) + n mod 2 ^ 64) mod 2 ^ 64"
      by (simp add: unat_word_ariths unat_of_nat)
    also have "unat (ucast x :: u64) = unat x"
      using unsigned_less [of x, where 'a = nat] by (simp add: unsigned_ucast_eq take_bit_nat_eq_self)
    finally show ?thesis by (simp add: mod_add_right_eq)
  qed
  have "ucast (ucast x + of_nat n :: u64) = (of_nat (unat (ucast x + of_nat n :: u64)) :: u32)" by simp
  also have "\<dots> = of_nat (unat x + n)"
    unfolding u by (simp only: word_of_nat_eq_iff take_bit_eq_mod) (simp add: mod_mod_cancel)
  finally show ?thesis by simp
qed

lemma tcp_payload_len:
  assumes "tcp_wf h t d"
  shows "(ucast (ntohs (ip_length h)) - 20 - ucast (drop_bit 12 (ntohs (tcp_flags t) AND 0xF000)) * 4 :: u64) = of_nat (length d)"
    "(of_nat (length d) :: u64) = 0 \<longleftrightarrow> d = []"
proof -
  have "(ucast (of_nat (40 + length d) :: u16) :: u64) = of_nat (unat (of_nat (40 + length d) :: u16))" by simp
  also have "\<dots> = of_nat (40 + length d)" using assms by (simp only: unat_of_nat_16 tcp_wf_def)
  finally show "(ucast (ntohs (ip_length h)) - 20 - ucast (drop_bit 12 (ntohs (tcp_flags t) AND 0xF000)) * 4 :: u64) = of_nat (length d)"
    using assms by (simp add: tcp_wf_def)
  show "(of_nat (length d) :: u64) = 0 \<longleftrightarrow> d = []"
  proof -
    have "unat (of_nat (length d) :: u64) = length d" using assms by (intro unat_of_nat_64) (simp add: tcp_wf_def)
    moreover have "unat (of_nat (length d) :: u64) = 0" if "(of_nat (length d) :: u64) = 0"
      by (simp only: that unsigned_0)
    ultimately show ?thesis by (cases "d = []") (simp, metis length_0_conv)
  qed
qed

lemma tcp_handle_acked:
  assumes "records D" "n_socks s a = Some k" "s_state k = TCP_STATE_ACKED" "n_device s nic = Some dev" "n_nics s dev = Some e"
    "length (mac e) = 6" "resolved s e (ip_source h) hw" "tcp_wf h t d" "d \<noteq> []"
  obtains p where "tcp_handle D (tcp_packet h t d) nic a s = Some (
    let k1 = tcp_acked k False (of_nat (length d)) t; f = (device_node e, eth_frame e hw p) in
    if tcp_in_order k False t then sock_added a k1 (tcp_packet h t d) (with_frames a k1 [f] s)
    else with_frames a k1 [f, f, f] s)"
    "ack_packet e (tcp_acked k False (of_nat (length d)) t) h t p"
proof -
  obtain p where p: "tcp_ack D nic a (tcp_packet h t d) False (of_nat (length d)) s = Some (tcp_in_order k False t,
    with_frames a (tcp_acked k False (of_nat (length d)) t) (replicate (if tcp_in_order k False t then 1 else 3) (device_node e, eth_frame e hw p)) s)"
    "ack_packet e (tcp_acked k False (of_nat (length d)) t) h t p"
    by (rule tcp_ack_effect [OF assms(1,2,4-7)])
  let ?k = "tcp_acked k False (of_nat (length d)) t" and ?s = "with_frames a (tcp_acked k False (of_nat (length d)) t) [(device_node e, eth_frame e hw p)] s"
  have n: "unat (ntohs (ip_length h)) = length (tcp_packet h t d)"
    using assms(8) unat_of_nat_16 [of "40 + length d"] by (simp add: tcp_wf_def tcp_packet_fields(6) del: of_nat_add)
  have "net_sock_add a (tcp_packet h t d) (length (tcp_packet h t d)) ?s = Some (sock_added a ?k (tcp_packet h t d) ?s)"
    using net_sock_add_effect [of ?s a ?k "length (tcp_packet h t d)" "tcp_packet h t d"] by (simp add: with_frames_def)
  then show ?thesis
    by (intro that [OF _ p(2)], insert assms(2,3,9) p(1) n tcp_payload_len [OF assms(8)], cases "tcp_in_order k False t")
      (simp_all add: tcp_handle_def tcp_packet_fields(1,5) numeral_3_eq_3 Let_def del: right_minus_eq)
qed

text \<open>
  Property C15.  A data segment without options and \<^verbatim>\<open>FIN\<close>, of the length its header says, arrives on an
  established connection from a host whose hardware address is known.  If its sequence number is the
  expected one, or the expected number is zero, in which case the code takes any, its payload is
  appended to the stream of the socket, the end of the payload is expected next, and one
  acknowledgement is sent.  Otherwise the stream and the expected number stay, and the same
  acknowledgement is sent three times.  Each is a TCP packet without data to the sender with the flag
  \<^verbatim>\<open>ACK\<close>, the ports exchanged, and the number the socket now expects.  No other socket changes.
\<close>

theorem tcp_segment_in_order:
  assumes "records D" "n_socks s a = Some k" "s_state k = TCP_STATE_ACKED" "n_device s nic = Some dev" "n_nics s dev = Some e"
    "length (mac e) = 6" "resolved s e (ip_source h) hw" "tcp_wf h t d" "d \<noteq> []" "ntohs (tcp_flags t) AND TCP_FLAGS_FIN = 0"
  shows "\<exists>s' k' p. tcp_handle D (tcp_packet h t d) nic a s = Some s' \<and> n_socks s' = (n_socks s)(a \<mapsto> k') \<and> s_state k' = TCP_STATE_ACKED \<and>
    ack_packet e k' h t p \<and>
    (if ntohl (seq_number t) = s_ack k \<or> s_ack k = 0
     then tcp_stream k' = tcp_stream k @ d \<and> s_ack k' = ntohl (seq_number t) + of_nat (length d) \<and>
       n_sent s' = n_sent s @ [(device_node e, eth_frame e hw p)]
     else tcp_stream k' = tcp_stream k \<and> s_ack k' = s_ack k \<and> n_sent s' = n_sent s @ replicate 3 (device_node e, eth_frame e hw p))"
proof -
  obtain p where p: "tcp_handle D (tcp_packet h t d) nic a s = Some (
    let k1 = tcp_acked k False (of_nat (length d)) t; f = (device_node e, eth_frame e hw p) in
    if tcp_in_order k False t then sock_added a k1 (tcp_packet h t d) (with_frames a k1 [f] s)
    else with_frames a k1 [f, f, f] s)" "ack_packet e (tcp_acked k False (of_nat (length d)) t) h t p"
    by (rule tcp_handle_acked [OF assms(1-9)])
  let ?k = "tcp_acked k False (of_nat (length d)) t"
  show ?thesis
  proof (cases "ntohl (seq_number t) = s_ack k \<or> s_ack k = 0")
    case True
    then have o: "tcp_in_order k False t" by (auto simp: tcp_in_order_def)
    let ?k' = "?k\<lparr>s_rx_queue := s_rx_queue ?k @ [tcp_packet h t d], s_rx_wait := [], s_alert_wait := []\<rparr>"
    have "ack_packet e ?k' h t p" using p(2) by (simp add: ack_packet_def)
    moreover have "s_state ?k' = TCP_STATE_ACKED" "tcp_stream ?k' = tcp_stream k @ d" "s_ack ?k' = ntohl (seq_number t) + of_nat (length d)"
      using o assms(10) by (simp_all add: tcp_acked_def tcp_stream_def tcp_packet_fields(7) ucast_ack Let_def)
    ultimately show ?thesis using p(1) True o
      by (intro exI [of _ "sock_added a ?k (tcp_packet h t d) (with_frames a ?k [(device_node e, eth_frame e hw p)] s)"] exI [of _ ?k'] exI [of _ p])
        (simp add: Let_def, simp add: sock_added_def with_frames_def)
  next
    case False
    then have o: "\<not> tcp_in_order k False t" by (auto simp: tcp_in_order_def)
    then have "s_state ?k = TCP_STATE_ACKED" "tcp_stream ?k = tcp_stream k" "s_ack ?k = s_ack k"
      using assms(3,10) by (simp_all add: tcp_acked_def tcp_stream_def Let_def)
    then show ?thesis using p False o
      by (intro exI [of _ "with_frames a ?k (replicate 3 (device_node e, eth_frame e hw p)) s"] exI [of _ ?k] exI [of _ p])
        (simp add: Let_def with_frames_def numeral_3_eq_3)
  qed
qed

definition ex_tcp :: "u32 \<Rightarrow> u16 \<Rightarrow> tcp_header" where
  "ex_tcp seq flags = \<lparr>tcp_source_port = htons 80, tcp_destination_port = htons 49152, seq_number = htonl seq, ack_number = 0,
     tcp_flags = htons flags, window_size = 0, tcp_checksum = 0, tcp_urgent = 0\<rparr>"

lemma ex_tcp_wf:
  "tcp_wf (ex_ip 6 41) (ex_tcp q 0x5010) [9]" "tcp_wf (ex_ip 6 41) (ex_tcp q 0x5011) [9]"
  by (simp_all add: tcp_wf_def ex_ip_def ex_tcp_def)

theorem tcp_segment_in_order_witness:
  "\<exists>s s' k' p. tcp_handle log_env (tcp_packet (ex_ip 6 41) (ex_tcp 77 0x5010) [9]) 16 48 s = Some s' \<and>
     n_socks s' = (n_socks s)(48 \<mapsto> k') \<and> tcp_stream k' = [9] \<and> s_ack k' = 78 \<and>
     ack_packet ex_eth k' (ex_ip 6 41) (ex_tcp 77 0x5010) p \<and> n_sent s' = n_sent s @ [(device_node ex_eth, eth_frame ex_eth (replicate 6 5) p)]"
proof -
  let ?k = "(ex_sock TCP)\<lparr>s_state := TCP_STATE_ACKED, s_ack := 77\<rparr>" and ?h = "ex_ip 6 41" and ?t = "ex_tcp 77 0x5010"
  obtain m where r: "resolved (ex_net\<lparr>n_arp := m, n_entries := [200 \<mapsto> \<lparr>hwaddr = replicate 6 5, arp_flags = 0, arp_iface = 17\<rparr>],
    n_socks := [48 \<mapsto> ?k]\<rparr>) ex_eth 0x0900000A (replicate 6 5)" using ex_resolved by blast
  let ?s = "ex_net\<lparr>n_arp := m, n_entries := [200 \<mapsto> \<lparr>hwaddr = replicate 6 5, arp_flags = 0, arp_iface = 17\<rparr>], n_socks := [48 \<mapsto> ?k]\<rparr>"
  have "\<exists>s' k' p. tcp_handle log_env (tcp_packet ?h ?t [9]) 16 48 ?s = Some s' \<and>
     n_socks s' = (n_socks ?s)(48 \<mapsto> k') \<and> s_state k' = TCP_STATE_ACKED \<and> ack_packet ex_eth k' ?h ?t p \<and>
    (if ntohl (seq_number ?t) = s_ack ?k \<or> s_ack ?k = 0
     then tcp_stream k' = tcp_stream ?k @ [9] \<and> s_ack k' = ntohl (seq_number ?t) + of_nat (length [9 :: u8]) \<and>
       n_sent s' = n_sent ?s @ [(device_node ex_eth, eth_frame ex_eth (replicate 6 5) p)]
     else tcp_stream k' = tcp_stream ?k \<and> s_ack k' = s_ack ?k \<and>
       n_sent s' = n_sent ?s @ replicate 3 (device_node ex_eth, eth_frame ex_eth (replicate 6 5) p))"
    by (rule tcp_segment_in_order [where dev = 17 and e = ex_eth and hw = "replicate 6 5"], use r in \<open>simp_all add: ex_tcp_wf\<close>)
      (simp_all add: ex_net_def ex_eth_def ex_ip_def ex_tcp_def)
  moreover have "ntohl (seq_number ?t) = 77" "tcp_stream ?k = []" by (simp_all add: ex_tcp_def tcp_stream_def ex_sock_def)
  ultimately obtain s' k' p where "tcp_handle log_env (tcp_packet ?h ?t [9]) 16 48 ?s = Some s'"
     "n_socks s' = (n_socks ?s)(48 \<mapsto> k')" "tcp_stream k' = [9]" "s_ack k' = 78" "ack_packet ex_eth k' ?h ?t p"
     "n_sent s' = n_sent ?s @ [(device_node ex_eth, eth_frame ex_eth (replicate 6 5) p)]"
    by auto
  then show ?thesis by (intro exI [of _ ?s] exI [of _ s'] exI [of _ k'] exI [of _ p]) simp
qed

text \<open>
  The \<^verbatim>\<open>FIN\<close> flag is honoured whatever the sequence number: a segment with a wrong sequence
  number that carries it closes the connection, and the acknowledgement counts a byte that was not received.
\<close>

theorem tcp_fin_out_of_order:
  assumes "records D" "n_socks s a = Some k" "s_state k = TCP_STATE_ACKED" "s_ack k \<noteq> 0" "n_device s nic = Some dev" "n_nics s dev = Some e"
    "length (mac e) = 6" "resolved s e (ip_source h) hw" "tcp_wf h t d" "d \<noteq> []" "ntohs (tcp_flags t) AND TCP_FLAGS_FIN \<noteq> 0"
    "ntohl (seq_number t) \<noteq> s_ack k"
  shows "\<exists>s' k'. tcp_handle D (tcp_packet h t d) nic a s = Some s' \<and> n_socks s' a = Some k' \<and> s_state k' = TCP_STATE_FIN \<and>
    s_ack k' = s_ack k + 1 \<and> tcp_stream k' = tcp_stream k"
proof -
  obtain p where p: "tcp_handle D (tcp_packet h t d) nic a s = Some (
    let k1 = tcp_acked k False (of_nat (length d)) t; f = (device_node e, eth_frame e hw p) in
    if tcp_in_order k False t then sock_added a k1 (tcp_packet h t d) (with_frames a k1 [f] s)
    else with_frames a k1 [f, f, f] s)"
    by (rule tcp_handle_acked [OF assms(1-3,5-10)]) blast
  have "\<not> tcp_in_order k False t" using assms(4,12) by (auto simp: tcp_in_order_def)
  then show ?thesis using p assms(11) by (simp add: Let_def tcp_acked_def with_frames_def tcp_stream_def)
qed

theorem tcp_fin_out_of_order_witness:
  "\<exists>s s' k'. tcp_handle log_env (tcp_packet (ex_ip 6 41) (ex_tcp 5 0x5011) [9]) 16 48 s = Some s' \<and>
     n_socks s' 48 = Some k' \<and> s_state k' = TCP_STATE_FIN \<and> s_ack k' = 78"
proof -
  let ?k = "(ex_sock TCP)\<lparr>s_state := TCP_STATE_ACKED, s_ack := 77\<rparr>"
  obtain m where r: "resolved (ex_net\<lparr>n_arp := m, n_entries := [200 \<mapsto> \<lparr>hwaddr = replicate 6 5, arp_flags = 0, arp_iface = 17\<rparr>],
    n_socks := [48 \<mapsto> ?k]\<rparr>) ex_eth 0x0900000A (replicate 6 5)" using ex_resolved by blast
  let ?s = "ex_net\<lparr>n_arp := m, n_entries := [200 \<mapsto> \<lparr>hwaddr = replicate 6 5, arp_flags = 0, arp_iface = 17\<rparr>], n_socks := [48 \<mapsto> ?k]\<rparr>"
  have "\<exists>s' k'. tcp_handle log_env (tcp_packet (ex_ip 6 41) (ex_tcp 5 0x5011) [9]) 16 48 ?s = Some s' \<and> n_socks s' 48 = Some k' \<and>
    s_state k' = TCP_STATE_FIN \<and> s_ack k' = s_ack ?k + 1 \<and> tcp_stream k' = tcp_stream ?k"
    by (rule tcp_fin_out_of_order [where dev = 17 and e = ex_eth and hw = "replicate 6 5"], use r in \<open>simp_all add: ex_tcp_wf\<close>)
      (simp_all add: ex_net_def ex_eth_def ex_ip_def ex_tcp_def)
  then obtain s' k' where "tcp_handle log_env (tcp_packet (ex_ip 6 41) (ex_tcp 5 0x5011) [9]) 16 48 ?s = Some s'"
     "n_socks s' 48 = Some k'" "s_state k' = TCP_STATE_FIN" "s_ack k' = 78" by auto
  then show ?thesis by (intro exI [of _ ?s] exI [of _ s'] exI [of _ k']) simp
qed

section \<open>The states of a TCP socket\<close>

text \<open>The moves that incoming segments can cause.\<close>

inductive tcp_moves :: "u16 \<Rightarrow> u16 \<Rightarrow> bool" where
  stay: "tcp_moves x x"
| established: "tcp_moves TCP_STATE_WAITING TCP_STATE_ACKED"
| established_fin: "tcp_moves TCP_STATE_WAITING TCP_STATE_FIN"
| refused: "tcp_moves TCP_STATE_WAITING TCP_STATE_NONE"
| closed: "tcp_moves TCP_STATE_ACKED TCP_STATE_FIN"

inductive_cases tcp_moves_cases: "tcp_moves x y"

lemma tcp_moves_fin: "tcp_moves TCP_STATE_FIN y \<Longrightarrow> y = TCP_STATE_FIN"
  by (erule tcp_moves_cases) simp_all

text \<open>A socket in another state does not react to segments.\<close>

lemma tcp_handle_idle:
  assumes "n_socks s a = Some k" "s_state k \<noteq> TCP_STATE_WAITING" "s_state k \<noteq> TCP_STATE_ACKED"
  shows "tcp_handle D p nic a s = Some s"
  using assms by (simp add: tcp_handle_def)

lemma tcp_acked_state:
  "s_state (tcp_acked k syn n t) = (if ntohs (tcp_flags t) AND TCP_FLAGS_FIN \<noteq> 0 then TCP_STATE_FIN
     else if tcp_in_order k syn t then TCP_STATE_ACKED else s_state k)"
  by (simp add: tcp_acked_def Let_def)

definition same_link :: "net \<Rightarrow> net \<Rightarrow> bool" where
  "same_link s s' \<longleftrightarrow> n_device s' = n_device s \<and> n_nics s' = n_nics s \<and> n_arp s' = n_arp s \<and> n_entries s' = n_entries s"

lemma same_link_frames: "same_link s (with_frames a k fs s)" "same_link s (sock_added a k p (with_frames a k2 fs s))"
  by (simp_all add: same_link_def with_frames_def sock_added_def)

definition moved :: "net \<Rightarrow> addr \<Rightarrow> u16 \<Rightarrow> net option \<Rightarrow> bool" where
  "moved s a x r \<longleftrightarrow> (\<exists>s' k'. r = Some s' \<and> n_socks s' a = Some k' \<and> tcp_moves x (s_state k') \<and> same_link s s')"

lemma tcp_moved_waiting:
  assumes "records D" "n_socks s a = Some k" "s_state k = TCP_STATE_WAITING" "n_device s nic = Some dev" "n_nics s dev = Some e"
    "length (mac e) = 6" "resolved s e (ip_source h) hw" "unat (ntohs (ip_length h)) \<le> length (tcp_packet h t d)"
  shows "moved s a (s_state k) (tcp_handle D (tcp_packet h t d) nic a s)"
proof -
  let ?p = "tcp_packet h t d" and ?fl = "ntohs (tcp_flags t)"
  let ?synack = "(?fl AND (TCP_FLAGS_SYN OR TCP_FLAGS_ACK)) = (TCP_FLAGS_SYN OR TCP_FLAGS_ACK)"
  obtain p where p: "tcp_ack D nic a ?p True 1 s = Some (tcp_in_order k True t,
    with_frames a (tcp_acked k True 1 t) (replicate (if tcp_in_order k True t then 1 else 3) (device_node e, eth_frame e hw p)) s)"
    by (rule tcp_ack_effect [OF assms(1,2,4-7)]) blast
  let ?k = "tcp_acked k True 1 t" and ?s = "with_frames a (tcp_acked k True 1 t) [(device_node e, eth_frame e hw p)] s"
  have i: "tcp_in_order k True t" by (simp add: tcp_in_order_def)
  let ?q = "take (unat (ntohs (ip_length h))) ?p"
  have add: "net_sock_add a ?p (unat (ntohs (ip_length h))) ?s = Some (sock_added a ?k ?q ?s)"
    using net_sock_add_effect [of ?s a ?k _ ?p, OF _ assms(8)] by (simp add: with_frames_def)
  consider (synack) ?synack | (rst) "\<not> ?synack" "?fl AND TCP_FLAGS_RST \<noteq> 0" | (other) "\<not> ?synack" "?fl AND TCP_FLAGS_RST = 0" by blast
  then show ?thesis
  proof cases
    case synack
    then have "tcp_handle D ?p nic a s = Some (sock_added a ?k ?q ?s)"
      using assms(2,3) p i add by (simp add: tcp_handle_def tcp_packet_fields(1,5))
    moreover have "tcp_moves (s_state k) (s_state ?k)"
      using assms(3) i by (simp add: tcp_acked_state established established_fin)
    ultimately show ?thesis unfolding moved_def
      by (intro exI [of _ "sock_added a ?k ?q ?s"] exI [of _ "?k\<lparr>s_rx_queue := s_rx_queue ?k @ [?q], s_rx_wait := [], s_alert_wait := []\<rparr>"])
        (simp add: same_link_frames, simp add: sock_added_def)
  next
    case rst
    then have "tcp_handle D ?p nic a s = net_sock_alert a (upd_sock a (\<lambda>k. k\<lparr>s_state := 0\<rparr>) s)"
      using assms(2,3) by (simp add: tcp_handle_def tcp_packet_fields(1,5))
    then show ?thesis using assms(2,3) refused
      by (simp add: moved_def net_sock_alert_def upd_sock_def same_link_def)
  next
    case other
    then have "tcp_handle D ?p nic a s = Some s"
      using assms(2,3) by (simp add: tcp_handle_def tcp_packet_fields(1,5))
    then show ?thesis using assms(2) by (simp add: moved_def same_link_def stay)
  qed
qed

lemma tcp_moved_acked:
  assumes "records D" "n_socks s a = Some k" "s_state k = TCP_STATE_ACKED" "n_device s nic = Some dev" "n_nics s dev = Some e"
    "length (mac e) = 6" "resolved s e (ip_source h) hw" "unat (ntohs (ip_length h)) \<le> length (tcp_packet h t d)"
  shows "moved s a (s_state k) (tcp_handle D (tcp_packet h t d) nic a s)"
proof -
  let ?p = "tcp_packet h t d"
  let ?n = "ucast (ntohs (ip_length h)) - 20 - ucast (drop_bit 12 (ntohs (tcp_flags t) AND 0xF000)) * 4 :: u64"
  let ?k = "tcp_acked k False ?n t" and ?q = "take (unat (ntohs (ip_length h))) ?p"
  obtain fs where p: "tcp_ack D nic a ?p False ?n s = Some (tcp_in_order k False t, with_frames a ?k fs s)"
    by (rule tcp_ack_effect [OF assms(1,2,4-7)]) blast
  let ?s = "with_frames a ?k fs s"
  have add: "net_sock_add a ?p (unat (ntohs (ip_length h))) ?s = Some (sock_added a ?k ?q ?s)"
    using net_sock_add_effect [of ?s a ?k _ ?p, OF _ assms(8)] by (simp add: with_frames_def)
  have "tcp_handle D ?p nic a s = (if ?n \<noteq> 0 then Some (if tcp_in_order k False t then sock_added a ?k ?q ?s else ?s)
      else if ntohs (tcp_flags t) AND TCP_FLAGS_FIN \<noteq> 0 then Some ?s else Some s)"
    using assms(2,3) p add by (cases "?n = 0") (simp_all add: tcp_handle_def tcp_packet_fields(1,5) Let_def del: right_minus_eq)
  then consider "tcp_handle D ?p nic a s = Some (sock_added a ?k ?q ?s)" | "tcp_handle D ?p nic a s = Some ?s" | "tcp_handle D ?p nic a s = Some s"
    by (simp split: if_splits del: right_minus_eq)
  moreover have "tcp_moves (s_state k) (s_state ?k)" using assms(3) by (simp add: tcp_acked_state stay closed)
  ultimately show ?thesis
  proof cases
    case 1
    then show ?thesis unfolding moved_def using \<open>tcp_moves (s_state k) (s_state ?k)\<close>
      by (intro exI [of _ "sock_added a ?k ?q ?s"] exI [of _ "?k\<lparr>s_rx_queue := s_rx_queue ?k @ [?q], s_rx_wait := [], s_alert_wait := []\<rparr>"])
        (simp add: same_link_frames, simp add: sock_added_def)
  next
    case 2
    then show ?thesis unfolding moved_def using \<open>tcp_moves (s_state k) (s_state ?k)\<close>
      by (intro exI [of _ ?s] exI [of _ ?k]) (simp add: same_link_frames, simp add: with_frames_def)
  next
    case 3
    then show ?thesis using assms(2) by (simp add: moved_def same_link_def stay)
  qed
qed

text \<open>Every 40 bytes or more are the two headers and what follows.\<close>

lemma w16_any: "\<exists>x. w16 x = [a, b]"
proof (intro exI)
  show "w16 (ucast a OR push_bit 8 (ucast b)) = [a, b]"
    unfolding w16_def list.inject by (intro conjI bit_eqI) (auto simp: bit_simps dest: bit_imp_le_length)
qed

lemma w32_any: "\<exists>x. w32 x = [a, b, c, d]"
proof (intro exI)
  show "w32 (ucast a OR push_bit 8 (ucast b) OR push_bit 16 (ucast c) OR push_bit 24 (ucast d)) = [a, b, c, d]"
    unfolding w32_def list.inject by (intro conjI bit_eqI) (auto simp: bit_simps dest: bit_imp_le_length)
qed

lemma ipv4_bytes_any:
  assumes "length xs = 20"
  shows "\<exists>h. xs = ipv4_bytes h"
proof -
  from assms obtain a0 a1 a2 a3 a4 a5 a6 a7 a8 a9 b0 b1 b2 b3 b4 b5 b6 b7 b8 b9 where
    xs: "xs = [a0, a1, a2, a3, a4, a5, a6, a7, a8, a9, b0, b1, b2, b3, b4, b5, b6, b7, b8, b9]"
    by (auto simp: numeral_eq_Suc length_Suc_conv)
  obtain l i f c s d where "w16 l = [a2, a3]" "w16 i = [a4, a5]" "w16 f = [a6, a7]" "w16 c = [b0, b1]"
    "w32 s = [b2, b3, b4, b5]" "w32 d = [b6, b7, b8, b9]" using w16_any w32_any by metis
  then show ?thesis unfolding xs
    by (intro exI [of _ "\<lparr>version_ihl = a0, dscp_ecn = a1, ip_length = l, ip_ident = i, flags_fragment = f, ip_ttl = a8,
      ip_protocol = a9, ip_checksum = c, ip_source = s, ip_destination = d\<rparr>"]) (simp add: ipv4_bytes_def)
qed

lemma tcp_bytes_any:
  assumes "length xs = 20"
  shows "\<exists>t. xs = tcp_bytes t"
proof -
  from assms obtain a0 a1 a2 a3 a4 a5 a6 a7 a8 a9 b0 b1 b2 b3 b4 b5 b6 b7 b8 b9 where
    xs: "xs = [a0, a1, a2, a3, a4, a5, a6, a7, a8, a9, b0, b1, b2, b3, b4, b5, b6, b7, b8, b9]"
    by (auto simp: numeral_eq_Suc length_Suc_conv)
  obtain x1 x2 x3 x4 x5 x6 x7 x8 where "w16 x1 = [a0, a1]" "w16 x2 = [a2, a3]" "w32 x3 = [a4, a5, a6, a7]" "w32 x4 = [a8, a9, b0, b1]"
    "w16 x5 = [b2, b3]" "w16 x6 = [b4, b5]" "w16 x7 = [b6, b7]" "w16 x8 = [b8, b9]" using w16_any w32_any by metis
  then show ?thesis unfolding xs
    by (intro exI [of _ "\<lparr>tcp_source_port = x1, tcp_destination_port = x2, seq_number = x3, ack_number = x4,
      tcp_flags = x5, window_size = x6, tcp_checksum = x7, tcp_urgent = x8\<rparr>"]) (simp add: tcp_bytes_def)
qed

lemma tcp_packet_any:
  assumes "40 \<le> length p"
  obtains h t d where "p = tcp_packet h t d"
proof -
  obtain h t where "take 20 p = ipv4_bytes h" "take 20 (drop 20 p) = tcp_bytes t"
    using assms ipv4_bytes_any [of "take 20 p"] tcp_bytes_any [of "take 20 (drop 20 p)"] by auto
  moreover have "p = take 20 p @ take 20 (drop 20 p) @ drop 40 p"
    by (metis append_take_drop_id drop_drop numeral_Bit0 numeral_plus_numeral)
  ultimately show ?thesis using that by (simp add: tcp_packet_def)
qed

text \<open>A sequence of segments for one socket.\<close>

fun tcp_inputs :: "net_env \<Rightarrow> addr \<Rightarrow> addr \<Rightarrow> u8 list list \<Rightarrow> net \<Rightarrow> net option" where
  "tcp_inputs D nic a [] s = Some s"
| "tcp_inputs D nic a (p # ps) s = do { s \<leftarrow> tcp_handle D p nic a s; tcp_inputs D nic a ps s }"

text \<open>
  What may arrive: any bytes that hold the two headers and at least as many as the length field claims,
  from a host whose hardware address is known.
\<close>

definition tcp_arrives :: "net \<Rightarrow> EthernetDevice \<Rightarrow> u8 list \<Rightarrow> bool" where
  "tcp_arrives s e p \<longleftrightarrow> 40 \<le> length p \<and> (\<exists>len. rd16 p 2 = Some len \<and> unat (ntohs len) \<le> length p) \<and>
     (\<exists>src hw. rd32 p 12 = Some src \<and> resolved s e src hw)"

lemma tcp_moved:
  assumes "records D" "n_socks s a = Some k" "n_device s nic = Some dev" "n_nics s dev = Some e"
    "length (mac e) = 6" "tcp_arrives s e p"
  shows "moved s a (s_state k) (tcp_handle D p nic a s)"
proof -
  have "40 \<le> length p" using assms(6) by (simp add: tcp_arrives_def)
  then obtain h t d where p: "p = tcp_packet h t d" by (rule tcp_packet_any)
  obtain hw where w: "resolved s e (ip_source h) hw" "unat (ntohs (ip_length h)) \<le> length (tcp_packet h t d)"
    using assms(6) unfolding p tcp_arrives_def tcp_packet_fields by auto
  consider "s_state k = TCP_STATE_WAITING" | "s_state k = TCP_STATE_ACKED" |
    "s_state k \<noteq> TCP_STATE_WAITING" "s_state k \<noteq> TCP_STATE_ACKED" by blast
  then show ?thesis
  proof cases
    case 1
    show ?thesis unfolding p by (rule tcp_moved_waiting [OF assms(1,2) 1 assms(3-5) w])
  next
    case 2
    show ?thesis unfolding p by (rule tcp_moved_acked [OF assms(1,2) 2 assms(3-5) w])
  next
    case 3
    then show ?thesis using assms(2) tcp_handle_idle [OF assms(2)] by (simp add: moved_def same_link_def stay)
  qed
qed

text \<open>
  Property C21.  Whatever segments arrive for a TCP socket, in any number and order and with any contents,
  options and payload, the stack handles them without a fault and the state of the socket moves only
  along the arrows waiting to established, refused or closed, and established to closed.  A closed
  socket stays closed, and a socket that is not waiting for a connection or connected does not change at
  all.  The segments must be at least as long as the two headers and as their length field says,
  the hardware addresses of their senders must be in the cache, and the driver takes every frame.
\<close>

theorem tcp_state_machine:
  assumes "records D" "n_socks s a = Some k" "n_device s nic = Some dev" "n_nics s dev = Some e" "length (mac e) = 6"
    "\<forall>p \<in> set segs. tcp_arrives s e p"
  shows "\<exists>s' k'. tcp_inputs D nic a segs s = Some s' \<and> n_socks s' a = Some k' \<and>
    tcp_moves\<^sup>*\<^sup>* (s_state k) (s_state k') \<and>
    (s_state k \<in> {TCP_STATE_NONE, TCP_STATE_FIN, TCP_STATE_BOUND} \<longrightarrow> s' = s)"
  using assms(2-4,6)
proof (induction segs arbitrary: s k)
  case (Cons p segs)
  have "moved s a (s_state k) (tcp_handle D p nic a s)"
    using Cons.prems(4) by (intro tcp_moved [OF assms(1) Cons.prems(1-3) assms(5)]) simp
  then obtain s1 k1 where s1: "tcp_handle D p nic a s = Some s1" "n_socks s1 a = Some k1"
    "tcp_moves (s_state k) (s_state k1)" "same_link s s1" by (auto simp: moved_def)
  have l: "n_device s1 nic = Some dev" "n_nics s1 dev = Some e" "\<forall>p \<in> set segs. tcp_arrives s1 e p"
    using s1(4) Cons.prems(2-4) by (simp_all add: same_link_def tcp_arrives_def resolved_def)
  have idle: "s1 = s" if "s_state k \<in> {TCP_STATE_NONE, TCP_STATE_FIN, TCP_STATE_BOUND}"
    using that s1(1) tcp_handle_idle [OF Cons.prems(1), of D p nic] by auto
  from Cons.IH [OF s1(2) l] obtain s' k' where
    s': "tcp_inputs D nic a segs s1 = Some s'" "n_socks s' a = Some k'"
      "tcp_moves\<^sup>*\<^sup>* (s_state k1) (s_state k')" "s_state k1 \<in> {TCP_STATE_NONE, TCP_STATE_FIN, TCP_STATE_BOUND} \<longrightarrow> s' = s1" by blast
  have "tcp_moves\<^sup>*\<^sup>* (s_state k) (s_state k')" by (rule converse_rtranclp_into_rtranclp [of tcp_moves, OF s1(3) s'(3)])
  moreover have "s' = s" if "s_state k \<in> {TCP_STATE_NONE, TCP_STATE_FIN, TCP_STATE_BOUND}"
    using idle [OF that] s'(4) that s1(2) Cons.prems(1) by auto
  ultimately show ?case using s1(1) s'(1,2) by (intro exI [of _ s'] exI [of _ k']) simp
qed simp

text \<open>A waiting socket gets a \<^verbatim>\<open>SYN\<close>-\<^verbatim>\<open>ACK\<close> with four bytes of options, then data, then a \<^verbatim>\<open>FIN\<close>.\<close>

theorem tcp_state_machine_witness:
  "\<exists>s s' k'. map_option s_state (n_socks s 48) = Some TCP_STATE_WAITING \<and>
     tcp_inputs log_env 16 48 [tcp_packet (ex_ip 6 44) (ex_tcp 76 0x6012) [2, 4, 5, 180],
       tcp_packet (ex_ip 6 41) (ex_tcp 77 0x5010) [9], tcp_packet (ex_ip 6 40) (ex_tcp 78 0x5011) []] s = Some s' \<and>
     n_socks s' 48 = Some k' \<and> tcp_moves\<^sup>*\<^sup>* TCP_STATE_WAITING (s_state k')"
proof -
  let ?k = "(ex_sock TCP)\<lparr>s_state := TCP_STATE_WAITING\<rparr>"
  let ?ps = "[tcp_packet (ex_ip 6 44) (ex_tcp 76 0x6012) [2, 4, 5, 180],
       tcp_packet (ex_ip 6 41) (ex_tcp 77 0x5010) [9], tcp_packet (ex_ip 6 40) (ex_tcp 78 0x5011) []]"
  obtain m where r: "resolved (ex_net\<lparr>n_arp := m, n_entries := [200 \<mapsto> \<lparr>hwaddr = replicate 6 5, arp_flags = 0, arp_iface = 17\<rparr>],
    n_socks := [48 \<mapsto> ?k]\<rparr>) ex_eth 0x0900000A (replicate 6 5)" using ex_resolved by blast
  let ?s = "ex_net\<lparr>n_arp := m, n_entries := [200 \<mapsto> \<lparr>hwaddr = replicate 6 5, arp_flags = 0, arp_iface = 17\<rparr>], n_socks := [48 \<mapsto> ?k]\<rparr>"
  have "\<forall>p \<in> set ?ps. tcp_arrives ?s ex_eth p"
    using r by (auto simp: tcp_arrives_def tcp_packet_fields ex_ip_def)
  then have "\<exists>s' k'. tcp_inputs log_env 16 48 ?ps ?s = Some s' \<and> n_socks s' 48 = Some k' \<and>
    tcp_moves\<^sup>*\<^sup>* (s_state ?k) (s_state k') \<and>
    (s_state ?k \<in> {TCP_STATE_NONE, TCP_STATE_FIN, TCP_STATE_BOUND} \<longrightarrow> s' = ?s)"
    by (intro tcp_state_machine [where dev = 17 and e = ex_eth]) (simp_all, simp_all add: ex_net_def ex_eth_def)
  then obtain s' k' where "tcp_inputs log_env 16 48 ?ps ?s = Some s'" "n_socks s' 48 = Some k'"
    "tcp_moves\<^sup>*\<^sup>* (s_state ?k) (s_state k')" by blast
  then show ?thesis by (intro exI [of _ ?s] exI [of _ s'] exI [of _ k']) simp
qed

end
