(* ===== verification/Ksocket.thy ===== *)
theory Ksocket
  imports Kipv4
begin

text \<open>
  The upper half of the network stack: incoming frames (\<^verbatim>\<open>kernel/net/eth.c\<close>), the loopback interface
  (\<^verbatim>\<open>kernel/net/loop.c\<close>), raw sockets, and the system calls on sockets (\<^verbatim>\<open>kernel/net/socket.c\<close>).
\<close>

section \<open>Incoming frames (eth.c)\<close>

fun raw_deliver :: "addr list \<Rightarrow> addr \<Rightarrow> u8 list \<Rightarrow> nat \<Rightarrow> net \<Rightarrow> net option" where
  "raw_deliver [] nic frame sz s = Some s"
| "raw_deliver (a # r) nic frame sz s = do {
     sock \<leftarrow> n_socks s a;
     s \<leftarrow> (if s_device sock = NULL \<or> s_device sock = nic then net_sock_add a frame sz s else Some s);
     raw_deliver r nic frame sz s }"

definition net_eth_handle :: "net_env \<Rightarrow> u8 list \<Rightarrow> addr \<Rightarrow> nat \<Rightarrow> net \<Rightarrow> net option" where
  "net_eth_handle D frame nic sz s = (
     if sz < 14 then Some s
     else do {
       s \<leftarrow> raw_deliver (n_raw s) nic frame sz s;
       dev \<leftarrow> n_device s nic;
       nic_eth \<leftarrow> n_nics s dev;
       destination \<leftarrow> copy_from frame 0 6;
       own \<leftarrow> copy_from (mac nic_eth) 0 6;
       if destination = own \<or> destination = ETHERNET_BROADCAST_MAC then do {
         type \<leftarrow> rd16 frame 12;
         if ntohs type = ETHERNET_TYPE_ARP then net_arp_handle D (drop 14 frame) nic s
         else if ntohs type = ETHERNET_TYPE_IPV4 then do {
           let packet = drop 14 frame;
           source \<leftarrow> rd32 packet 12;
           hw \<leftarrow> copy_from frame 6 6;
           s \<leftarrow> (if source \<noteq> 0xFFFFFFFF then net_arp_cache_add dev source hw 0 s else Some s);
           net_ipv4_handle D packet nic s
         } else Some s
       } else Some s })"

section \<open>Loopback (loop.c)\<close>



text \<open>The counters are copied out in the order of the structure.\<close>

definition w64 :: "u64 \<Rightarrow> u8 list" where
  "w64 x = w32 (ucast x) @ w32 (ucast (drop_bit 32 x))"

definition upd_nic :: "addr \<Rightarrow> (EthernetDevice \<Rightarrow> EthernetDevice) \<Rightarrow> net \<Rightarrow> net" where
  "upd_nic d f s = s\<lparr>n_nics := (n_nics s)(d := map_option f (n_nics s d))\<rparr>"

definition ioctl_loop :: "net_env \<Rightarrow> addr \<Rightarrow> u64 \<Rightarrow> u8 list \<Rightarrow> net \<Rightarrow> (int \<times> u8 list \<times> net) option" where
  "ioctl_loop D node request argp s = do {
     nic \<leftarrow> n_device s node;
     eth \<leftarrow> n_nics s nic;
     if request = 0x12340001 then Some (1, argp, s)
     else if request = 0x12340002 then
       (if ipv4_addr eth = 0 then Some (- ENOENT, argp, s)
        else do { b \<leftarrow> wr_at argp 0 (w32 (ipv4_addr eth)); Some (0, b, s) })
     else if request = 0x12340012 then
       do { v \<leftarrow> rd32 argp 0; Some (0, argp, upd_nic nic (\<lambda>e. e\<lparr>ipv4_addr := v\<rparr>) s) }
     else if request = 0x12340004 then
       (if ipv4_subnet eth = 0 then Some (- ENOENT, argp, s)
        else do { b \<leftarrow> wr_at argp 0 (w32 (ipv4_subnet eth)); Some (0, b, s) })
     else if request = 0x12340014 then
       do { v \<leftarrow> rd32 argp 0; Some (0, argp, upd_nic nic (\<lambda>e. e\<lparr>ipv4_subnet := v\<rparr>) s) }
     else if request = 0x12340007 then
       (if ipv4_subnet eth = 0 then Some (- ENOENT, argp, s)
        else do { b \<leftarrow> wr_at argp 0 (w32 (ipv4_gateway eth)); Some (0, b, s) })
     else if request = 0x12340017 then do {
       v \<leftarrow> rd32 argp 0;
       let s = upd_nic nic (\<lambda>e. e\<lparr>ipv4_gateway := v\<rparr>) s;
       s \<leftarrow> net_arp_ask D v node s;
       Some (0, argp, s) }
     else if request = 0x12340003 then Some (- ENOENT, argp, s)
     else if request = 0x12340013 then
       do { v \<leftarrow> copy_from argp 0 16; Some (0, argp, upd_nic nic (\<lambda>e. e\<lparr>ipv6_addr := v\<rparr>) s) }
     else if request = 0x12340005 then do { b \<leftarrow> wr_at argp 0 (w32 (0x0010 OR 0x0001 OR 0x0008)); Some (0, b, s) }
     else if request = 0x12340006 then do { b \<leftarrow> wr_at argp 0 (w32 (ucast (mtu eth))); Some (0, b, s) }
     else if request = 0x12340018 then do {
       c \<leftarrow> n_counts s nic;
       b \<leftarrow> wr_at argp 0 (w64 (tx_count c) @ w64 (tx_bytes c) @ w64 (rx_count c) @ w64 (rx_bytes c));
       Some (0, b, s) }
     else Some (- EINVAL, argp, s) }"

definition loop_init :: "addr \<Rightarrow> net \<Rightarrow> (addr \<times> net) option" where
  "loop_init nic s = do {
     (node, s) \<leftarrow> alloc s;
     let s = s\<lparr>n_device := (n_device s)(node \<mapsto> nic)\<rparr>;
     let s = upd_nic nic (\<lambda>e. e\<lparr>device_node := node, mtu := 65536, ipv4_addr := 0x0100007F, ipv4_subnet := 0x000000FF\<rparr>) s;
     e \<leftarrow> n_nics s nic;
     (_, s) \<leftarrow> net_add_interface (if_name e) node s;
     Some (node, s) }"

definition loopbook_install :: "net \<Rightarrow> (addr \<times> net) option" where
  "loopbook_install s = do {
     (nic, s) \<leftarrow> alloc s;
     let e = \<lparr>if_name = [108, 111], mac = replicate 6 0, mtu = 0, ipv4_addr = 0, ipv4_subnet = 0, ipv4_gateway = 0,
           ipv6_addr = replicate 16 0, device_node = NULL\<rparr>;
     let s = s\<lparr>n_nics := (n_nics s)(nic \<mapsto> e),
           n_counts := (n_counts s)(nic \<mapsto> \<lparr>tx_count = 0, tx_bytes = 0, rx_count = 0, rx_bytes = 0\<rparr>)\<rparr>;
     loop_init nic s }"

definition ipv4_install :: "net \<Rightarrow> net option" where
  "ipv4_install s = do {
     u \<leftarrow> hashmap_create_int 10;
     t \<leftarrow> hashmap_create_int 10;
     i \<leftarrow> hashmap_create_int 10;
     Some (s\<lparr>n_udp := u, n_tcp := t, n_icmp := i\<rparr>) }"

text \<open>The directory \<^verbatim>\<open>/dev/net\<close> is recorded as a mount without a device.\<close>

definition net_install :: "net \<Rightarrow> net option" where
  "net_install s = do {
     let s = s\<lparr>n_mounts := n_mounts s @ [(butlast dev_net_prefix, NULL)]\<rparr>;
     ifs \<leftarrow> hashmap_create 10;
     arp \<leftarrow> hashmap_create_int 10;
     s \<leftarrow> ipv4_install (s\<lparr>n_interfaces := ifs, n_raw := [], n_arp := arp\<rparr>);
     (lo, s) \<leftarrow> loopbook_install s;
     Some (s\<lparr>n_if_loop := lo, n_if_first := NULL\<rparr>) }"

section \<open>Raw sockets (socket.c)\<close>

definition sock_raw_recv :: "net_env \<Rightarrow> net_sleeps \<Rightarrow> addr \<Rightarrow> msghdr \<Rightarrow> net \<Rightarrow> (int \<times> msghdr \<times> net) option" where
  "sock_raw_recv D sl a msg s = do {
     sock \<leftarrow> n_socks s a;
     if s_device sock = NULL then Some (- EINVAL, msg, s)
     else if length (msg_iov msg) > 1 then Some (- ENOTSUP, msg, s)
     else if msg_iov msg = [] then Some (0, msg, s)
     else do {
       (data, s) \<leftarrow> net_sock_get D sl a s;
       case data of None \<Rightarrow> Some (- EINTR, msg, s) | Some d \<Rightarrow>
         if length (hd (msg_iov msg)) < length d then Some (- EINVAL, msg, s)
         else do { msg \<leftarrow> store_iov msg d; Some (4096, msg, s) }}}"

definition sock_raw_send :: "net_env \<Rightarrow> addr \<Rightarrow> msghdr \<Rightarrow> net \<Rightarrow> (int \<times> net) option" where
  "sock_raw_send D a msg s = do {
     sock \<leftarrow> n_socks s a;
     if s_device sock = NULL then Some (- EINVAL, s)
     else if length (msg_iov msg) > 1 then Some (- ENOTSUP, s)
     else if msg_iov msg = [] then Some (0, s)
     else d_write D (s_device sock) (hd (msg_iov msg)) s }"

text \<open>\<^verbatim>\<open>list_delete\<close> of the node that \<^verbatim>\<open>list_find\<close> returns; a socket that is not in the list gives it \<^verbatim>\<open>NULL\<close>.\<close>

definition sock_raw_close :: "addr \<Rightarrow> net \<Rightarrow> net option" where
  "sock_raw_close a s = (if a \<in> set (n_raw s) then Some (s\<lparr>n_raw := remove1 a (n_raw s)\<rparr>) else None)"

definition net_raw_socket :: "net_env \<Rightarrow> int \<Rightarrow> int \<Rightarrow> int \<Rightarrow> bool \<Rightarrow> net \<Rightarrow> (int \<times> net) option" where
  "net_raw_socket D type protocol flags nb s = (
     if type \<noteq> 3 then Some (- ESOCKTNOSUPPORT, s)
     else if d_user D \<noteq> 0 then Some (- EACCES, s)
     else do {
       (a, s) \<leftarrow> net_sock_create RAW s;
       let s = s\<lparr>n_raw := n_raw s @ [a]\<rparr>;
       let s = (if nb then upd_sock a (\<lambda>k. k\<lparr>s_nonblocking := True\<rparr>) s else s);
       Some (d_append_fd D a (flags OR PROC_FD_MODE__RW) s) })"

section \<open>System calls (socket.c)\<close>

text \<open>What a blocking operation of any kind of socket waits for: see \<open>tcp_wait\<close>, \<open>net_sock_get\<close> and \<open>tcp_send_loop\<close>.\<close>

record blocking =
  b_clock :: "u64 \<times> u64"
  b_waits :: waits
  b_connect :: "(int \<times> (u64 \<times> u64) \<times> (u64 \<times> u64) \<times> (net \<Rightarrow> net)) list"
  b_sleeps :: net_sleeps
  b_pause :: "nat \<Rightarrow> net \<Rightarrow> net"

abbreviation (input) SOCK_NONBLOCK :: int where "SOCK_NONBLOCK \<equiv> 0x40000"
abbreviation (input) SOCK_CLOEXEC :: int where "SOCK_CLOEXEC \<equiv> 0x80000"
abbreviation (input) SOCK_CLOFORK :: int where "SOCK_CLOFORK \<equiv> 0x100000"

definition net_socket :: "net_env \<Rightarrow> int \<Rightarrow> int \<Rightarrow> int \<Rightarrow> net \<Rightarrow> (int \<times> net) option" where
  "net_socket D domain type protocol s = (
     let nonblocking = (type AND SOCK_NONBLOCK \<noteq> 0);
         flags = (if type AND SOCK_CLOEXEC \<noteq> 0 then 0x010 else 0) OR (if type AND SOCK_CLOFORK \<noteq> 0 then 0x020 else 0);
         type = type AND NOT (SOCK_NONBLOCK OR SOCK_CLOEXEC OR SOCK_CLOFORK)
     in if domain = AF_INET then net_ipv4_socket D type protocol flags nonblocking s
        else if domain = 2 then net_raw_socket D type protocol flags nonblocking s
        else Some (- EAFNOSUPPORT, s))"

text \<open>
  Socket options.  \<open>user_ok\<close> is the answer of \<^verbatim>\<open>mmu_validate_user_pointer\<close> for the option value;
  \<^verbatim>\<open>struct timeval\<close> holds two 64-bit numbers.
\<close>

definition rd_u64 :: "u8 list \<Rightarrow> nat \<Rightarrow> u64 option" where
  "rd_u64 p i = do { l \<leftarrow> rd32 p i; h \<leftarrow> rd32 p (i + 4); Some (ucast l OR push_bit 32 (ucast h)) }"

definition c_string :: "u8 list \<Rightarrow> u8 list" where
  "c_string b = takeWhile (\<lambda>c. c \<noteq> 0) b"

definition net_so_socket :: "bool \<Rightarrow> addr \<Rightarrow> int \<Rightarrow> u8 list \<Rightarrow> nat \<Rightarrow> net \<Rightarrow> (int \<times> net) option" where
  "net_so_socket user_ok a optname optval optlen s = (
     if optname = 3 then
       (if optlen < 1 \<or> optlen > 32 then Some (- EINVAL, s) else do {
        last \<leftarrow> rd8 optval (optlen - 1);
        if last \<noteq> 0 then Some (- EINVAL, s) else do {
        netif \<leftarrow> net_if_lookup (c_string optval) s;
        if netif = NULL then Some (- ENOENT, s)
        else Some (0, upd_sock a (\<lambda>k. k\<lparr>s_device := netif\<rparr>) s) }})
     else if optname = 66 then
       (if optlen \<noteq> 16 then Some (- EINVAL, s)
        else if \<not> user_ok then Some (- EFAULT, s)
        else do {
          sec \<leftarrow> rd_u64 optval 0;
          usec \<leftarrow> rd_u64 optval 8;
          Some (0, upd_sock a (\<lambda>k. k\<lparr>s_timeout_s := sec, s_timeout_us := usec\<rparr>) s) })
     else if optname = 2 then
       (if optlen \<noteq> 4 then Some (- EINVAL, s)
        else if \<not> user_ok then Some (- EFAULT, s)
        else Some (0, s))
     else Some (- ENOPROTOOPT, s))"

definition is_socket :: "net_env \<Rightarrow> int \<Rightarrow> int" where
  "is_socket D sockfd = (
     if \<not> (sockfd < int (length (d_fds D)) \<and> sockfd \<ge> 0 \<and> d_fds D ! nat sockfd \<noteq> NULL) then - EBADF
     else if d_flags D (d_fds D ! nat sockfd) AND 0x80 = 0 then - ENOTSOCK
     else 0)"

text \<open>\<^verbatim>\<open>CHECK_SOCK\<close> and the lookup of the socket that follows it.\<close>

definition with_sock :: "net_env \<Rightarrow> int \<Rightarrow> (int \<Rightarrow> 'a) \<Rightarrow> (addr \<Rightarrow> 'a option) \<Rightarrow> 'a option" where
  "with_sock D sockfd err f = (
     let x = is_socket D sockfd in if x \<noteq> 0 then Some (err x) else f (d_fds D ! nat sockfd))"

definition net_setsockopt :: "net_env \<Rightarrow> bool \<Rightarrow> bool \<Rightarrow> int \<Rightarrow> int \<Rightarrow> int \<Rightarrow> u8 list \<Rightarrow> nat \<Rightarrow> net \<Rightarrow> (int \<times> net) option" where
  "net_setsockopt D ptr_ok user_ok sockfd level optname optval optlen s =
     with_sock D sockfd (\<lambda>x. (x, s)) (\<lambda>node.
       if \<not> ptr_ok then Some (- EFAULT, s)
       else if level = 1 then net_so_socket user_ok node optname optval optlen s
       else if level = 0 then net_so_ipv4_socket node optname optval optlen s
       else Some (- ENOPROTOOPT, s))"

definition net_getsockopt :: "net_env \<Rightarrow> int \<Rightarrow> int option" where
  "net_getsockopt D sockfd = with_sock D sockfd (\<lambda>x. x) (\<lambda>_. Some (- EINVAL))"

definition net_bind :: "net_env \<Rightarrow> int \<Rightarrow> u8 list \<Rightarrow> net \<Rightarrow> (int \<times> net) option" where
  "net_bind D sockfd addr_in s = with_sock D sockfd (\<lambda>x. (x, s)) (\<lambda>node. do {
     k \<leftarrow> n_socks s node;
     case s_kind k of UDP \<Rightarrow> sock_udp_bind D node addr_in s
       | TCP \<Rightarrow> sock_tcp_bind D node addr_in s
       | _ \<Rightarrow> Some (- EINVAL, s) })"

definition net_accept :: "net_env \<Rightarrow> blocking \<Rightarrow> int \<Rightarrow> net \<Rightarrow> (int \<times> net) option" where
  "net_accept D B sockfd s = with_sock D sockfd (\<lambda>x. (x, s)) (\<lambda>node. do {
     k \<leftarrow> n_socks s node;
     case s_kind k of TCP \<Rightarrow> sock_tcp_accept D (b_clock B) (b_waits B) (b_sleeps B) node s
       | _ \<Rightarrow> Some (- EINVAL, s) })"

definition net_listen :: "net_env \<Rightarrow> int \<Rightarrow> net \<Rightarrow> int option" where
  "net_listen D sockfd s = with_sock D sockfd (\<lambda>x. x) (\<lambda>node. do {
     k \<leftarrow> n_socks s node;
     case s_kind k of TCP \<Rightarrow> sock_tcp_listen node s | _ \<Rightarrow> Some (- EINVAL) })"

definition net_connect :: "net_env \<Rightarrow> blocking \<Rightarrow> int \<Rightarrow> u8 list \<Rightarrow> nat \<Rightarrow> net \<Rightarrow> (int \<times> net) option" where
  "net_connect D B sockfd addr_in addrlen s = with_sock D sockfd (\<lambda>x. (x, s)) (\<lambda>node. do {
     k \<leftarrow> n_socks s node;
     case s_kind k of TCP \<Rightarrow> sock_tcp_connect D (b_clock B) (b_connect B) (b_sleeps B) node addr_in addrlen s
       | _ \<Rightarrow> Some (- EINVAL, s) })"

text \<open>
  The check of a message from user space.  \<open>V p n w\<close> is \<^verbatim>\<open>mmu_validate_user_pointer\<close>: whether the process
  may read, or with \<open>w\<close> write, \<open>n\<close> bytes at \<open>p\<close>.
\<close>

record user_msghdr =
  u_name :: addr
  u_namelen :: u64
  u_iov :: addr
  u_iovlen :: u64
  u_iovecs :: "(addr \<times> u64) list"
  u_control :: addr
  u_controllen :: u64

definition validate_msg :: "(addr \<Rightarrow> u64 \<Rightarrow> bool \<Rightarrow> bool) \<Rightarrow> addr \<Rightarrow> user_msghdr \<Rightarrow> bool \<Rightarrow> bool" where
  "validate_msg V p msg readonly = (let w = \<not> readonly in
     if \<not> V p 56 w then True
     else if u_iovlen msg \<noteq> 0 \<and> u_name msg \<noteq> NULL \<and> \<not> V (u_name msg) (u_namelen msg) w then True
     else if u_iovlen msg \<noteq> 0 \<and> \<not> V (u_iov msg) (u_iovlen msg * 16) w then True
     else if u_iovlen msg \<noteq> 0 \<and> (\<exists>(b, l) \<in> set (take (unat (u_iovlen msg)) (u_iovecs msg)). \<not> V b l w) then True
     else u_controllen msg \<noteq> 0 \<and> \<not> V (u_control msg) (u_controllen msg) w)"

definition net_recv :: "net_env \<Rightarrow> blocking \<Rightarrow> bool \<Rightarrow> bool \<Rightarrow> int \<Rightarrow> msghdr \<Rightarrow> net \<Rightarrow> (int \<times> msghdr \<times> net) option" where
  "net_recv D B ptr_ok invalid sockfd msg s = with_sock D sockfd (\<lambda>x. (x, msg, s)) (\<lambda>node.
     if \<not> ptr_ok \<or> invalid then Some (- EFAULT, msg, s)
     else do {
       k \<leftarrow> n_socks s node;
       case s_kind k of RAW \<Rightarrow> sock_raw_recv D (b_sleeps B) node msg s
         | ICMP \<Rightarrow> sock_icmp_recv D (b_sleeps B) node msg s
         | UDP \<Rightarrow> sock_udp_recv D (b_sleeps B) node msg s
         | TCP \<Rightarrow> sock_tcp_recv D (b_clock B) (b_waits B) (b_sleeps B) node msg s })"

definition net_send :: "net_env \<Rightarrow> blocking \<Rightarrow> bool \<Rightarrow> bool \<Rightarrow> int \<Rightarrow> msghdr \<Rightarrow> net \<Rightarrow> (int \<times> net) option" where
  "net_send D B ptr_ok invalid sockfd msg s = with_sock D sockfd (\<lambda>x. (x, s)) (\<lambda>node.
     if \<not> ptr_ok \<or> invalid then Some (- EFAULT, s)
     else do {
       k \<leftarrow> n_socks s node;
       case s_kind k of RAW \<Rightarrow> sock_raw_send D node msg s
         | ICMP \<Rightarrow> sock_icmp_send D node msg s
         | UDP \<Rightarrow> sock_udp_send D node msg s
         | TCP \<Rightarrow> sock_tcp_send D (b_pause B) node msg s })"

definition net_shutdown :: "int \<Rightarrow> int \<Rightarrow> int" where
  "net_shutdown sockfd how = - EINVAL"

definition net_getsockname :: "net_env \<Rightarrow> bool \<Rightarrow> int \<Rightarrow> u8 list \<Rightarrow> nat \<Rightarrow> net \<Rightarrow> (int \<times> u8 list \<times> nat) option" where
  "net_getsockname D user_ok sockfd addr_buf addrlen s = with_sock D sockfd (\<lambda>x. (x, addr_buf, addrlen)) (\<lambda>node.
     if \<not> user_ok then Some (- EFAULT, addr_buf, addrlen)
     else do {
       k \<leftarrow> n_socks s node;
       case s_kind k of UDP \<Rightarrow> sock_udp_getsockname node addr_buf addrlen s
         | TCP \<Rightarrow> sock_tcp_getsockname node addr_buf addrlen s
         | _ \<Rightarrow> Some (- EINVAL, addr_buf, addrlen) })"

definition net_getpeername :: "net_env \<Rightarrow> bool \<Rightarrow> int \<Rightarrow> u8 list \<Rightarrow> nat \<Rightarrow> net \<Rightarrow> (int \<times> u8 list \<times> nat) option" where
  "net_getpeername D user_ok sockfd addr_buf addrlen s = with_sock D sockfd (\<lambda>x. (x, addr_buf, addrlen)) (\<lambda>node.
     if \<not> user_ok then Some (- EFAULT, addr_buf, addrlen)
     else do {
       k \<leftarrow> n_socks s node;
       case s_kind k of TCP \<Rightarrow> sock_tcp_getpeername node addr_buf addrlen s
         | _ \<Rightarrow> Some (- EINVAL, addr_buf, addrlen) })"

text \<open>Closing: the method of the kind, then the queue is emptied.\<close>

definition sock_generic_close :: "net_env \<Rightarrow> addr \<Rightarrow> net \<Rightarrow> net option" where
  "sock_generic_close D a s = do {
     k \<leftarrow> n_socks s a;
     s \<leftarrow> (case s_kind k of RAW \<Rightarrow> sock_raw_close a s | ICMP \<Rightarrow> sock_icmp_close a s
             | UDP \<Rightarrow> sock_udp_close a s | TCP \<Rightarrow> sock_tcp_close D a s);
     Some (upd_sock a (\<lambda>k. k\<lparr>s_rx_queue := []\<rparr>) s) }"

definition sock_generic_ioctl :: "bool \<Rightarrow> addr \<Rightarrow> u64 \<Rightarrow> u8 list \<Rightarrow> net \<Rightarrow> (int \<times> net) option" where
  "sock_generic_ioctl user_ok a request argp s = (
     if request = 0x4e424c4b then
       (if \<not> user_ok then Some (- EFAULT, s)
        else do { v \<leftarrow> rd32 argp 0; Some (0, upd_sock a (\<lambda>k. k\<lparr>s_nonblocking := (v \<noteq> 0)\<rparr>) s) })
     else Some (- EINVAL, s))"

section \<open>Stores into a packet\<close>





section \<open>Ping\<close>












text \<open>
  The length of the reply to a ping is taken from the header of the request, rounded up to an
  even number, and not compared with the length of the frame: if it is larger than the packet that arrived,
  the copy reads past the packet.
\<close>

theorem ping_reads_past_packet:
  assumes "rd8 packet 20 = Some 8" "rd8 packet 21 = Some 0" "rd16 packet 2 = Some len" "unat (ntohs len) < 65535"
    "length packet < unat (ntohs len) + unat (ntohs len) mod 2"
  shows "icmp_handle D packet nic s = None"
proof -
  have l: "22 \<le> length packet" using assms(2) by (simp add: rd8_def split: if_splits)
  have "icmp_echo_reply packet own = None" for own
  proof (cases "odd (unat (ntohs len))")
    case False
    then have "length packet < unat (ntohs len)" using assms(5) by (simp add: even_iff_mod_2_eq_zero)
    then show ?thesis using assms(3) False by (simp add: icmp_echo_reply_def copy_from_def)
  next
    case True
    let ?l = "ntohs len + 1"
    have u: "unat ?l = unat (ntohs len) + 1" using assms(4) by (simp add: unat_word_ariths)
    obtain p where p: "wr_at packet 2 (w16 (htons ?l)) = Some p" "length p = length packet" "rd16 p 2 = Some (htons ?l)"
      using l rd16_mid [of "take 2 packet" 2 "htons ?l" "drop 4 packet"] by (simp add: wr_at_def)
    have "length p < unat ?l" using assms(5) True p(2) u by (simp add: odd_iff_mod_2_eq_one)
    then show ?thesis using assms(3) True p(1,3) by (simp add: icmp_echo_reply_def copy_from_def)
  qed
  then show ?thesis using assms(1,2) by (cases "nic_device nic s") (simp_all add: icmp_handle_def)
qed

theorem ping_reads_past_packet_witness:
  "icmp_handle log_env (ipv4_bytes (ex_ip 1 29) @ [8, 0, 0, 0, 0, 0, 1, 2, 3]) 16 ex_net = None"
  by (rule ping_reads_past_packet [where len = "htons 29"])
    (simp_all add: ipv4_fields, simp_all add: rd8_def nth_append, simp_all add: ex_ip_def)

lemma raw_deliver_frame:
  assumes "\<forall>a \<in> set rs. n_socks s a \<noteq> None" "n \<le> length frame"
  shows "\<exists>s'. raw_deliver rs nic frame n s = Some s' \<and> same_link s s' \<and> n_sent s' = n_sent s \<and> n_udp s' = n_udp s \<and>
    n_tcp s' = n_tcp s \<and> n_icmp s' = n_icmp s \<and> (\<forall>b. b \<notin> set rs \<longrightarrow> n_socks s' b = n_socks s b)"
  using assms(1)
proof (induction rs arbitrary: s)
  case Nil
  then show ?case by (simp add: same_link_def)
next
  case (Cons a rs)
  then obtain k where k: "n_socks s a = Some k" by auto
  let ?s = "if s_device k = NULL \<or> s_device k = nic then sock_added a k (take n frame) s else s"
  have "\<forall>b \<in> set rs. n_socks ?s b \<noteq> None" using Cons.prems by (auto simp: sock_added_def)
  from Cons.IH [OF this] obtain s' where s': "raw_deliver rs nic frame n ?s = Some s'" "same_link ?s s'" "n_sent s' = n_sent ?s"
    "n_udp s' = n_udp ?s" "n_tcp s' = n_tcp ?s" "n_icmp s' = n_icmp ?s" "\<forall>b. b \<notin> set rs \<longrightarrow> n_socks s' b = n_socks ?s b" by blast
  have "raw_deliver (a # rs) nic frame n s = Some s'"
    using k s'(1) net_sock_add_effect [OF k assms(2)] by (auto split: if_splits)
  then show ?case using s'(2-7)
    by (intro exI [of _ s']) (simp add: same_link_def sock_added_def split: if_splits)
qed

text \<open>
  A frame that is neither for the hardware address of the interface nor broadcast reaches
  raw sockets only: nothing is sent, no table changes, and every other socket is left alone.
\<close>

theorem eth_foreign_frame:
  assumes "\<forall>a \<in> set (n_raw s). n_socks s a \<noteq> None" "n_device s nic = Some dev" "n_nics s dev = Some e" "length (mac e) = 6"
    "14 \<le> length frame" "take 6 frame \<noteq> mac e" "take 6 frame \<noteq> ETHERNET_BROADCAST_MAC"
  shows "\<exists>s'. net_eth_handle D frame nic (length frame) s = Some s' \<and> n_sent s' = n_sent s \<and> n_arp s' = n_arp s \<and> n_udp s' = n_udp s \<and>
    n_tcp s' = n_tcp s \<and> n_icmp s' = n_icmp s \<and> (\<forall>b. b \<notin> set (n_raw s) \<longrightarrow> n_socks s' b = n_socks s b)"
proof -
  from raw_deliver_frame [OF assms(1), of "length frame" frame nic] obtain s' where
    s': "raw_deliver (n_raw s) nic frame (length frame) s = Some s'" "same_link s s'" "n_sent s' = n_sent s" "n_udp s' = n_udp s"
    "n_tcp s' = n_tcp s" "n_icmp s' = n_icmp s" "\<forall>b. b \<notin> set (n_raw s) \<longrightarrow> n_socks s' b = n_socks s b" by auto
  have "net_eth_handle D frame nic (length frame) s = Some s'"
    using s'(1,2) assms(2-7) by (simp add: net_eth_handle_def same_link_def copy_from_def)
  then show ?thesis using s' by (simp add: same_link_def)
qed

theorem eth_foreign_frame_witness:
  "\<exists>s'. net_eth_handle log_env (replicate 20 1) 16 20 (ex_net\<lparr>n_raw := [48], n_socks := [48 \<mapsto> ex_sock RAW]\<rparr>) = Some s' \<and> n_sent s' = []"
proof -
  let ?s = "ex_net\<lparr>n_raw := [48], n_socks := [48 \<mapsto> ex_sock RAW]\<rparr>"
  have "\<exists>s'. net_eth_handle log_env (replicate 20 1) 16 (length (replicate 20 (1 :: u8))) ?s = Some s' \<and> n_sent s' = n_sent ?s \<and> n_arp s' = n_arp ?s \<and>
    n_udp s' = n_udp ?s \<and> n_tcp s' = n_tcp ?s \<and> n_icmp s' = n_icmp ?s \<and> (\<forall>b. b \<notin> set (n_raw ?s) \<longrightarrow> n_socks s' b = n_socks ?s b)"
    by (rule eth_foreign_frame [where dev = 17 and e = ex_eth])
      (simp_all add: ex_net_def ex_eth_def ETHERNET_BROADCAST_MAC_def, code_simp+)
  then show ?thesis by (auto simp: ex_net_def)
qed

end
