(* ===== verification/Ktmpfs.thy ===== *)
theory Ktmpfs
  imports Kvfs Kwire
begin

text \<open>
  The memory file system of \<^verbatim>\<open>kernel/vfs/tmpfs.c\<close>: files as arrays of page frames, directories as lists of
  entries, and the methods it installs in the nodes of the virtual file system.

  Files and directories are objects in one store indexed by their address, because the code keeps both in
  the same lists and tells them apart by the \<^verbatim>\<open>type\<close> at the same offset.  Page frames have their own store;
  an allocated frame holds whatever it held before.  The offsets and sizes of reads and writes come from user
  programs and are 64-bit words, the offset signed; the lengths and block counts of files are natural numbers.
\<close>

section \<open>State\<close>

definition BLOCKSIZE :: nat where "BLOCKSIZE = 4096"
abbreviation (input) TMPFS_TYPE_FILE :: nat where "TMPFS_TYPE_FILE \<equiv> 1"
abbreviation (input) TMPFS_TYPE_DIR :: nat where "TMPFS_TYPE_DIR \<equiv> 2"
abbreviation (input) TMPFS_TYPE_LINK :: nat where "TMPFS_TYPE_LINK \<equiv> 3"
abbreviation (input) ENOTEMPTY :: int where "ENOTEMPTY \<equiv> 90"

record tmpfs_file =
  tf_name :: "u8 list"
  tf_type :: nat
  tf_mask :: u32
  tf_uid :: u32
  tf_gid :: u32
  tf_atime :: u32
  tf_mtime :: u32
  tf_ctime :: u32
  tf_mount :: addr
  tf_length :: nat
  tf_block_count :: nat
  tf_pointers :: nat
  tf_blocks :: "u64 list"
  tf_target :: "u8 list"

record tmpfs_dir =
  td_name :: "u8 list"
  td_type :: nat
  td_mask :: u32
  td_uid :: u32
  td_gid :: u32
  td_atime :: u32
  td_mtime :: u32
  td_ctime :: u32
  td_mount :: addr
  td_files :: "addr list"
  td_files_freed :: bool
  td_parent :: addr

datatype tmpfs_ent = TFile tmpfs_file | TDir tmpfs_dir

text \<open>
  \<open>tm_frames\<close> is the content of the page frames, \<open>tm_free\<close> what \<^verbatim>\<open>mmu_allocate_a_frame\<close> returns next, \<open>tm_released\<close> the
  frames given back, \<open>tm_total\<close> the counter \<^verbatim>\<open>tmpfs_total_blocks\<close>, \<open>tm_malloc\<close> what \<^verbatim>\<open>malloc\<close> returns next for files and
  directories, and \<open>tm_now\<close> the clock.  An object that was freed is no longer in \<open>tm_ents\<close>.
\<close>

record tmpfs =
  tm_ents :: "addr \<Rightarrow> tmpfs_ent option"
  tm_frames :: "u64 \<Rightarrow> u8 list"
  tm_free :: "u64 list"
  tm_released :: "u64 list"
  tm_total :: int
  tm_malloc :: "addr list"
  tm_now :: u32

text \<open>The nodes handed to the virtual file system: the fields it uses, and those a file system fills in besides.\<close>

record tmpfs_node = fs_node +
  tn_name :: "u8 list"
  tn_inode :: addr
  tn_length :: nat
  tn_atime :: u32
  tn_mtime :: u32
  tn_ctime :: u32
  tn_nlink :: nat

definition file_at :: "addr \<Rightarrow> tmpfs \<Rightarrow> tmpfs_file option" where
  "file_at p s = (case tm_ents s p of Some (TFile f) \<Rightarrow> Some f | _ \<Rightarrow> None)"

definition dir_at :: "addr \<Rightarrow> tmpfs \<Rightarrow> tmpfs_dir option" where
  "dir_at p s = (case tm_ents s p of Some (TDir d) \<Rightarrow> Some d | _ \<Rightarrow> None)"

text \<open>The directory for an operation that uses its list of entries, which has to be still allocated.\<close>

definition list_at :: "addr \<Rightarrow> tmpfs \<Rightarrow> tmpfs_dir option" where
  "list_at p s = (case dir_at p s of Some d \<Rightarrow> if td_files_freed d then None else Some d | None \<Rightarrow> None)"

definition set_ent :: "addr \<Rightarrow> tmpfs_ent \<Rightarrow> tmpfs \<Rightarrow> tmpfs" where
  "set_ent p e s = s\<lparr>tm_ents := (tm_ents s)(p \<mapsto> e)\<rparr>"

definition tm_alloc :: "tmpfs \<Rightarrow> (addr \<times> tmpfs) option" where
  "tm_alloc s = (case tm_malloc s of [] \<Rightarrow> None | p # r \<Rightarrow> if p = NULL then None else Some (p, s\<lparr>tm_malloc := r\<rparr>))"

fun ent_name :: "tmpfs_ent \<Rightarrow> u8 list" where
  "ent_name (TFile f) = tf_name f"
| "ent_name (TDir d) = td_name d"

fun ent_type :: "tmpfs_ent \<Rightarrow> nat" where
  "ent_type (TFile f) = tf_type f"
| "ent_type (TDir d) = td_type d"

section \<open>Files and their blocks\<close>

definition tmpfs_file_new :: "u8 list \<Rightarrow> tmpfs \<Rightarrow> tmpfs_file" where
  "tmpfs_file_new name s = \<lparr>tf_name = name, tf_type = TMPFS_TYPE_FILE, tf_mask = 0, tf_uid = 0, tf_gid = 0,
     tf_atime = tm_now s, tf_mtime = tm_now s, tf_ctime = tm_now s, tf_mount = NULL, tf_length = 0,
     tf_block_count = 0, tf_pointers = 2, tf_blocks = [0, 0], tf_target = []\<rparr>"

definition tmpfs_dir_new :: "u8 list \<Rightarrow> (addr \<times> tmpfs_dir) option \<Rightarrow> tmpfs \<Rightarrow> tmpfs_dir" where
  "tmpfs_dir_new name parent s = \<lparr>td_name = name, td_type = TMPFS_TYPE_DIR, td_mask = 0, td_uid = 0, td_gid = 0,
     td_atime = tm_now s, td_mtime = tm_now s, td_ctime = tm_now s,
     td_mount = (case parent of None \<Rightarrow> NULL | Some (_, d) \<Rightarrow> td_mount d),
     td_files = [], td_files_freed = False, td_parent = (case parent of None \<Rightarrow> NULL | Some (p, _) \<Rightarrow> p)\<rparr>"

fun release_frames :: "u64 list \<Rightarrow> tmpfs \<Rightarrow> tmpfs" where
  "release_frames [] s = s"
| "release_frames (b # bs) s = release_frames bs (s\<lparr>tm_released := tm_released s @ [b], tm_total := tm_total s - 1\<rparr>)"

text \<open>The loop indexes the block array up to its count.\<close>

definition tmpfs_file_free :: "tmpfs_file \<Rightarrow> tmpfs \<Rightarrow> tmpfs option" where
  "tmpfs_file_free t s = (if tf_block_count t \<le> length (tf_blocks t)
     then Some (release_frames (take (tf_block_count t) (tf_blocks t)) s) else None)"

text \<open>The new half of the reallocated array is written before it is read.\<close>

definition tmpfs_file_blocks_embiggen :: "tmpfs_file \<Rightarrow> tmpfs_file" where
  "tmpfs_file_blocks_embiggen t = t\<lparr>tf_pointers := tf_pointers t * 2, tf_blocks := tf_blocks t @ replicate (tf_pointers t) 0\<rparr>"

function embiggen_loop :: "nat \<Rightarrow> tmpfs_file \<Rightarrow> tmpfs_file option" where
  "embiggen_loop blockid t = (if blockid < tf_pointers t then Some t
     else if tf_pointers t = 0 then None else embiggen_loop blockid (tmpfs_file_blocks_embiggen t))"
  by pat_completeness auto

termination
  by (relation "measure (\<lambda>(b, t). b + 1 - tf_pointers t)") (auto simp: tmpfs_file_blocks_embiggen_def)

declare embiggen_loop.simps [simp del]

function block_loop :: "nat \<Rightarrow> nat \<Rightarrow> tmpfs_file \<Rightarrow> tmpfs \<Rightarrow> (tmpfs_file \<times> tmpfs) option" where
  "block_loop blockid create t s = (if blockid < tf_block_count t then Some (t, s)
     else (case tm_free s of [] \<Rightarrow> None | index # r \<Rightarrow>
       (let s = s\<lparr>tm_free := r, tm_total := tm_total s + 1\<rparr>;
            s = (if create = 2 then s\<lparr>tm_frames := (tm_frames s)(index := replicate BLOCKSIZE 0)\<rparr> else s)
        in if tf_block_count t < length (tf_blocks t)
           then block_loop blockid create (t\<lparr>tf_blocks := (tf_blocks t)[tf_block_count t := index], tf_block_count := tf_block_count t + 1\<rparr>) s
           else None)))"
  by pat_completeness auto

termination
  by (relation "measure (\<lambda>(b, _, t, _). b + 1 - tf_block_count t)") auto

declare block_loop.simps [simp del]

text \<open>The result is the frame of the block, or \<open>None\<close> for the null pointer.\<close>

definition tmpfs_file_getset_block :: "addr \<Rightarrow> nat \<Rightarrow> nat \<Rightarrow> tmpfs \<Rightarrow> (u64 option \<times> tmpfs) option" where
  "tmpfs_file_getset_block p blockid create s = do {
     t \<leftarrow> file_at p s;
     if create \<noteq> 0 then do {
       t \<leftarrow> embiggen_loop blockid t;
       (t, s) \<leftarrow> block_loop blockid create t s;
       Some (Some (tf_blocks t ! blockid), set_ent p (TFile t) s)
     } else if blockid \<ge> tf_block_count t then Some (None, s)
     else Some (Some (tf_blocks t ! blockid), s) }"

text \<open>\<^verbatim>\<open>memcpy\<close> from a block, \<^verbatim>\<open>memcpy\<close> and \<^verbatim>\<open>memset\<close> into one; the frame is a page, and leaving it is a fault.\<close>

definition block_read :: "addr \<Rightarrow> nat \<Rightarrow> nat \<Rightarrow> nat \<Rightarrow> tmpfs \<Rightarrow> u8 list option" where
  "block_read p blockid from n s = do {
     (b, s) \<leftarrow> tmpfs_file_getset_block p blockid 0 s;
     fr \<leftarrow> b;
     copy_from (tm_frames s fr) from n }"

definition block_write :: "addr \<Rightarrow> nat \<Rightarrow> nat \<Rightarrow> nat \<Rightarrow> u8 list \<Rightarrow> tmpfs \<Rightarrow> tmpfs option" where
  "block_write p blockid create at bytes s = do {
     (b, s) \<leftarrow> tmpfs_file_getset_block p blockid create s;
     fr \<leftarrow> b;
     page \<leftarrow> wr_at (tm_frames s fr) at bytes;
     Some (s\<lparr>tm_frames := (tm_frames s)(fr := page)\<rparr>) }"

section \<open>Reading and writing files\<close>

text \<open>Division and remainder of the signed offset by the block size, which truncate towards zero.\<close>

definition off_div :: "u64 \<Rightarrow> u64" where
  "off_div offset = (if sint offset < 0 then - ((- offset) div 4096) else offset div 4096)"

definition off_rem :: "u64 \<Rightarrow> u64" where
  "off_rem offset = (if sint offset < 0 then - ((- offset) mod 4096) else offset mod 4096)"

text \<open>
  \<open>r\<close> is the number of blocks read or written so far and \<open>k\<close> how many are left of the loop; the block is the first
  one plus \<open>r\<close>.
\<close>

fun read_blocks :: "addr \<Rightarrow> u64 \<Rightarrow> nat \<Rightarrow> nat \<Rightarrow> u8 list \<Rightarrow> tmpfs \<Rightarrow> u8 list option" where
  "read_blocks p offset r 0 buffer s = Some buffer"
| "read_blocks p offset r (Suc k) buffer s = do {
     buffer \<leftarrow> (if r = 0 then do {
                  bs \<leftarrow> block_read p (unat (off_div offset)) (unat (offset mod 4096)) (unat (4096 - off_rem offset)) s;
                  wr_at buffer 0 bs }
                else do {
                  bs \<leftarrow> block_read p (unat (off_div offset) + r) 0 BLOCKSIZE s;
                  wr_at buffer (unat (4096 * of_nat r - off_rem offset)) bs });
     read_blocks p offset (Suc r) k buffer s }"

definition read_tmpfs :: "addr \<Rightarrow> u64 \<Rightarrow> u64 \<Rightarrow> u8 list \<Rightarrow> tmpfs \<Rightarrow> (int \<times> u8 list \<times> tmpfs) option" where
  "read_tmpfs p offset sz buffer s = do {
     t \<leftarrow> file_at p s;
     let s = set_ent p (TFile (t\<lparr>tf_atime := tm_now s\<rparr>)) s;
     if tf_length t \<le> unat offset then Some (0, buffer, s)
     else (
       let end = (if tf_length t < unat (offset + sz) then of_nat (tf_length t) else offset + sz);
           start_block = off_div offset;
           end_block = end div 4096;
           end_size = end - end_block * 4096;
           size_to_read = end - offset
       in if start_block = end_block \<and> offset = end then Some (0, buffer, s)
          else if start_block = end_block then do {
            bs \<leftarrow> block_read p (unat start_block) (unat (offset mod 4096)) (unat size_to_read) s;
            buffer \<leftarrow> wr_at buffer 0 bs;
            Some (sint size_to_read, buffer, s)
          } else do {
            let n = unat end_block - unat start_block;
            buffer \<leftarrow> read_blocks p offset 0 n buffer s;
            buffer \<leftarrow> (if end_size \<noteq> 0 then do {
                         bs \<leftarrow> block_read p (unat end_block) 0 (unat end_size) s;
                         wr_at buffer (unat (4096 * of_nat n - off_rem offset)) bs }
                       else Some buffer);
            Some (sint size_to_read, buffer, s) }) }"

fun write_blocks :: "addr \<Rightarrow> u64 \<Rightarrow> nat \<Rightarrow> nat \<Rightarrow> u8 list \<Rightarrow> tmpfs \<Rightarrow> tmpfs option" where
  "write_blocks p offset r 0 buffer s = Some s"
| "write_blocks p offset r (Suc k) buffer s = do {
     s \<leftarrow> (if r = 0 then do {
             bs \<leftarrow> copy_from buffer 0 (unat (4096 - off_rem offset));
             block_write p (unat (off_div offset)) 1 (unat (offset mod 4096)) bs s }
           else do {
             bs \<leftarrow> copy_from buffer (unat (4096 * of_nat r - off_rem offset)) BLOCKSIZE;
             block_write p (unat (off_div offset) + r) 1 0 bs s });
     write_blocks p offset (Suc r) k buffer s }"

definition write_tmpfs :: "addr \<Rightarrow> u64 \<Rightarrow> u64 \<Rightarrow> u8 list \<Rightarrow> tmpfs \<Rightarrow> (int \<times> tmpfs) option" where
  "write_tmpfs p offset sz buffer s = do {
     t \<leftarrow> file_at p s;
     let t = t\<lparr>tf_atime := tm_now s, tf_mtime := tm_now s\<rparr>;
     let t = (if tf_length t < unat (offset + sz) then t\<lparr>tf_length := unat (offset + sz)\<rparr> else t);
     let s = set_ent p (TFile t) s;
     let end = offset + sz;
     let start_block = off_div offset;
     let end_block = end div 4096;
     let end_size = end - end_block * 4096;
     let size_to_read = end - offset;
     if start_block = end_block then do {
       bs \<leftarrow> copy_from buffer 0 (unat size_to_read);
       s \<leftarrow> block_write p (unat start_block) 1 (unat (offset mod 4096)) bs s;
       Some (sint size_to_read, s)
     } else do {
       let n = unat end_block - unat start_block;
       s \<leftarrow> write_blocks p offset 0 n buffer s;
       s \<leftarrow> (if end_size \<noteq> 0 then do {
               bs \<leftarrow> copy_from buffer (unat (4096 * of_nat n - off_rem offset)) (unat end_size);
               block_write p (unat end_block) 1 0 bs s }
             else Some s);
       Some (sint size_to_read, s) } }"

section \<open>Attributes and length\<close>

definition chmod_tmpfs :: "addr \<Rightarrow> u32 \<Rightarrow> tmpfs \<Rightarrow> (int \<times> tmpfs) option" where
  "chmod_tmpfs p mode s = do {
     e \<leftarrow> tm_ents s p;
     Some (0, set_ent p (case e of TFile t \<Rightarrow> TFile (t\<lparr>tf_mask := mode\<rparr>) | TDir d \<Rightarrow> TDir (d\<lparr>td_mask := mode\<rparr>)) s) }"

definition chown_tmpfs :: "addr \<Rightarrow> u32 \<Rightarrow> u32 \<Rightarrow> tmpfs \<Rightarrow> (int \<times> tmpfs) option" where
  "chown_tmpfs p uid gid s = do {
     e \<leftarrow> tm_ents s p;
     let new = (\<lambda>v old. if v \<noteq> - 1 then v else old);
     Some (0, set_ent p (case e of
         TFile t \<Rightarrow> TFile (t\<lparr>tf_uid := new uid (tf_uid t), tf_gid := new gid (tf_gid t)\<rparr>)
       | TDir d \<Rightarrow> TDir (d\<lparr>td_uid := new uid (td_uid d), td_gid := new gid (td_gid d)\<rparr>)) s) }"

text \<open>The blocks with the indices from \<open>i\<close> up to \<open>j\<close> are released and cleared in the array.\<close>

definition drop_blocks :: "nat \<Rightarrow> nat \<Rightarrow> tmpfs_file \<Rightarrow> tmpfs \<Rightarrow> (tmpfs_file \<times> tmpfs) option" where
  "drop_blocks i j t s = (if j \<le> length (tf_blocks t)
     then Some (t\<lparr>tf_blocks := take i (tf_blocks t) @ replicate (j - i) 0 @ drop j (tf_blocks t)\<rparr>,
                release_frames (take (j - i) (drop i (tf_blocks t))) s)
     else None)"

text \<open>\<open>node_atime\<close> is the access time of the node the call came through.\<close>

definition truncate_tmpfs :: "addr \<Rightarrow> u32 \<Rightarrow> nat \<Rightarrow> tmpfs \<Rightarrow> (int \<times> tmpfs) option" where
  "truncate_tmpfs p node_atime sz s = do {
     t \<leftarrow> file_at p s;
     let old_end_block = tf_length t div BLOCKSIZE;
     let old_end_size = tf_length t - old_end_block * BLOCKSIZE;
     let old_blocks = old_end_block + (if old_end_size \<noteq> 0 then 1 else 0);
     let new_end_block = sz div BLOCKSIZE;
     let new_end_size = sz - new_end_block * BLOCKSIZE;
     let new_blocks = new_end_block + (if new_end_size \<noteq> 0 then 1 else 0);
     s \<leftarrow> (if sz = tf_length t then Some s
           else if tf_length t < sz then do {
             s \<leftarrow> (if old_end_block = new_end_block
                   then block_write p old_end_block (if old_end_size \<noteq> 0 then 0 else 2) old_end_size
                          (replicate (new_end_size - old_end_size) 0) s
                   else do {
                     (_, s) \<leftarrow> tmpfs_file_getset_block p new_end_block 2 s;
                     block_write p old_end_block 0 old_end_size (replicate (BLOCKSIZE - old_end_size) 0) s });
             t \<leftarrow> file_at p s;
             Some (set_ent p (TFile (t\<lparr>tf_length := sz\<rparr>)) s)
           } else if sz = 0 then do {
             (t, s) \<leftarrow> drop_blocks 0 (tf_block_count t) t s;
             Some (set_ent p (TFile (t\<lparr>tf_block_count := 0, tf_length := 0\<rparr>)) s)
           } else do {
             (t, s) \<leftarrow> (if new_blocks < old_blocks then do {
                          (t, s) \<leftarrow> drop_blocks new_blocks old_blocks t s;
                          Some (t\<lparr>tf_block_count := new_blocks\<rparr>, s) }
                        else Some (t, s));
             Some (set_ent p (TFile (t\<lparr>tf_length := sz\<rparr>)) s) });
     t \<leftarrow> file_at p s;
     Some (0, set_ent p (TFile (t\<lparr>tf_mtime := node_atime\<rparr>)) s) }"

definition open_tmpfs :: "addr \<Rightarrow> tmpfs \<Rightarrow> tmpfs option" where
  "open_tmpfs p s = do { t \<leftarrow> file_at p s; Some (set_ent p (TFile (t\<lparr>tf_atime := tm_now s\<rparr>)) s) }"

definition get_size_tmpfs :: "addr \<Rightarrow> tmpfs \<Rightarrow> nat option" where
  "get_size_tmpfs p s = map_option tf_length (file_at p s)"

section \<open>Directories\<close>

abbreviation (input) FS_FILE :: u64 where "FS_FILE \<equiv> 0x01"

text \<open>\<^verbatim>\<open>strcpy\<close> into a name field of 256 bytes.\<close>

definition name_field :: "u8 list \<Rightarrow> u8 list option" where
  "name_field name = (if length name < 256 then Some name else None)"

text \<open>Here and below the address is the object a node refers to; \<^verbatim>\<open>device\<close> is a copy of \<^verbatim>\<open>mount\<close>, and \<^verbatim>\<open>get_size\<close> is not one of the methods the virtual file system dispatches.\<close>

definition tmpfs_from_file :: "addr \<Rightarrow> tmpfs_file \<Rightarrow> tmpfs_node option" where
  "tmpfs_from_file p t = do {
     name \<leftarrow> name_field (tf_name t);
     Some \<lparr>n_mount = tf_mount t, n_mask = tf_mask t, n_uid = tf_uid t, n_gid = tf_gid t, n_flags = FS_FILE, n_refcount = 0,
       n_ops = {Mread, Mwrite, Mopen, Mchmod, Mchown, Mtruncate}, n_dir = None,
       tn_name = name, tn_inode = p, tn_length = tf_length t,
       tn_atime = tf_atime t, tn_mtime = tf_mtime t, tn_ctime = tf_ctime t, tn_nlink = 1\<rparr> }"

definition tmpfs_from_link :: "addr \<Rightarrow> tmpfs_file \<Rightarrow> tmpfs_node option" where
  "tmpfs_from_link p t = do {
     n \<leftarrow> tmpfs_from_file p t;
     Some (n\<lparr>n_flags := n_flags n OR FS_SYMLINK, n_ops := insert Mreadlink (n_ops n) - {Mread, Mwrite, Mcreate, Mmkdir, Mreaddir, Mfinddir}\<rparr>) }"

definition TMP_NAME :: "u8 list" where "TMP_NAME = [0x74, 0x6D, 0x70]"

definition tmpfs_from_dir :: "addr \<Rightarrow> tmpfs_dir \<Rightarrow> tmpfs_node" where
  "tmpfs_from_dir p d = \<lparr>n_mount = td_mount d, n_mask = td_mask d, n_uid = td_uid d, n_gid = td_gid d, n_flags = FS_DIRECTORY, n_refcount = 0,
     n_ops = {Mreaddir, Mfinddir, Mcreate, Munlink, Mmkdir, Msymlink, Mchown, Mchmod, Mrename}, n_dir = None,
     tn_name = TMP_NAME, tn_inode = p, tn_length = 0,
     tn_atime = td_atime d, tn_mtime = td_mtime d, tn_ctime = td_ctime d, tn_nlink = 1\<rparr>"

text \<open>The first entry of a list whose name is accepted, with its index.\<close>

fun find_ent :: "(u8 list \<Rightarrow> bool) \<Rightarrow> addr list \<Rightarrow> tmpfs \<Rightarrow> (nat \<times> addr) option option" where
  "find_ent m [] s = Some None"
| "find_ent m (p # ps) s = do {
     e \<leftarrow> tm_ents s p;
     if m (ent_name e) then Some (Some (0, p))
     else do { r \<leftarrow> find_ent m ps s; Some (map_option (\<lambda>(i, q). (Suc i, q)) r) } }"

abbreviation same_name :: "u8 list \<Rightarrow> u8 list \<Rightarrow> bool" where
  "same_name name \<equiv> (\<lambda>n. scmp name n = 0)"

text \<open>The directory gets a new last entry.\<close>

definition add_ent :: "addr \<Rightarrow> addr \<Rightarrow> tmpfs \<Rightarrow> tmpfs option" where
  "add_ent dir p s = do { d \<leftarrow> list_at dir s; Some (set_ent dir (TDir (d\<lparr>td_files := td_files d @ [p]\<rparr>)) s) }"

definition symlink_tmpfs :: "process_ids \<Rightarrow> addr \<Rightarrow> addr \<Rightarrow> u8 list \<Rightarrow> u8 list \<Rightarrow> tmpfs \<Rightarrow> (int \<times> tmpfs) option" where
  "symlink_tmpfs pr dir mount target name s = do {
     d \<leftarrow> list_at dir s;
     r \<leftarrow> find_ent (same_name name) (td_files d) s;
     if r \<noteq> None then Some (- EEXIST, s)
     else do {
       (p, s) \<leftarrow> tm_alloc s;
       let t = (tmpfs_file_new name s)\<lparr>tf_mount := mount, tf_type := TMPFS_TYPE_LINK, tf_target := target, tf_length := length target,
             tf_mask := 0x1FF, tf_uid := p_user pr, tf_gid := p_user pr\<rparr>;
       s \<leftarrow> add_ent dir p (set_ent p (TFile t) s);
       Some (0, s) } }"

definition readlink_tmpfs :: "addr \<Rightarrow> nat \<Rightarrow> tmpfs \<Rightarrow> (int \<times> u8 list) option" where
  "readlink_tmpfs p sz s = do {
     t \<leftarrow> file_at p s;
     if tf_type t \<noteq> TMPFS_TYPE_LINK then Some (- EINVAL, [])
     else let len = (if sz < length (tf_target t) then sz else length (tf_target t))
          in Some (int len, take len (tf_target t)) }"

text \<open>The result, and the name and inode number of the entry when there is one.\<close>

definition readdir_tmpfs :: "addr \<Rightarrow> nat \<Rightarrow> tmpfs \<Rightarrow> (int \<times> (u8 list \<times> addr) option) option" where
  "readdir_tmpfs dir index s =
     (if index = 0 then Some (1, Some (PATH_DOT, 0))
      else if index = 1 then Some (1, Some (PATH_UP, 0))
      else do {
        d \<leftarrow> list_at dir s;
        if length (td_files d) \<le> index - 2 then Some (0, None)
        else do {
          let p = td_files d ! (index - 2);
          e \<leftarrow> tm_ents s p;
          name \<leftarrow> name_field (ent_name e);
          Some (1, Some (name, p)) } })"

definition finddir_tmpfs :: "addr \<Rightarrow> u8 list \<Rightarrow> tmpfs \<Rightarrow> tmpfs_node option option" where
  "finddir_tmpfs dir name s = do {
     d \<leftarrow> list_at dir s;
     r \<leftarrow> find_ent (same_name name) (td_files d) s;
     case r of None \<Rightarrow> Some None
     | Some (i, p) \<Rightarrow> do {
         e \<leftarrow> tm_ents s p;
         case e of TDir c \<Rightarrow> Some (Some (tmpfs_from_dir p c))
         | TFile t \<Rightarrow>
             if tf_type t = TMPFS_TYPE_FILE then map_option Some (tmpfs_from_file p t)
             else if tf_type t = TMPFS_TYPE_LINK then map_option Some (tmpfs_from_link p t)
             else Some None } }"

definition try_free_dir :: "tmpfs_dir \<Rightarrow> bool" where
  "try_free_dir d = (td_files d \<noteq> [])"

definition free_ent :: "addr \<Rightarrow> tmpfs \<Rightarrow> tmpfs" where
  "free_ent p s = s\<lparr>tm_ents := (tm_ents s)(p := None)\<rparr>"

definition unlink_tmpfs :: "addr \<Rightarrow> u8 list \<Rightarrow> tmpfs \<Rightarrow> (int \<times> tmpfs) option" where
  "unlink_tmpfs dir name s = do {
     d \<leftarrow> list_at dir s;
     r \<leftarrow> find_ent (same_name name) (td_files d) s;
     case r of None \<Rightarrow> Some (- ENOENT, s)
     | Some (i, p) \<Rightarrow> do {
         e \<leftarrow> tm_ents s p;
         let busy = (case e of TDir c \<Rightarrow> try_free_dir c | TFile t \<Rightarrow> False);
         if busy then Some (- ENOTEMPTY, s)
         else do {
           s \<leftarrow> (case e of TDir c \<Rightarrow> Some s | TFile t \<Rightarrow> tmpfs_file_free t s);
           d \<leftarrow> list_at dir (free_ent p s);
           Some (0, set_ent dir (TDir (d\<lparr>td_files := take i (td_files d) @ drop (Suc i) (td_files d)\<rparr>)) (free_ent p s)) } } }"

text \<open>
  A creation is one step here.  The code gives up the lock of the directory between the search for the name and the insertion, so
  that two processes that create the same name at the same time can both succeed; the properties are those of
  creations that do not overlap.
\<close>

definition create_tmpfs :: "process_ids \<Rightarrow> addr \<Rightarrow> addr \<Rightarrow> u8 list \<Rightarrow> u32 \<Rightarrow> tmpfs \<Rightarrow> (int \<times> tmpfs_node option \<times> tmpfs) option" where
  "create_tmpfs pr dir mount name permission s = do {
     d \<leftarrow> list_at dir s;
     r \<leftarrow> find_ent (same_name name) (td_files d) s;
     if r \<noteq> None then Some (- EEXIST, None, s)
     else do {
       (p, s) \<leftarrow> tm_alloc s;
       let t = (tmpfs_file_new name s)\<lparr>tf_mount := mount, tf_mask := permission, tf_uid := p_user pr, tf_gid := p_user_group pr\<rparr>;
       s \<leftarrow> add_ent dir p (set_ent p (TFile t) s);
       out \<leftarrow> tmpfs_from_file p t;
       Some (0, Some out, s) } }"

text \<open>\<open>parent\<close> is the node of the directory, whose permissions are those it had when the node was made.\<close>

definition mkdir_tmpfs :: "process_ids \<Rightarrow> tmpfs_node \<Rightarrow> u8 list \<Rightarrow> u32 \<Rightarrow> tmpfs \<Rightarrow> (int \<times> tmpfs_node option \<times> tmpfs) option" where
  "mkdir_tmpfs pr parent name permission s =
     (if name = [] then Some (- EINVAL, None, s)
      else do {
        d \<leftarrow> list_at (tn_inode parent) s;
        r \<leftarrow> find_ent (same_name name) (td_files d) s;
        if r \<noteq> None then Some (- EEXIST, None, s)
        else if \<not> has_permission pr (Some (fs_node.truncate parent)) (W_OK OR X_OK) then Some (- EACCES, None, s)
        else do {
          (p, s) \<leftarrow> tm_alloc s;
          let out = (tmpfs_dir_new name (Some (tn_inode parent, d)) s)\<lparr>td_mask := permission, td_uid := p_user pr, td_gid := p_user pr\<rparr>;
          s \<leftarrow> add_ent (tn_inode parent) p (set_ent p (TDir out) s);
          Some (0, Some (tmpfs_from_dir p out), s) } })"

definition get_size_tmpfsdir :: "addr \<Rightarrow> tmpfs \<Rightarrow> nat option" where
  "get_size_tmpfsdir dir s = map_option (\<lambda>d. 264 * (length (td_files d) + 2)) (list_at dir s)"

section \<open>Renaming\<close>

text \<open>The names are compared and copied up to the first slash; \<open>path_comp\<close> is true where the code returns 0.\<close>

fun path_comp :: "u8 list \<Rightarrow> u8 list \<Rightarrow> bool" where
  "path_comp (a # as) (b # bs) = (if a \<noteq> SEP \<and> b \<noteq> SEP then a = b \<and> path_comp as bs else a = SEP \<and> b = SEP)"
| "path_comp [] (b # bs) = (b = SEP)"
| "path_comp (a # as) [] = (a = SEP)"
| "path_comp [] [] = True"

definition endswith :: "u8 list \<Rightarrow> u8 \<Rightarrow> bool" where
  "endswith str ch = (1 < length str \<and> last str = ch)"

definition path_dup :: "u8 list \<Rightarrow> u8 list" where
  "path_dup path = takeWhile (\<lambda>b. b \<noteq> SEP) path"

fun set_name :: "u8 list \<Rightarrow> tmpfs_ent \<Rightarrow> tmpfs_ent" where
  "set_name n (TFile t) = TFile (t\<lparr>tf_name := n\<rparr>)"
| "set_name n (TDir d) = TDir (d\<lparr>td_name := n\<rparr>)"

definition is_dir :: "tmpfs_ent \<Rightarrow> bool" where
  "is_dir e = (ent_type e = TMPFS_TYPE_DIR)"

text \<open>Whether the directory \<open>src\<close> is \<open>pd\<close> or one of its parents.\<close>

partial_function (option) is_parent :: "addr \<Rightarrow> addr \<Rightarrow> tmpfs \<Rightarrow> bool option" where
  "is_parent src pd s =
     (if pd = NULL then Some False
      else if pd = src then Some True
      else do { d \<leftarrow> dir_at pd s; is_parent src (td_parent d) s })"

definition del_ent :: "addr \<Rightarrow> nat \<Rightarrow> tmpfs \<Rightarrow> tmpfs option" where
  "del_ent dir i s = do { d \<leftarrow> list_at dir s; Some (set_ent dir (TDir (d\<lparr>td_files := take i (td_files d) @ drop (Suc i) (td_files d)\<rparr>)) s) }"

text \<open>
  The source is found as an index \<open>i\<close> of the directory \<open>ds\<close>, the destination as \<open>j\<close> of \<open>dd\<close>.  The code holds list nodes,
  so that deleting the source does not move the destination; with indices the destination is set first.
\<close>

definition rename_move :: "addr \<Rightarrow> nat \<Rightarrow> addr \<Rightarrow> u8 list \<Rightarrow> addr \<Rightarrow> tmpfs \<Rightarrow> (int \<times> tmpfs) option" where
  "rename_move ds i src_file dest_name dd s = do {
     e \<leftarrow> tm_ents s src_file;
     if endswith dest_name SEP \<and> \<not> is_dir e then Some (- ENOTDIR, s)
     else do {
       s \<leftarrow> add_ent dd src_file (set_ent src_file (set_name (path_dup dest_name) e) s);
       s \<leftarrow> del_ent ds i s;
       Some (0, s) } }"

definition rename_replace :: "addr \<Rightarrow> nat \<Rightarrow> addr \<Rightarrow> u8 list \<Rightarrow> addr \<Rightarrow> nat \<Rightarrow> addr \<Rightarrow> tmpfs \<Rightarrow> (int \<times> tmpfs) option" where
  "rename_replace ds i src_file dest_name dd j dest_file s = do {
     e \<leftarrow> tm_ents s src_file;
     f \<leftarrow> tm_ents s dest_file;
     let err = (case f of TDir c \<Rightarrow> if try_free_dir c then - ENOTEMPTY else if \<not> is_dir e then - EISDIR else 0
                | TFile t \<Rightarrow> if is_dir e then - ENOTDIR else 0);
     if err \<noteq> 0 then Some (err, s)
     else do {
       let s = set_ent src_file (set_name (path_dup dest_name) e) s;
       d \<leftarrow> list_at dd s;
       s \<leftarrow> del_ent ds i (set_ent dd (TDir (d\<lparr>td_files := (td_files d)[j := src_file]\<rparr>)) s);
       s \<leftarrow> (case f of TDir c \<Rightarrow> Some (set_ent dest_file (TDir (c\<lparr>td_files_freed := True\<rparr>)) s) | TFile t \<Rightarrow> tmpfs_file_free t s);
       Some (0, s) } }"

definition rename_tmpfs :: "addr \<Rightarrow> u8 list \<Rightarrow> addr \<Rightarrow> u8 list \<Rightarrow> tmpfs \<Rightarrow> (int \<times> tmpfs) option" where
  "rename_tmpfs ds src_name dd dest_name s = do {
     d \<leftarrow> list_at ds s;
     r \<leftarrow> find_ent (path_comp src_name) (td_files d) s;
     case r of None \<Rightarrow> Some (- ENOENT, s)
     | Some (i, src_file) \<Rightarrow> do {
         e \<leftarrow> tm_ents s src_file;
         if \<not> is_dir e \<and> endswith src_name SEP then Some (- ENOTDIR, s)
         else do {
           d' \<leftarrow> list_at dd s;
           r' \<leftarrow> find_ent (path_comp dest_name) (td_files d') s;
           bad \<leftarrow> (case r' of None \<Rightarrow> Some False
                   | Some (j, dest_file) \<Rightarrow> do { f \<leftarrow> tm_ents s dest_file; Some (\<not> is_dir f \<and> endswith dest_name SEP) });
           if bad then Some (- ENOTDIR, s)
           else do {
             inside \<leftarrow> (if is_dir e then is_parent src_file dd s else Some False);
             if inside then Some (- EINVAL, s)
             else (case r' of
                 None \<Rightarrow> rename_move ds i src_file dest_name dd s
               | Some (j, dest_file) \<Rightarrow>
                   if src_file = dest_file then Some (0, s)
                   else rename_replace ds i src_file dest_name dd j dest_file s) } } } }"

section \<open>Mounting\<close>

text \<open>\<open>out\<close> is the address of the node that stands for the mount point.\<close>

definition tmpfs_create :: "u8 list \<Rightarrow> addr \<Rightarrow> tmpfs \<Rightarrow> (tmpfs_node \<times> tmpfs) option" where
  "tmpfs_create name out s = do {
     (p, s) \<leftarrow> tm_alloc s;
     let tmpfs_root = (tmpfs_dir_new name None s)\<lparr>td_mask := 0x1FF, td_uid := 0, td_gid := 0\<rparr>;
     Some ((tmpfs_from_dir p tmpfs_root)\<lparr>n_mount := out\<rparr>, set_ent p (TDir (tmpfs_root\<lparr>td_mount := out\<rparr>)) s) }"

definition COMMA :: u8 where "COMMA = 0x2C"

text \<open>The ten elements of \<^verbatim>\<open>argv\<close> hold nine tokens and a null pointer; with no token \<^verbatim>\<open>argv[0]\<close> is never set.\<close>

definition tmpfs_mount :: "u8 list \<Rightarrow> addr \<Rightarrow> tmpfs \<Rightarrow> (tmpfs_node \<times> tmpfs) option" where
  "tmpfs_mount device out s = do {
     let argv = split_tokens {COMMA} device;
     if argv = [] \<or> 9 < length argv then None
     else do {
       (fs, s) \<leftarrow> tmpfs_create (argv ! 0) out s;
       if 1 < length argv \<and> 3 \<le> length (argv ! 1)
       then let digit = (\<lambda>i. scast (argv ! 1 ! i) - 0x30 :: u32)
            in Some (fs\<lparr>n_mask := push_bit 6 (digit 0) OR push_bit 3 (digit 1) OR digit 2\<rparr>, s)
       else Some (fs, s) } }"

text \<open>A file system with an empty file at one address, an empty directory at another, and two free frames that were used before.\<close>

definition ex_file :: tmpfs_file where
  "ex_file = \<lparr>tf_name = [0x61], tf_type = 1, tf_mask = 0, tf_uid = 0, tf_gid = 0, tf_atime = 0, tf_mtime = 0, tf_ctime = 0, tf_mount = 0,
     tf_length = 0, tf_block_count = 0, tf_pointers = 2, tf_blocks = [0, 0], tf_target = []\<rparr>"

definition ex_dir :: "u8 list \<Rightarrow> addr list \<Rightarrow> addr \<Rightarrow> tmpfs_dir" where
  "ex_dir name files parent = \<lparr>td_name = name, td_type = 2, td_mask = 0x1FF, td_uid = 0, td_gid = 0, td_atime = 0, td_mtime = 0, td_ctime = 0, td_mount = 0,
     td_files = files, td_files_freed = False, td_parent = parent\<rparr>"

definition ex_tmpfs :: tmpfs where
  "ex_tmpfs = \<lparr>tm_ents = [0x1000 \<mapsto> TFile ex_file, 0x2000 \<mapsto> TDir (ex_dir [] [0x1000] 0)], tm_frames = (\<lambda>_. replicate BLOCKSIZE 0xAA),
     tm_free = [7, 8], tm_released = [], tm_total = 0, tm_malloc = [0x3000, 0x4000], tm_now = 5\<rparr>"

section \<open>Blocks of a file\<close>

text \<open>The frames a file uses, the bytes they hold, and what every operation on a file relies on.\<close>

definition blocks_of :: "tmpfs_file \<Rightarrow> u64 list" where
  "blocks_of f = take (tf_block_count f) (tf_blocks f)"

definition bbyte :: "u64 list \<Rightarrow> (u64 \<Rightarrow> u8 list) \<Rightarrow> nat \<Rightarrow> u8" where
  "bbyte bl fr i = fr (bl ! (i div BLOCKSIZE)) ! (i mod BLOCKSIZE)"

definition file_wf :: "addr \<Rightarrow> tmpfs_file \<Rightarrow> tmpfs \<Rightarrow> bool" where
  "file_wf p f s \<longleftrightarrow> file_at p s = Some f \<and> tf_pointers f = length (tf_blocks f) \<and> 0 < tf_pointers f \<and>
     tf_block_count f \<le> tf_pointers f \<and> distinct (blocks_of f @ tm_free s) \<and> (\<forall>fr. length (tm_frames s fr) = BLOCKSIZE)"

lemma file_at_set [simp]: "file_at p (set_ent p (TFile f) s) = Some f"
  by (simp add: file_at_def set_ent_def)

lemma set_ent_fields [simp]:
  "tm_frames (set_ent p e s) = tm_frames s" "tm_free (set_ent p e s) = tm_free s" "tm_total (set_ent p e s) = tm_total s"
  "tm_ents (set_ent p e s) q = (if q = p then Some e else tm_ents s q)"
  "tm_now (set_ent p e s) = tm_now s" "tm_malloc (set_ent p e s) = tm_malloc s" "tm_released (set_ent p e s) = tm_released s"
  by (simp_all add: set_ent_def)

lemma set_ent_twice [simp]: "set_ent p d (set_ent p e s) = set_ent p d s"
  by (simp add: set_ent_def)

lemma length_blocks_of: "file_wf p f s \<Longrightarrow> length (blocks_of f) = tf_block_count f"
  by (simp add: file_wf_def blocks_of_def)

lemma embiggen_loop_effect:
  assumes "tf_pointers t = length (tf_blocks t)" "0 < tf_pointers t"
  shows "\<exists>n. embiggen_loop b t = Some (t\<lparr>tf_pointers := tf_pointers t + n, tf_blocks := tf_blocks t @ replicate n 0\<rparr>) \<and> b < tf_pointers t + n"
  using assms
proof (induction b t rule: embiggen_loop.induct)
  case (1 b t)
  show ?case
  proof (cases "b < tf_pointers t")
    case True
    then show ?thesis by (intro exI [of _ 0]) (simp add: embiggen_loop.simps)
  next
    case False
    let ?t = "tmpfs_file_blocks_embiggen t"
    have "tf_pointers ?t = length (tf_blocks ?t)" "0 < tf_pointers ?t"
      using 1(2,3) by (simp_all add: tmpfs_file_blocks_embiggen_def)
    then obtain n where n: "embiggen_loop b ?t = Some (?t\<lparr>tf_pointers := tf_pointers ?t + n, tf_blocks := tf_blocks ?t @ replicate n 0\<rparr>)"
        "b < tf_pointers ?t + n"
      using 1(1) False 1(3) by blast
    have "replicate (tf_pointers t) (0 :: u64) @ replicate n 0 = replicate (tf_pointers t + n) 0"
      by (simp add: replicate_add)
    then show ?thesis
      using n False 1(3) by (intro exI [of _ "tf_pointers t + n"])
        (simp add: embiggen_loop.simps [of b t] tmpfs_file_blocks_embiggen_def mult_2_right add.assoc)
  qed
qed

text \<open>The frames after \<open>k\<close> allocations: cleared when \<open>create\<close> is 2.\<close>

definition fresh_frames :: "nat \<Rightarrow> u64 list \<Rightarrow> (u64 \<Rightarrow> u8 list) \<Rightarrow> u64 \<Rightarrow> u8 list" where
  "fresh_frames create new fr = (\<lambda>x. if create = 2 \<and> x \<in> set new then replicate BLOCKSIZE 0 else fr x)"

lemma fresh_frames_simps:
  "fresh_frames 2 [x] fr = fr(x := replicate BLOCKSIZE 0)"
  "c \<noteq> 2 \<Longrightarrow> fresh_frames c new fr = fr"
  "fresh_frames c [] fr = fr"
  "fresh_frames c ys (fresh_frames c [x] fr) = fresh_frames c (x # ys) fr"
  by (auto simp: fresh_frames_def fun_eq_iff)

lemma block_loop_step:
  assumes "\<not> b < tf_block_count t" "tm_free s = x # r" "tf_block_count t < length (tf_blocks t)"
  shows "block_loop b c t s = block_loop b c (t\<lparr>tf_blocks := (tf_blocks t)[tf_block_count t := x], tf_block_count := tf_block_count t + 1\<rparr>)
     (s\<lparr>tm_free := r, tm_total := tm_total s + 1, tm_frames := fresh_frames c [x] (tm_frames s)\<rparr>)"
  using assms by (subst block_loop.simps) (simp add: fresh_frames_simps Let_def)

lemma block_loop_effect:
  assumes "b < length (tf_blocks t)" "tf_block_count t \<le> length (tf_blocks t)" "k = b + 1 - tf_block_count t" "k \<le> length (tm_free s)"
  shows "\<exists>bl. block_loop b c t s = Some (t\<lparr>tf_blocks := bl, tf_block_count := tf_block_count t + k\<rparr>,
       s\<lparr>tm_free := drop k (tm_free s), tm_total := tm_total s + int k, tm_frames := fresh_frames c (take k (tm_free s)) (tm_frames s)\<rparr>) \<and>
     length bl = length (tf_blocks t) \<and> take (tf_block_count t + k) bl = blocks_of t @ take k (tm_free s)"
  using assms
proof (induction k arbitrary: t s)
  case 0
  then show ?case by (intro exI [of _ "tf_blocks t"]) (simp add: block_loop.simps [of b] fresh_frames_simps blocks_of_def)
next
  case (Suc k)
  then obtain x r where fr: "tm_free s = x # r" by (cases "tm_free s") auto
  let ?s = "s\<lparr>tm_free := r, tm_total := tm_total s + 1, tm_frames := fresh_frames c [x] (tm_frames s)\<rparr>"
  let ?t = "t\<lparr>tf_blocks := (tf_blocks t)[tf_block_count t := x], tf_block_count := tf_block_count t + 1\<rparr>"
  have lt: "tf_block_count t < length (tf_blocks t)" "\<not> b < tf_block_count t" using Suc.prems by simp_all
  have step: "block_loop b c t s = block_loop b c ?t ?s" by (rule block_loop_step [OF lt(2) fr lt(1)])
  have "b < length (tf_blocks ?t)" "tf_block_count ?t \<le> length (tf_blocks ?t)" "k = b + 1 - tf_block_count ?t" "k \<le> length (tm_free ?s)"
    using Suc.prems lt fr by simp_all
  from Suc.IH [OF this] obtain bl where bl: "block_loop b c ?t ?s = Some (?t\<lparr>tf_blocks := bl, tf_block_count := tf_block_count ?t + k\<rparr>,
       ?s\<lparr>tm_free := drop k (tm_free ?s), tm_total := tm_total ?s + int k, tm_frames := fresh_frames c (take k (tm_free ?s)) (tm_frames ?s)\<rparr>)"
     "length bl = length (tf_blocks ?t)" "take (tf_block_count ?t + k) bl = blocks_of ?t @ take k (tm_free ?s)"
    by blast
  have "blocks_of ?t = blocks_of t @ [x]"
    using lt by (simp add: blocks_of_def take_Suc_conv_app_nth)
  then show ?case
    using step bl fr by (intro exI [of _ bl]) (simp add: fresh_frames_simps add.assoc)
qed

text \<open>Asking for a block allocates what is missing up to it.\<close>

lemma getset_create:
  assumes "file_wf p f s" "k = b + 1 - tf_block_count f" "k \<le> length (tm_free s)" "c \<noteq> 0"
  shows "\<exists>f'. tmpfs_file_getset_block p b c s = Some (Some ((blocks_of f @ take k (tm_free s)) ! b),
      set_ent p (TFile f') (s\<lparr>tm_free := drop k (tm_free s), tm_total := tm_total s + int k, tm_frames := fresh_frames c (take k (tm_free s)) (tm_frames s)\<rparr>)) \<and>
    file_wf p f' (set_ent p (TFile f') (s\<lparr>tm_free := drop k (tm_free s), tm_total := tm_total s + int k, tm_frames := fresh_frames c (take k (tm_free s)) (tm_frames s)\<rparr>)) \<and>
    blocks_of f' = blocks_of f @ take k (tm_free s) \<and> tf_length f' = tf_length f \<and> tf_block_count f' = tf_block_count f + k"
proof -
  have wf: "file_at p s = Some f" "tf_pointers f = length (tf_blocks f)" "0 < tf_pointers f" "tf_block_count f \<le> tf_pointers f"
      "distinct (blocks_of f @ tm_free s)" "\<And>fr. length (tm_frames s fr) = BLOCKSIZE"
    using assms(1) by (auto simp: file_wf_def)
  obtain n where n: "embiggen_loop b f = Some (f\<lparr>tf_pointers := tf_pointers f + n, tf_blocks := tf_blocks f @ replicate n 0\<rparr>)" "b < tf_pointers f + n"
    using embiggen_loop_effect wf(2,3) by blast
  let ?f = "f\<lparr>tf_pointers := tf_pointers f + n, tf_blocks := tf_blocks f @ replicate n 0\<rparr>"
  have bf: "blocks_of ?f = blocks_of f" using wf by (simp add: blocks_of_def)
  obtain bl where bl: "block_loop b c ?f s = Some (?f\<lparr>tf_blocks := bl, tf_block_count := tf_block_count ?f + k\<rparr>,
       s\<lparr>tm_free := drop k (tm_free s), tm_total := tm_total s + int k, tm_frames := fresh_frames c (take k (tm_free s)) (tm_frames s)\<rparr>)"
     "length bl = length (tf_blocks ?f)" "take (tf_block_count ?f + k) bl = blocks_of ?f @ take k (tm_free s)"
    using block_loop_effect [of b ?f k s c] wf n(2) assms(2,3) by auto
  let ?g = "?f\<lparr>tf_blocks := bl, tf_block_count := tf_block_count ?f + k\<rparr>"
  have g: "blocks_of ?g = blocks_of f @ take k (tm_free s)" using bl(3) bf by (simp add: blocks_of_def)
  have "b < tf_block_count f + k" using assms(2) by simp
  then have "bl ! b = blocks_of ?g ! b" by (simp add: blocks_of_def)
  moreover have "distinct (blocks_of ?g @ drop k (tm_free s))" using wf(5) g by simp
  moreover have "length (fresh_frames c (take k (tm_free s)) (tm_frames s) fr) = BLOCKSIZE" for fr
    using wf(6) by (simp add: fresh_frames_def)
  moreover have "tf_block_count f + k \<le> tf_pointers f + n" using n(2) wf assms(2) by simp
  ultimately show ?thesis
    using n(1) bl wf g assms(4) by (intro exI [of _ ?g]) (simp add: tmpfs_file_getset_block_def file_wf_def)
qed

text \<open>
  Some bytes were written at a position: the file may have grown by frames taken from the free ones, the bytes
  are there, and every other byte of these frames, of all other frames and every other object is as before.
\<close>

definition wrote :: "addr \<Rightarrow> tmpfs_file \<Rightarrow> tmpfs \<Rightarrow> tmpfs_file \<Rightarrow> tmpfs \<Rightarrow> nat \<Rightarrow> u8 list \<Rightarrow> bool" where
  "wrote p f s f' s' lo bytes \<longleftrightarrow> file_wf p f s \<and> file_wf p f' s' \<and> tf_length f' = tf_length f \<and>
     (\<exists>k \<le> length (tm_free s). blocks_of f' = blocks_of f @ take k (tm_free s) \<and> tm_free s' = drop k (tm_free s)) \<and>
     lo + length bytes \<le> BLOCKSIZE * length (blocks_of f') \<and>
     (\<forall>i < BLOCKSIZE * length (blocks_of f'). bbyte (blocks_of f') (tm_frames s') i =
        (if lo \<le> i \<and> i < lo + length bytes then bytes ! (i - lo) else bbyte (blocks_of f') (tm_frames s) i)) \<and>
     (\<forall>x. x \<notin> set (blocks_of f') \<longrightarrow> tm_frames s' x = tm_frames s x) \<and>
     (\<forall>q. q \<noteq> p \<longrightarrow> tm_ents s' q = tm_ents s q)"

lemma wrote_room:
  assumes "wrote p f s f' s' lo bytes"
  shows "length (blocks_of f') + length (tm_free s') = length (blocks_of f) + length (tm_free s)"
  using assms by (auto simp: wrote_def)

lemma div_block: "b = i div BLOCKSIZE \<longleftrightarrow> BLOCKSIZE * b \<le> i \<and> i < BLOCKSIZE * b + BLOCKSIZE"
  unfolding BLOCKSIZE_def by (metis div_nat_eqI dividend_less_times_div mult.commute mult_Suc_right add.commute times_div_less_eq_dividend zero_less_numeral)

lemma bbyte_page:
  assumes "distinct bl" "b < length bl" "i < BLOCKSIZE * length bl" "at + length bytes \<le> BLOCKSIZE" "length (fr (bl ! b)) = BLOCKSIZE"
  shows "bbyte bl (fr(bl ! b := take at (fr (bl ! b)) @ bytes @ drop (at + length bytes) (fr (bl ! b)))) i =
    (if BLOCKSIZE * b + at \<le> i \<and> i < BLOCKSIZE * b + at + length bytes then bytes ! (i - (BLOCKSIZE * b + at)) else bbyte bl fr i)"
proof -
  have il: "i div BLOCKSIZE < length bl" using assms(3) by (simp add: BLOCKSIZE_def less_mult_imp_div_less mult.commute)
  show ?thesis
  proof (cases "b = i div BLOCKSIZE")
    case True
    then have m: "i = BLOCKSIZE * b + i mod BLOCKSIZE" by simp
    define j where "j = i mod BLOCKSIZE"
    have j: "i = BLOCKSIZE * b + j" "j < BLOCKSIZE" using m by (simp_all add: j_def BLOCKSIZE_def)
    have "bbyte bl (fr(bl ! b := take at (fr (bl ! b)) @ bytes @ drop (at + length bytes) (fr (bl ! b)))) i =
        (take at (fr (bl ! b)) @ bytes @ drop (at + length bytes) (fr (bl ! b))) ! j"
      using True by (simp add: bbyte_def j_def)
    also have "\<dots> = (if at \<le> j \<and> j < at + length bytes then bytes ! (j - at) else fr (bl ! b) ! j)"
      using assms(4,5) j(2) by (auto simp: nth_append)
    also have "fr (bl ! b) ! j = bbyte bl fr i" using True by (simp add: bbyte_def j_def)
    finally show ?thesis using j(1) by (simp del: fun_upd_apply)
  next
    case False
    then have "bl ! (i div BLOCKSIZE) \<noteq> bl ! b" using assms(1,2) il by (simp add: nth_eq_iff_index_eq)
    moreover have "\<not> (BLOCKSIZE * b + at \<le> i \<and> i < BLOCKSIZE * b + at + length bytes)"
      using False assms(4) unfolding div_block by auto
    ultimately show ?thesis by (auto simp: bbyte_def)
  qed
qed

lemma block_write_wrote:
  assumes "file_wf p f s" "b < length (blocks_of f) + length (tm_free s)" "at + length bytes \<le> BLOCKSIZE"
  shows "\<exists>f' s'. block_write p b 1 at bytes s = Some s' \<and> wrote p f s f' s' (BLOCKSIZE * b + at) bytes"
proof -
  define k where "k = b + 1 - tf_block_count f"
  define fr where "fr = (blocks_of f @ take k (tm_free s)) ! b"
  let ?s = "s\<lparr>tm_free := drop k (tm_free s), tm_total := tm_total s + int k, tm_frames := fresh_frames 1 (take k (tm_free s)) (tm_frames s)\<rparr>"
  have k: "k \<le> length (tm_free s)" using assms(2) length_blocks_of [OF assms(1)] by (simp add: k_def)
  obtain f' where f': "tmpfs_file_getset_block p b 1 s = Some (Some fr, set_ent p (TFile f') ?s)" "file_wf p f' (set_ent p (TFile f') ?s)"
      "blocks_of f' = blocks_of f @ take k (tm_free s)" "tf_length f' = tf_length f"
    using getset_create [OF assms(1) k_def k, of 1] by (auto simp: fr_def)
  let ?pg = "take at (tm_frames s fr) @ bytes @ drop (at + length bytes) (tm_frames s fr)"
  define s' where "s' = (set_ent p (TFile f') ?s)\<lparr>tm_frames := (tm_frames s)(fr := ?pg)\<rparr>"
  have s': "tm_frames s' = (tm_frames s)(fr := ?pg)" "tm_free s' = drop k (tm_free s)" "\<And>q. q \<noteq> p \<Longrightarrow> tm_ents s' q = tm_ents s q"
    by (simp_all add: s'_def set_ent_def)
  have fl: "length (tm_frames s x) = BLOCKSIZE" for x using assms(1) by (simp add: file_wf_def)
  have bl: "b < length (blocks_of f')" using k length_blocks_of [OF assms(1)] by (simp add: f'(3) k_def)
  have d: "distinct (blocks_of f')" using f'(2) by (simp add: file_wf_def)
  have frb: "fr = blocks_of f' ! b" by (simp add: fr_def f'(3))
  then have "fr \<in> set (blocks_of f')" using bl by simp
  then have other: "\<forall>x. x \<notin> set (blocks_of f') \<longrightarrow> tm_frames s' x = tm_frames s x" by (auto simp: s'(1))
  have wr: "block_write p b 1 at bytes s = Some s'"
    using f'(1) assms(3) fl by (simp add: block_write_def wr_at_def fresh_frames_simps s'_def)
  have wf: "file_wf p f' s'" using f'(2) fl assms(3) by (auto simp: s'_def file_wf_def file_at_def set_ent_def)
  have "BLOCKSIZE * Suc b \<le> BLOCKSIZE * length (blocks_of f')" using bl by (intro mult_le_mono2) simp
  then have len: "BLOCKSIZE * b + at + length bytes \<le> BLOCKSIZE * length (blocks_of f')" using assms(3) by simp
  have cont: "\<forall>i < BLOCKSIZE * length (blocks_of f'). bbyte (blocks_of f') (tm_frames s') i =
      (if BLOCKSIZE * b + at \<le> i \<and> i < BLOCKSIZE * b + at + length bytes then bytes ! (i - (BLOCKSIZE * b + at)) else bbyte (blocks_of f') (tm_frames s) i)"
    unfolding s'(1) frb using bbyte_page [where fr = "tm_frames s", OF d bl _ assms(3) fl] by blast
  show ?thesis
    using wr wf assms(1) f'(3,4) k s'(2,3) len cont other unfolding wrote_def by blast
qed

lemma wrote_trans:
  assumes w1: "wrote p f s f1 s1 lo bs1" and w2: "wrote p f1 s1 f2 s2 (lo + length bs1) bs2"
  shows "wrote p f s f2 s2 lo (bs1 @ bs2)"
proof -
  obtain k1 where k1: "k1 \<le> length (tm_free s)" "blocks_of f1 = blocks_of f @ take k1 (tm_free s)" "tm_free s1 = drop k1 (tm_free s)"
    using w1 by (auto simp: wrote_def)
  obtain k2 where k2: "k2 \<le> length (tm_free s1)" "blocks_of f2 = blocks_of f1 @ take k2 (tm_free s1)" "tm_free s2 = drop k2 (tm_free s1)"
    using w2 by (auto simp: wrote_def)
  have wf1: "distinct (blocks_of f1 @ tm_free s1)" using w1 by (simp add: wrote_def file_wf_def)
  have o1: "\<And>x. x \<notin> set (blocks_of f1) \<Longrightarrow> tm_frames s1 x = tm_frames s x"
    and o2: "\<And>x. x \<notin> set (blocks_of f2) \<Longrightarrow> tm_frames s2 x = tm_frames s1 x"
    and l1: "lo + length bs1 \<le> BLOCKSIZE * length (blocks_of f1)"
    and c1: "\<And>i. i < BLOCKSIZE * length (blocks_of f1) \<Longrightarrow> bbyte (blocks_of f1) (tm_frames s1) i =
        (if lo \<le> i \<and> i < lo + length bs1 then bs1 ! (i - lo) else bbyte (blocks_of f1) (tm_frames s) i)"
    and c2: "\<And>i. i < BLOCKSIZE * length (blocks_of f2) \<Longrightarrow> bbyte (blocks_of f2) (tm_frames s2) i =
        (if lo + length bs1 \<le> i \<and> i < lo + length bs1 + length bs2 then bs2 ! (i - (lo + length bs1)) else bbyte (blocks_of f2) (tm_frames s1) i)"
    using w1 w2 by (simp_all add: wrote_def)
  have pre: "bbyte (blocks_of f2) fr i = bbyte (blocks_of f1) fr i" if "i < BLOCKSIZE * length (blocks_of f1)" for i fr
    using that by (simp add: bbyte_def k2(2) nth_append BLOCKSIZE_def less_mult_imp_div_less mult.commute)
  have new: "bbyte (blocks_of f2) (tm_frames s1) i = bbyte (blocks_of f2) (tm_frames s) i"
    if i: "i < BLOCKSIZE * length (blocks_of f2)" "\<not> i < BLOCKSIZE * length (blocks_of f1)" for i
  proof -
    have "i div BLOCKSIZE < length (blocks_of f2)" "length (blocks_of f1) \<le> i div BLOCKSIZE"
      using i by (simp_all add: BLOCKSIZE_def less_mult_imp_div_less mult.commute less_eq_div_iff_mult_less_eq)
    then have "blocks_of f2 ! (i div BLOCKSIZE) \<in> set (take k2 (tm_free s1))"
      using k2(1) by (simp add: k2(2) nth_append min_def)
    then have "blocks_of f2 ! (i div BLOCKSIZE) \<notin> set (blocks_of f1)" using wf1 by (auto dest: in_set_takeD)
    then show ?thesis using o1 by (simp add: bbyte_def)
  qed
  have "\<forall>i < BLOCKSIZE * length (blocks_of f2). bbyte (blocks_of f2) (tm_frames s2) i =
      (if lo \<le> i \<and> i < lo + length (bs1 @ bs2) then (bs1 @ bs2) ! (i - lo) else bbyte (blocks_of f2) (tm_frames s) i)"
  proof (intro allI impI)
    fix i assume i: "i < BLOCKSIZE * length (blocks_of f2)"
    show "bbyte (blocks_of f2) (tm_frames s2) i =
      (if lo \<le> i \<and> i < lo + length (bs1 @ bs2) then (bs1 @ bs2) ! (i - lo) else bbyte (blocks_of f2) (tm_frames s) i)"
    proof (cases "i < BLOCKSIZE * length (blocks_of f1)")
      case True
      then show ?thesis using c1 c2 [OF i] pre by (auto simp: nth_append)
    next
      case False
      then show ?thesis using c2 [OF i] new [OF i] l1 by (auto simp: nth_append)
    qed
  qed
  moreover have "\<exists>k \<le> length (tm_free s). blocks_of f2 = blocks_of f @ take k (tm_free s) \<and> tm_free s2 = drop k (tm_free s)"
    using k1 k2 by (intro exI [of _ "k1 + k2"]) (simp add: take_add add.commute)
  moreover have "\<forall>x. x \<notin> set (blocks_of f2) \<longrightarrow> tm_frames s2 x = tm_frames s x"
    using o1 o2 k2(2) by simp
  ultimately show ?thesis using w1 w2 by (simp add: wrote_def add.assoc)
qed

section \<open>Reads and writes\<close>

text \<open>The arithmetic of an offset that is not negative.\<close>

lemma sint_small: "unat (w :: u64) < 2 ^ 63 \<Longrightarrow> sint w = int (unat w)"
proof -
  assume "unat w < 2 ^ 63"
  then have "int (unat w) < int (2 ^ 63)" by (simp only: of_nat_less_iff)
  then have "uint w < 2 ^ 63" by simp
  moreover have "- (2 ^ 63) \<le> uint w" by (rule order_trans [OF _ uint_ge_0]) simp
  ultimately have "signed_take_bit 63 (uint w) = uint w" by (intro signed_take_bit_int_eq_self)
  then show ?thesis by (simp add: sint_uint)
qed

lemma off_nonneg:
  assumes "unat offset < 2 ^ 63"
  shows "off_div offset = offset div 4096" "off_rem offset = offset mod 4096"
    "unat (off_div offset) = unat offset div BLOCKSIZE" "unat (off_rem offset) = unat offset mod BLOCKSIZE"
    "unat (offset mod 4096) = unat offset mod BLOCKSIZE"
proof -
  have "\<not> sint offset < 0" using sint_small [OF assms] by simp
  then show "off_div offset = offset div 4096" "off_rem offset = offset mod 4096" by (simp_all add: off_div_def off_rem_def)
  then show "unat (off_div offset) = unat offset div BLOCKSIZE" "unat (off_rem offset) = unat offset mod BLOCKSIZE"
    "unat (offset mod 4096) = unat offset mod BLOCKSIZE" by (simp_all add: unat_div unat_mod BLOCKSIZE_def)
qed

lemma off_first:
  assumes "unat offset < 2 ^ 63"
  shows "unat (4096 - off_rem offset) = BLOCKSIZE - unat offset mod BLOCKSIZE"
proof -
  have "off_rem offset \<le> 4096"
    using off_nonneg(4) [OF assms] by (simp add: word_le_nat_alt BLOCKSIZE_def)
  then show ?thesis using off_nonneg(4) [OF assms] by (simp add: unat_sub BLOCKSIZE_def)
qed

lemma off_later:
  assumes "unat offset < 2 ^ 63" "1 \<le> r" "BLOCKSIZE * r < 2 ^ 64"
  shows "unat (4096 * of_nat r - off_rem offset) = BLOCKSIZE * r - unat offset mod BLOCKSIZE"
proof -
  have u: "unat (4096 * of_nat r :: u64) = BLOCKSIZE * r"
    using assms(3) by (simp add: unat_word_ariths unat_of_nat BLOCKSIZE_def mod_mult_right_eq)
  have "unat offset mod BLOCKSIZE \<le> BLOCKSIZE * r"
    using assms(2) by (simp add: BLOCKSIZE_def)
  then have "off_rem offset \<le> 4096 * of_nat r" using off_nonneg(4) [OF assms(1)] u by (simp add: word_le_nat_alt)
  then show ?thesis using off_nonneg(4) [OF assms(1)] u by (simp add: unat_sub)
qed

lemma wrote_nothing:
  assumes "file_wf p f s" "lo \<le> BLOCKSIZE * length (blocks_of f)"
  shows "wrote p f s f s lo []"
  using assms by (auto simp: wrote_def intro: exI [of _ 0])

lemma wrote_length: "wrote p f s f' s' lo bs \<Longrightarrow> lo + length bs \<le> BLOCKSIZE * length (blocks_of f')"
  by (simp add: wrote_def)

lemma wrote_wf: "wrote p f s f' s' lo bs \<Longrightarrow> file_wf p f' s'"
  by (simp add: wrote_def)

lemma write_blocks_rest:
  assumes "file_wf p f s" "unat offset < 2 ^ 63" "1 \<le> r" "BLOCKSIZE * (r + k) < 2 ^ 64"
    "BLOCKSIZE * (r + k) - unat offset mod BLOCKSIZE \<le> length buffer"
    "unat offset div BLOCKSIZE + r \<le> length (blocks_of f)" "unat offset div BLOCKSIZE + r + k \<le> length (blocks_of f) + length (tm_free s)"
  shows "\<exists>f' s'. write_blocks p offset r k buffer s = Some s' \<and> wrote p f s f' s' (BLOCKSIZE * (unat offset div BLOCKSIZE + r))
     (take (BLOCKSIZE * k) (drop (BLOCKSIZE * r - unat offset mod BLOCKSIZE) buffer))"
  using assms
proof (induction k arbitrary: r f s)
  case 0
  then show ?case using wrote_nothing [of p f s "BLOCKSIZE * (unat offset div BLOCKSIZE + r)"] by (auto simp: mult_le_mono2)
next
  case (Suc k)
  let ?om = "unat offset mod BLOCKSIZE" and ?b = "unat offset div BLOCKSIZE + r"
  let ?bs = "take BLOCKSIZE (drop (BLOCKSIZE * r - ?om) buffer)"
  have om: "?om < BLOCKSIZE" by (simp add: BLOCKSIZE_def)
  have rr: "BLOCKSIZE \<le> BLOCKSIZE * r" using Suc.prems(3) by simp
  have len: "BLOCKSIZE * r - ?om + (BLOCKSIZE + BLOCKSIZE * k) \<le> length buffer"
  proof -
    have "BLOCKSIZE * (r + Suc k) = BLOCKSIZE * r + BLOCKSIZE + BLOCKSIZE * k" by (simp add: algebra_simps)
    then show ?thesis using Suc.prems(5) om rr by linarith
  qed
  have lb: "length ?bs = BLOCKSIZE" using len by simp
  have r64: "BLOCKSIZE * r < 2 ^ 64" using Suc.prems(4) by (simp add: algebra_simps)
  obtain f1 s1 where w1: "block_write p ?b 1 0 ?bs s = Some s1" "wrote p f s f1 s1 (BLOCKSIZE * ?b + 0) ?bs"
    using block_write_wrote [OF Suc.prems(1), of ?b 0 ?bs] Suc.prems(7) lb by auto
  have "?b + 1 \<le> length (blocks_of f1)"
    using wrote_length [OF w1(2)] lb by (simp add: BLOCKSIZE_def)
  then obtain f2 s2 where w2: "write_blocks p offset (Suc r) k buffer s1 = Some s2"
      "wrote p f1 s1 f2 s2 (BLOCKSIZE * (unat offset div BLOCKSIZE + Suc r)) (take (BLOCKSIZE * k) (drop (BLOCKSIZE * Suc r - ?om) buffer))"
    using Suc.IH [OF wrote_wf [OF w1(2)] Suc.prems(2), of "Suc r"] Suc.prems(4-7) wrote_room [OF w1(2)] by auto
  have "BLOCKSIZE * Suc r = BLOCKSIZE * r + BLOCKSIZE" by simp
  then have "BLOCKSIZE * Suc r - ?om = BLOCKSIZE * r - ?om + BLOCKSIZE" using om rr by linarith
  then have "take (BLOCKSIZE * Suc k) (drop (BLOCKSIZE * r - ?om) buffer) = ?bs @ take (BLOCKSIZE * k) (drop (BLOCKSIZE * Suc r - ?om) buffer)"
    by (simp add: take_add add.commute)
  moreover have "wrote p f s f2 s2 (BLOCKSIZE * ?b) (?bs @ take (BLOCKSIZE * k) (drop (BLOCKSIZE * Suc r - ?om) buffer))"
    using wrote_trans [OF w1(2), of f2 s2] w2(2) lb by (simp add: algebra_simps)
  moreover have "write_blocks p offset r (Suc k) buffer s = Some s2"
    using Suc.prems(3) w1(1) w2(1) len off_later [OF Suc.prems(2,3) r64] off_nonneg(3) [OF Suc.prems(2)]
    by (simp add: copy_from_def)
  ultimately show ?case by auto
qed

lemma write_blocks_all:
  assumes "file_wf p f s" "unat offset < 2 ^ 63" "0 < k" "BLOCKSIZE * k < 2 ^ 64"
    "BLOCKSIZE * k - unat offset mod BLOCKSIZE \<le> length buffer"
    "unat offset div BLOCKSIZE + k \<le> length (blocks_of f) + length (tm_free s)"
  shows "\<exists>f' s'. write_blocks p offset 0 k buffer s = Some s' \<and>
     wrote p f s f' s' (unat offset) (take (BLOCKSIZE * k - unat offset mod BLOCKSIZE) buffer)"
proof -
  let ?om = "unat offset mod BLOCKSIZE" and ?b = "unat offset div BLOCKSIZE"
  let ?bs = "take (BLOCKSIZE - ?om) buffer"
  obtain j where j: "k = Suc j" using assms(3) by (cases k) auto
  have om: "?om < BLOCKSIZE" by (simp add: BLOCKSIZE_def)
  have lb: "length ?bs = BLOCKSIZE - ?om" using assms(5) j by simp
  obtain f1 s1 where w1: "block_write p ?b 1 ?om ?bs s = Some s1" "wrote p f s f1 s1 (BLOCKSIZE * ?b + ?om) ?bs"
    using block_write_wrote [OF assms(1), of ?b ?om ?bs] assms(6) lb j om by auto
  have o: "BLOCKSIZE * ?b + ?om = unat offset" by simp
  have "BLOCKSIZE * (?b + 1) = BLOCKSIZE * ?b + BLOCKSIZE" by simp
  then have e: "unat offset + (BLOCKSIZE - ?om) = BLOCKSIZE * (?b + 1)" using o om by linarith
  have "?b + 1 \<le> length (blocks_of f1)"
    using wrote_length [OF w1(2)] lb e unfolding o by (simp add: BLOCKSIZE_def)
  then obtain f2 s2 where w2: "write_blocks p offset 1 j buffer s1 = Some s2"
      "wrote p f1 s1 f2 s2 (BLOCKSIZE * (?b + 1)) (take (BLOCKSIZE * j) (drop (BLOCKSIZE - ?om) buffer))"
    using write_blocks_rest [OF wrote_wf [OF w1(2)] assms(2), of 1 j buffer] assms(4-6) wrote_room [OF w1(2)] j by auto
  have "BLOCKSIZE * k - ?om = (BLOCKSIZE - ?om) + BLOCKSIZE * j" using om j by simp
  then have "take (BLOCKSIZE * k - ?om) buffer = ?bs @ take (BLOCKSIZE * j) (drop (BLOCKSIZE - ?om) buffer)"
    by (simp add: take_add)
  moreover have "wrote p f s f2 s2 (unat offset) (?bs @ take (BLOCKSIZE * j) (drop (BLOCKSIZE - ?om) buffer))"
    using wrote_trans [OF w1(2) [unfolded o], of f2 s2] w2(2) lb e by simp
  moreover have "write_blocks p offset 0 k buffer s = Some s2"
    using w1(1) w2(1) lb off_first [OF assms(2)] off_nonneg(3,5) [OF assms(2)] assms(5) j
    by (simp add: copy_from_def)
  ultimately show ?thesis by auto
qed

text \<open>The file and the state when the blocks are written: the times are set, and the length may have grown.\<close>

definition write_start :: "nat \<Rightarrow> u32 \<Rightarrow> tmpfs_file \<Rightarrow> tmpfs_file" where
  "write_start end t f = f\<lparr>tf_atime := t, tf_mtime := t, tf_length := max (tf_length f) end\<rparr>"

lemma file_wf_start: "file_wf p f s \<Longrightarrow> file_wf p (write_start e t f) (set_ent p (TFile (write_start e t f)) s)"
  by (auto simp: file_wf_def write_start_def blocks_of_def)

lemma block_split: "BLOCKSIZE * (n div BLOCKSIZE) + n mod BLOCKSIZE = n" "n mod BLOCKSIZE < BLOCKSIZE"
  by (simp_all add: BLOCKSIZE_def)

lemma span_arith:
  fixes a :: nat
  assumes "a + k = c" "z \<le> k" "a + r = st" "r < z" "c + e = en" "st \<le> en" "en < 2 ^ 63"
  shows "k < 2 ^ 64 \<and> k - r + e = en - st \<and> st + (k - r) = c"
  using assms by auto

text \<open>How a range that does not end in the block it starts in is cut into whole blocks and a last part.\<close>

lemma span_blocks:
  fixes st en :: nat
  assumes "st div BLOCKSIZE \<noteq> en div BLOCKSIZE" "st \<le> en" "en < 2 ^ 63" "k = en div BLOCKSIZE - st div BLOCKSIZE"
  shows "0 < k" "st div BLOCKSIZE + k = en div BLOCKSIZE" "BLOCKSIZE * k < 2 ^ 64"
    "BLOCKSIZE * k - st mod BLOCKSIZE + en mod BLOCKSIZE = en - st"
    "st + (BLOCKSIZE * k - st mod BLOCKSIZE) = BLOCKSIZE * (en div BLOCKSIZE)"
proof -
  show k: "0 < k" "st div BLOCKSIZE + k = en div BLOCKSIZE" using assms(1,4) div_le_mono [OF assms(2), of BLOCKSIZE] by auto
  have "BLOCKSIZE * (st div BLOCKSIZE) + BLOCKSIZE * k = BLOCKSIZE * (en div BLOCKSIZE)" by (simp flip: k(2) add: distrib_left)
  moreover have "BLOCKSIZE \<le> BLOCKSIZE * k" using k(1) by simp
  ultimately have "BLOCKSIZE * k < 2 ^ 64 \<and> BLOCKSIZE * k - st mod BLOCKSIZE + en mod BLOCKSIZE = en - st \<and>
      st + (BLOCKSIZE * k - st mod BLOCKSIZE) = BLOCKSIZE * (en div BLOCKSIZE)"
    using block_split block_split(1) assms(2,3) by (rule span_arith)
  then show "BLOCKSIZE * k < 2 ^ 64" "BLOCKSIZE * k - st mod BLOCKSIZE + en mod BLOCKSIZE = en - st"
    "st + (BLOCKSIZE * k - st mod BLOCKSIZE) = BLOCKSIZE * (en div BLOCKSIZE)" by simp_all
qed

lemma write_span:
  assumes wf: "file_wf p f s" and o63: "unat offset < 2 ^ 63" and k: "0 < k" "BLOCKSIZE * k < 2 ^ 64"
    and tail: "m < BLOCKSIZE" and len: "BLOCKSIZE * k - unat offset mod BLOCKSIZE + m \<le> length buffer"
    and at: "unat offset + (BLOCKSIZE * k - unat offset mod BLOCKSIZE) = BLOCKSIZE * e" and e: "unat offset div BLOCKSIZE + k = e"
    and room: "e < length (blocks_of f) + length (tm_free s)"
  shows "\<exists>f' s'. (do { s \<leftarrow> write_blocks p offset 0 k buffer s;
       if m \<noteq> 0 then do { bs \<leftarrow> copy_from buffer (unat (4096 * of_nat k - off_rem offset)) m; block_write p e 1 0 bs s } else Some s }) = Some s' \<and>
     wrote p f s f' s' (unat offset) (take (BLOCKSIZE * k - unat offset mod BLOCKSIZE + m) buffer)"
proof -
  let ?n = "BLOCKSIZE * k - unat offset mod BLOCKSIZE"
  obtain f1 s1 where w1: "write_blocks p offset 0 k buffer s = Some s1" "wrote p f s f1 s1 (unat offset) (take ?n buffer)"
    using write_blocks_all [OF wf o63 k, of buffer] len room e by auto
  show ?thesis
  proof (cases "m = 0")
    case True
    then show ?thesis using w1 by auto
  next
    case False
    let ?bs = "take m (drop ?n buffer)"
    have lb: "length ?bs = m" "length (take ?n buffer) = ?n" using len by simp_all
    obtain f2 s2 where w2: "block_write p e 1 0 ?bs s1 = Some s2" "wrote p f1 s1 f2 s2 (BLOCKSIZE * e + 0) ?bs"
      using block_write_wrote [OF wrote_wf [OF w1(2)], of e 0 ?bs] wrote_room [OF w1(2)] room lb tail by auto
    have "wrote p f s f2 s2 (unat offset) (take ?n buffer @ ?bs)"
      using wrote_trans [OF w1(2), of f2 s2 ?bs] w2(2) lb at by simp
    moreover have "unat (4096 * of_nat k - off_rem offset) = ?n" using off_later [OF o63 _ k(2)] k(1) by simp
    ultimately show ?thesis using w1(1) w2(1) False len by (auto simp: copy_from_def take_add)
  qed
qed

lemma end_arith:
  assumes small: "unat offset + unat sz < 2 ^ 63"
  shows "unat (offset + sz) = unat offset + unat sz" "sint sz = int (unat sz)" "unat offset < 2 ^ 63"
    "unat ((offset + sz) div 4096) = (unat offset + unat sz) div BLOCKSIZE"
    "unat ((offset + sz) - (offset + sz) div 4096 * 4096) = (unat offset + unat sz) mod BLOCKSIZE"
    "((offset + sz) - (offset + sz) div 4096 * 4096 = 0) = ((unat offset + unat sz) mod BLOCKSIZE = 0)"
    "(off_div offset = (offset + sz) div 4096) = (unat offset div BLOCKSIZE = (unat offset + unat sz) div BLOCKSIZE)"
proof -
  show ue: "unat (offset + sz) = unat offset + unat sz" using small by (intro unat_add_lem [THEN iffD1]) simp
  show "sint sz = int (unat sz)" "unat offset < 2 ^ 63" using sint_small [of sz] small by simp_all
  show eb: "unat ((offset + sz) div 4096) = (unat offset + unat sz) div BLOCKSIZE" by (simp add: unat_div ue BLOCKSIZE_def)
  have es: "(offset + sz) - (offset + sz) div 4096 * 4096 = (offset + sz) mod 4096" by (simp add: minus_div_mult_eq_mod)
  show ues: "unat ((offset + sz) - (offset + sz) div 4096 * 4096) = (unat offset + unat sz) mod BLOCKSIZE"
    unfolding es by (simp add: unat_mod ue BLOCKSIZE_def)
  show "((offset + sz) - (offset + sz) div 4096 * 4096 = 0) = ((unat offset + unat sz) mod BLOCKSIZE = 0)"
    using ues by (metis unat_eq_zero)
  show "(off_div offset = (offset + sz) div 4096) = (unat offset div BLOCKSIZE = (unat offset + unat sz) div BLOCKSIZE)"
    using eb off_nonneg(3) [OF \<open>unat offset < 2 ^ 63\<close>] by (metis word_unat_eq_iff)
qed

lemma write_tmpfs_wrote:
  assumes wf: "file_wf p f s" and small: "unat offset + unat sz < 2 ^ 63" and len: "unat sz \<le> length buffer"
    and room: "(unat offset + unat sz) div BLOCKSIZE < length (blocks_of f) + length (tm_free s)"
    and start: "f0 = write_start (unat offset + unat sz) (tm_now s) f"
  shows "\<exists>f' s'. write_tmpfs p offset sz buffer s = Some (int (unat sz), s') \<and>
     wrote p f0 (set_ent p (TFile f0) s) f' s' (unat offset) (take (unat sz) buffer)"
proof -
  let ?o = "unat offset" and ?e = "unat offset + unat sz" and ?s = "set_ent p (TFile f0) s"
  note ar = end_arith [OF small]
  have wf0: "file_wf p f0 ?s" using file_wf_start [OF wf] start by simp
  have bl: "blocks_of f0 = blocks_of f" by (simp add: start write_start_def blocks_of_def)
  have f: "file_at p s = Some f" using wf by (simp add: file_wf_def)
  have f0: "(if tf_length f < ?e then f\<lparr>tf_atime := tm_now s, tf_mtime := tm_now s, tf_length := ?e\<rparr>
      else f\<lparr>tf_atime := tm_now s, tf_mtime := tm_now s\<rparr>) = f0"
    by (auto simp: start write_start_def max_def)
  show ?thesis
  proof (cases "?o div BLOCKSIZE = ?e div BLOCKSIZE")
    case True
    have "?o mod BLOCKSIZE + unat sz \<le> BLOCKSIZE"
      using block_split [of ?o] block_split [of ?e] unfolding True by linarith
    then have "?o mod BLOCKSIZE + length (take (unat sz) buffer) \<le> BLOCKSIZE" using len by simp
    from block_write_wrote [OF wf0 _ this, of "?o div BLOCKSIZE", unfolded block_split] obtain f' s'
      where "block_write p (?o div BLOCKSIZE) 1 (?o mod BLOCKSIZE) (take (unat sz) buffer) ?s = Some s'"
        "wrote p f0 ?s f' s' ?o (take (unat sz) buffer)"
      using room True bl by auto
    then show ?thesis
      using f f0 True ar(1-4,7) len off_nonneg(3,5) [OF ar(3)]
      by (intro exI [of _ f'] exI [of _ s']) (cases "tf_length f < ?e"; simp add: write_tmpfs_def Let_def copy_from_def)
  next
    case False
    define k where "k = ?e div BLOCKSIZE - ?o div BLOCKSIZE"
    note sp = span_blocks [OF False _ small k_def]
    obtain f' s' where "(do { s \<leftarrow> write_blocks p offset 0 k buffer ?s;
         if ?e mod BLOCKSIZE \<noteq> 0 then do { bs \<leftarrow> copy_from buffer (unat (4096 * of_nat k - off_rem offset)) (?e mod BLOCKSIZE);
           block_write p (?e div BLOCKSIZE) 1 0 bs s } else Some s }) = Some s'"
        "wrote p f0 ?s f' s' ?o (take (unat sz) buffer)"
      using write_span [OF wf0 ar(3) sp(1,3) block_split(2), of ?e buffer "?e div BLOCKSIZE"] sp len room bl by auto
    then show ?thesis
      using f f0 False ar off_nonneg(3) [OF ar(3)]
      by (intro exI [of _ f'] exI [of _ s']) (cases "tf_length f < ?e"; cases "?e mod BLOCKSIZE = 0"; simp add: write_tmpfs_def Let_def flip: k_def; simp add: bind_eq_Some_conv)
  qed
qed

text \<open>The \<open>n\<close> bytes of a file from a position on.\<close>

definition file_bytes :: "tmpfs_file \<Rightarrow> tmpfs \<Rightarrow> nat \<Rightarrow> nat \<Rightarrow> u8 list" where
  "file_bytes f s lo n = map (bbyte (blocks_of f) (tm_frames s)) [lo ..< lo + n]"

lemma length_file_bytes [simp]: "length (file_bytes f s lo n) = n"
  by (simp add: file_bytes_def)

lemma file_bytes_add: "file_bytes f s lo (m + n) = file_bytes f s lo m @ file_bytes f s (lo + m) n"
  using upt_add_eq_append [of lo "lo + m" n] by (simp add: file_bytes_def add.assoc)

lemma block_read_bytes:
  assumes "file_wf p f s" "b < length (blocks_of f)" "from + n \<le> BLOCKSIZE"
  shows "block_read p b from n s = Some (file_bytes f s (BLOCKSIZE * b + from) n)"
proof -
  have "tf_blocks f ! b = blocks_of f ! b" using assms(2) by (simp add: blocks_of_def)
  moreover have "take n (drop from (tm_frames s (blocks_of f ! b))) = file_bytes f s (BLOCKSIZE * b + from) n"
  proof (rule nth_equalityI)
    show "length (take n (drop from (tm_frames s (blocks_of f ! b)))) = length (file_bytes f s (BLOCKSIZE * b + from) n)"
      using assms(1,3) by (simp add: file_wf_def)
    fix i assume "i < length (take n (drop from (tm_frames s (blocks_of f ! b))))"
    then have i: "i < n" by simp
    then have "from + i < BLOCKSIZE" using assms(3) by simp
    then have "(BLOCKSIZE * b + (from + i)) div BLOCKSIZE = b" "(BLOCKSIZE * b + (from + i)) mod BLOCKSIZE = from + i" by simp_all
    then show "take n (drop from (tm_frames s (blocks_of f ! b))) ! i = file_bytes f s (BLOCKSIZE * b + from) n ! i"
      using i assms(1,3) by (simp add: file_bytes_def bbyte_def file_wf_def add.assoc)
  qed
  ultimately show ?thesis
    using assms length_blocks_of [OF assms(1)] by (simp add: block_read_def tmpfs_file_getset_block_def file_wf_def copy_from_def)
qed

lemma wr_next: "length bs \<le> length rest \<Longrightarrow> n = length xs \<Longrightarrow> wr_at (xs @ rest) n bs = Some ((xs @ bs) @ drop (length bs) rest)"
  by (simp add: wr_at_def)

lemma read_blocks_rest:
  assumes "file_wf p f s" "unat offset < 2 ^ 63" "1 \<le> r" "BLOCKSIZE * (r + k) < 2 ^ 64" "BLOCKSIZE * k \<le> length rest"
    "unat offset div BLOCKSIZE + r + k \<le> length (blocks_of f)" "m = BLOCKSIZE * r - unat offset mod BLOCKSIZE"
  shows "read_blocks p offset r k (file_bytes f s (unat offset) m @ rest) s =
    Some (file_bytes f s (unat offset) (m + BLOCKSIZE * k) @ drop (BLOCKSIZE * k) rest)"
  using assms
proof (induction k arbitrary: r m rest)
  case 0
  then show ?case by simp
next
  case (Suc k)
  let ?b = "unat offset div BLOCKSIZE + r"
  have om: "unat offset mod BLOCKSIZE < BLOCKSIZE" "BLOCKSIZE \<le> BLOCKSIZE * r" using block_split Suc.prems(3) by simp_all
  have r64: "BLOCKSIZE * r < 2 ^ 64" using Suc.prems(4) by (simp add: algebra_simps)
  have "BLOCKSIZE * ?b = BLOCKSIZE * (unat offset div BLOCKSIZE) + BLOCKSIZE * r" by (simp add: distrib_left)
  then have at: "unat offset + m = BLOCKSIZE * ?b" using block_split(1) [of "unat offset"] om Suc.prems(7) by linarith
  have "BLOCKSIZE * Suc r = BLOCKSIZE * r + BLOCKSIZE" by simp
  then have m': "m + BLOCKSIZE = BLOCKSIZE * Suc r - unat offset mod BLOCKSIZE" using om Suc.prems(7) by linarith
  have rd: "block_read p ?b 0 BLOCKSIZE s = Some (file_bytes f s (unat offset + m) BLOCKSIZE)"
    using block_read_bytes [OF Suc.prems(1), of ?b 0 BLOCKSIZE] Suc.prems(6) at by simp
  have wr: "wr_at (file_bytes f s (unat offset) m @ rest) m (file_bytes f s (unat offset + m) BLOCKSIZE) =
      Some (file_bytes f s (unat offset) (m + BLOCKSIZE) @ drop BLOCKSIZE rest)"
    using Suc.prems(5) by (subst wr_next) (simp_all add: file_bytes_add)
  have "read_blocks p offset (Suc r) k (file_bytes f s (unat offset) (m + BLOCKSIZE) @ drop BLOCKSIZE rest) s =
      Some (file_bytes f s (unat offset) (m + BLOCKSIZE + BLOCKSIZE * k) @ drop (BLOCKSIZE * k) (drop BLOCKSIZE rest))"
    using Suc.prems(2-6) m' by (intro Suc.IH [OF Suc.prems(1)]) simp_all
  then show ?case
    using Suc.prems(3,7) rd wr off_later [OF Suc.prems(2,3) r64] off_nonneg(3) [OF Suc.prems(2)]
    by (simp add: algebra_simps)
qed

lemma read_blocks_all:
  assumes "file_wf p f s" "unat offset < 2 ^ 63" "0 < k" "BLOCKSIZE * k < 2 ^ 64" "m = BLOCKSIZE * k - unat offset mod BLOCKSIZE"
    "m \<le> length buffer" "unat offset div BLOCKSIZE + k \<le> length (blocks_of f)"
  shows "read_blocks p offset 0 k buffer s = Some (file_bytes f s (unat offset) m @ drop m buffer)"
proof -
  let ?om = "unat offset mod BLOCKSIZE" and ?b = "unat offset div BLOCKSIZE"
  obtain j where j: "k = Suc j" using assms(3) by (cases k) auto
  have om: "?om < BLOCKSIZE" by (rule block_split)
  have m: "m = (BLOCKSIZE - ?om) + BLOCKSIZE * j" using assms(5) j om by simp
  have "block_read p ?b ?om (BLOCKSIZE - ?om) s = Some (file_bytes f s (unat offset) (BLOCKSIZE - ?om))"
    using block_read_bytes [OF assms(1), of ?b ?om "BLOCKSIZE - ?om", unfolded block_split] assms(7) j om by simp
  moreover have "wr_at buffer 0 (file_bytes f s (unat offset) (BLOCKSIZE - ?om)) =
      Some (file_bytes f s (unat offset) (BLOCKSIZE - ?om) @ drop (BLOCKSIZE - ?om) buffer)"
    using wr_next [of "file_bytes f s (unat offset) (BLOCKSIZE - ?om)" buffer 0 "[]"] assms(6) m by simp
  moreover have "read_blocks p offset 1 j (file_bytes f s (unat offset) (BLOCKSIZE - ?om) @ drop (BLOCKSIZE - ?om) buffer) s =
      Some (file_bytes f s (unat offset) (BLOCKSIZE - ?om + BLOCKSIZE * j) @ drop (BLOCKSIZE * j) (drop (BLOCKSIZE - ?om) buffer))"
    using assms m j by (intro read_blocks_rest) simp_all
  ultimately show ?thesis
    using j m off_first [OF assms(2)] off_nonneg(3,5) [OF assms(2)] by (simp add: add.commute)
qed

lemma read_span:
  assumes wf: "file_wf p f s" and o63: "unat offset < 2 ^ 63" and k: "0 < k" "BLOCKSIZE * k < 2 ^ 64"
    and tail: "m < BLOCKSIZE" and n: "n = BLOCKSIZE * k - unat offset mod BLOCKSIZE" and len: "n + m \<le> length buffer"
    and at: "unat offset + n = BLOCKSIZE * e" and e: "unat offset div BLOCKSIZE + k = e"
    and blocks: "unat offset + (n + m) \<le> BLOCKSIZE * length (blocks_of f)"
  shows "(do { buffer \<leftarrow> read_blocks p offset 0 k buffer s;
       if m \<noteq> 0 then do { bs \<leftarrow> block_read p e 0 m s; wr_at buffer (unat (4096 * of_nat k - off_rem offset)) bs } else Some buffer }) =
     Some (file_bytes f s (unat offset) (n + m) @ drop (n + m) buffer)"
proof -
  have "BLOCKSIZE * e + m \<le> BLOCKSIZE * length (blocks_of f)" using at blocks by simp
  then have el: "e \<le> length (blocks_of f)" "m \<noteq> 0 \<Longrightarrow> e < length (blocks_of f)"
    by (auto simp: BLOCKSIZE_def)
  have r: "read_blocks p offset 0 k buffer s = Some (file_bytes f s (unat offset) n @ drop n buffer)"
    using read_blocks_all [OF wf o63 k n, of buffer] len el e by simp
  have pos: "unat (4096 * of_nat k - off_rem offset) = n" using off_later [OF o63 _ k(2)] k(1) n by simp
  show ?thesis
  proof (cases "m = 0")
    case True
    then show ?thesis using r by simp
  next
    case False
    then have "block_read p e 0 m s = Some (file_bytes f s (unat offset + n) m)"
      using block_read_bytes [OF wf, of e 0 m] el tail at by simp
    moreover have "wr_at (file_bytes f s (unat offset) n @ drop n buffer) n (file_bytes f s (unat offset + n) m) =
        Some (file_bytes f s (unat offset) (n + m) @ drop (n + m) buffer)"
      using len by (subst wr_next) (simp_all add: file_bytes_add add.commute [of m n])
    ultimately show ?thesis using r pos False by simp
  qed
qed

lemma file_wf_atime:
  "file_wf p f s \<Longrightarrow> file_wf p (f\<lparr>tf_atime := t\<rparr>) (set_ent p (TFile (f\<lparr>tf_atime := t\<rparr>)) s)"
  by (auto simp: file_wf_def blocks_of_def)

lemma read_end:
  fixes offset sz :: u64
  assumes "unat offset + unat sz < 2 ^ 63" "unat offset < l" "n = min (unat sz) (l - unat offset)"
  shows "(if l < unat (offset + sz) then of_nat l else offset + sz) = offset + of_nat n"
proof -
  have e: "unat (offset + sz) = unat offset + unat sz" using end_arith(1) [OF assms(1)] .
  have l: "of_nat l = offset + of_nat (l - unat offset)" using assms(2) by (simp add: of_nat_diff)
  show ?thesis
  proof (cases "l < unat offset + unat sz")
    case True
    then have "n = l - unat offset" using assms(3) by simp
    then show ?thesis using True e by (simp add: l del: of_nat_diff)
  next
    case False
    then have "n = unat sz" using assms(3) by simp
    then show ?thesis using False e by simp
  qed
qed

lemma read_same_block:
  assumes "file_wf p f s" "unat offset div BLOCKSIZE = (unat offset + n) div BLOCKSIZE" "n \<noteq> 0" "n \<le> length buffer"
    "unat offset + n \<le> BLOCKSIZE * length (blocks_of f)"
  shows "(do { bs \<leftarrow> block_read p (unat offset div BLOCKSIZE) (unat offset mod BLOCKSIZE) n s; wr_at buffer 0 bs }) =
    Some (file_bytes f s (unat offset) n @ drop n buffer)"
proof -
  let ?o = "unat offset" and ?e = "unat offset + n"
  have m: "?o mod BLOCKSIZE + n \<le> BLOCKSIZE" using block_split [of ?o] block_split [of ?e] unfolding assms(2) by linarith
  have "?o < BLOCKSIZE * length (blocks_of f)" using assms(3,5) by simp
  then have "?o div BLOCKSIZE < length (blocks_of f)" by (simp add: BLOCKSIZE_def less_mult_imp_div_less mult.commute)
  then have "block_read p (?o div BLOCKSIZE) (?o mod BLOCKSIZE) n s = Some (file_bytes f s ?o n)"
    using block_read_bytes [OF assms(1) _ m, of "?o div BLOCKSIZE"] block_split(1) [of ?o] by simp
  moreover have "wr_at buffer 0 (file_bytes f s ?o n) = Some (file_bytes f s ?o n @ drop n buffer)"
    using wr_next [of "file_bytes f s ?o n" buffer 0 "[]"] assms(4) by simp
  ultimately show ?thesis by simp
qed

lemma read_across:
  assumes "file_wf p f s" "unat offset div BLOCKSIZE \<noteq> (unat offset + n) div BLOCKSIZE" "n \<le> length buffer"
    "unat offset + n \<le> BLOCKSIZE * length (blocks_of f)" "unat offset + n < 2 ^ 63"
    "k = (unat offset + n) div BLOCKSIZE - unat offset div BLOCKSIZE"
  shows "(do { buffer \<leftarrow> read_blocks p offset 0 k buffer s;
     if (unat offset + n) mod BLOCKSIZE \<noteq> 0 then do { bs \<leftarrow> block_read p ((unat offset + n) div BLOCKSIZE) 0 ((unat offset + n) mod BLOCKSIZE) s;
       wr_at buffer (unat (4096 * of_nat k - off_rem offset)) bs } else Some buffer }) =
   Some (file_bytes f s (unat offset) n @ drop n buffer)"
proof -
  note sp = span_blocks [OF assms(2) le_add1 assms(5,6)]
  have "unat offset < 2 ^ 63" using assms(5) by simp
  from read_span [OF assms(1) this sp(1,3) block_split(2) refl _ sp(5,2), of "unat offset + n" buffer]
  show ?thesis using sp(4) assms(3,4) by simp
qed

text \<open>What a read inside the file does once its end is known to be \<open>n\<close> bytes on.\<close>

lemma read_tmpfs_unfold:
  assumes "file_at p s = Some f" "unat offset < tf_length f"
    "(if tf_length f < unat (offset + sz) then of_nat (tf_length f) else offset + sz) = offset + n"
  shows "read_tmpfs p offset sz buffer s = (let s = set_ent p (TFile (f\<lparr>tf_atime := tm_now s\<rparr>)) s; e = offset + n in
      (if off_div offset = e div 4096 \<and> offset = e then Some (0, buffer, s)
       else if off_div offset = e div 4096 then do {
         buffer \<leftarrow> do { bs \<leftarrow> block_read p (unat (off_div offset)) (unat (offset mod 4096)) (unat (e - offset)) s; wr_at buffer 0 bs };
         Some (sint (e - offset), buffer, s)
       } else do {
         buffer \<leftarrow> do {
           buffer \<leftarrow> read_blocks p offset 0 (unat (e div 4096) - unat (off_div offset)) buffer s;
           if e - e div 4096 * 4096 \<noteq> 0 then do {
             bs \<leftarrow> block_read p (unat (e div 4096)) 0 (unat (e - e div 4096 * 4096)) s;
             wr_at buffer (unat (4096 * of_nat (unat (e div 4096) - unat (off_div offset)) - off_rem offset)) bs }
           else Some buffer };
         Some (sint (e - offset), buffer, s) }))"
  unfolding read_tmpfs_def assms(1) Option.bind.simps Let_def assms(3) using assms(2)
  by (simp only: Option.bind_assoc not_less [symmetric] not_not if_False simp_thms if_True)

lemma read_tmpfs_some:
  assumes wf: "file_wf p f s" and fits: "tf_length f \<le> BLOCKSIZE * length (blocks_of f)"
    and small: "unat offset + unat sz < 2 ^ 63" and len: "unat sz \<le> length buffer" and within: "unat offset < tf_length f"
    and n: "n = min (unat sz) (tf_length f - unat offset)"
  shows "read_tmpfs p offset sz buffer s =
    Some (int n, file_bytes f s (unat offset) n @ drop n buffer, set_ent p (TFile (f\<lparr>tf_atime := tm_now s\<rparr>)) s)"
proof -
  define g where "g = f\<lparr>tf_atime := tm_now s\<rparr>"
  define sz' where "sz' = (of_nat n :: u64)"
  let ?s = "set_ent p (TFile g) s" and ?o = "unat offset" and ?e = "unat offset + n"
  have wg: "file_wf p g ?s" using file_wf_atime [OF wf] by (simp add: g_def)
  have bg: "blocks_of g = blocks_of f" by (simp add: g_def blocks_of_def)
  then have fg: "file_bytes g ?s = file_bytes f s" by (simp add: file_bytes_def fun_eq_iff)
  have f: "file_at p s = Some f" using wf by (simp add: file_wf_def)
  have n63: "?e < 2 ^ 63" using small n by simp
  have usz: "unat sz' = n" using n63 by (simp add: sz'_def unat_of_nat)
  have small': "?o + unat sz' < 2 ^ 63" using n63 usz by simp
  note ar = end_arith [OF small', unfolded usz]
  have z: "(offset = offset + sz') = (n = 0)" using usz by (auto simp flip: unat_eq_zero)
  have lim: "n \<le> length buffer" "?e \<le> BLOCKSIZE * length (blocks_of g)" using fits n within bg len by simp_all
  note unf = read_tmpfs_unfold [OF f within read_end [OF small within n], folded sz'_def g_def, unfolded Let_def add_diff_cancel_left' usz ar z
    off_nonneg(3,5) [OF ar(3)]]
  show ?thesis
  proof (cases "?o div BLOCKSIZE = ?e div BLOCKSIZE")
    case True
    show ?thesis
    proof (cases "n = 0")
      case zero: True
      then show ?thesis using True unfolding unf by (simp add: file_bytes_def g_def)
    next
      case False
      then show ?thesis
        unfolding unf read_same_block [OF wg True False lim] using True by (simp add: fg flip: g_def)
    qed
  next
    case False
    show ?thesis
      unfolding unf read_across [OF wg False lim n63 refl] using False by (simp add: fg flip: g_def)
  qed
qed

lemma wrote_byte: "wrote p f s f' s' lo bytes \<Longrightarrow> i < BLOCKSIZE * length (blocks_of f') \<Longrightarrow> bbyte (blocks_of f') (tm_frames s') i =
    (if lo \<le> i \<and> i < lo + length bytes then bytes ! (i - lo) else bbyte (blocks_of f') (tm_frames s) i)"
  by (simp add: wrote_def)

lemma file_bytes_wrote:
  assumes "wrote p f s f' s' lo bytes"
  shows "file_bytes f' s' lo (length bytes) = bytes"
  using assms by (intro nth_equalityI) (auto simp: file_bytes_def wrote_def)

lemma wrote_start_fits:
  assumes "wrote p (write_start e t f) (set_ent p (TFile (write_start e t f)) s) f' s' lo bytes" "tf_length f \<le> BLOCKSIZE * length (blocks_of f)"
    "e = lo + length bytes"
  shows "tf_length f' = max (tf_length f) e" "tf_length f' \<le> BLOCKSIZE * length (blocks_of f')"
    "\<And>i. i < tf_length f \<Longrightarrow> \<not> (lo \<le> i \<and> i < e) \<Longrightarrow> bbyte (blocks_of f') (tm_frames s') i = bbyte (blocks_of f) (tm_frames s) i"
proof -
  have b: "blocks_of (write_start e t f) = blocks_of f" by (simp add: write_start_def blocks_of_def)
  obtain k where k: "blocks_of f' = blocks_of f @ take k (tm_free s)" using assms(1) b by (auto simp: wrote_def)
  show l: "tf_length f' = max (tf_length f) e" using assms(1) by (simp add: wrote_def write_start_def)
  have le: "BLOCKSIZE * length (blocks_of f) \<le> BLOCKSIZE * length (blocks_of f')" by (simp add: k)
  then show "tf_length f' \<le> BLOCKSIZE * length (blocks_of f')"
    using l wrote_length [OF assms(1)] order_trans [OF assms(2) le] assms(3) by simp
  fix i assume i: "i < tf_length f" "\<not> (lo \<le> i \<and> i < e)"
  then have "i < BLOCKSIZE * length (blocks_of f)" using assms(2) by simp
  then have "i div BLOCKSIZE < length (blocks_of f)" "i < BLOCKSIZE * length (blocks_of f')"
    using le by (simp_all add: BLOCKSIZE_def less_mult_imp_div_less mult.commute)
  moreover have "i < BLOCKSIZE * length (blocks_of f') \<Longrightarrow>
      bbyte (blocks_of f') (tm_frames s') i = bbyte (blocks_of f') (tm_frames s) i"
    using wrote_byte [OF assms(1), of i] assms(3) i(2) by (auto split: if_splits)
  ultimately show "bbyte (blocks_of f') (tm_frames s') i = bbyte (blocks_of f) (tm_frames s) i"
    by (simp add: bbyte_def k nth_append)
qed

text \<open>
  Property C8.  What is written to a file of the memory file system is read back: a write at any offset
  within the address range of files, with enough free frames, writes all of its bytes; the file is then as long as it was or
  as the end of the write, every other byte it had is unchanged, and a read at the same offset returns the bytes.
\<close>

theorem tmpfs_write_read:
  assumes "file_wf p f s" "tf_length f \<le> BLOCKSIZE * length (blocks_of f)" "unat offset + unat sz < 2 ^ 63" "length bytes = unat sz"
    "(unat offset + unat sz) div BLOCKSIZE < length (blocks_of f) + length (tm_free s)"
  shows "\<exists>f' s'. write_tmpfs p offset sz bytes s = Some (int (unat sz), s') \<and> file_wf p f' s' \<and>
    tf_length f' = max (tf_length f) (unat offset + unat sz) \<and> tf_length f' \<le> BLOCKSIZE * length (blocks_of f') \<and>
    (\<forall>i < tf_length f. \<not> (unat offset \<le> i \<and> i < unat offset + unat sz) \<longrightarrow> file_bytes f' s' i 1 = file_bytes f s i 1) \<and>
    (\<forall>buffer. length buffer = unat sz \<longrightarrow>
       (\<exists>s''. read_tmpfs p offset sz buffer s' = Some (int (unat sz), bytes, s'')))"
proof -
  define f0 where "f0 = write_start (unat offset + unat sz) (tm_now s) f"
  obtain f' s' where w: "write_tmpfs p offset sz bytes s = Some (int (unat sz), s')"
      "wrote p f0 (set_ent p (TFile f0) s) f' s' (unat offset) bytes"
    using write_tmpfs_wrote [OF assms(1,3) _ assms(5) f0_def, of bytes] assms(4) by auto
  note fits = wrote_start_fits [OF w(2) [unfolded f0_def] assms(2), unfolded assms(4), OF refl]
  have wf: "file_wf p f' s'" using wrote_wf [OF w(2)] .
  have "\<exists>s''. read_tmpfs p offset sz buffer s' = Some (int (unat sz), bytes, s'')" if b: "length buffer = unat sz" for buffer
  proof (cases "unat offset < tf_length f'")
    case True
    have n: "unat sz = min (unat sz) (tf_length f' - unat offset)" using fits(1) by simp
    show ?thesis
      using read_tmpfs_some [OF wf fits(2) assms(3) _ True n, of buffer] file_bytes_wrote [OF w(2)] assms(4) b by simp
  next
    case False
    then have "unat sz = 0" using fits(1) by simp
    moreover have "file_at p s' = Some f'" using wf by (simp add: file_wf_def)
    ultimately show ?thesis using False b assms(4) by (simp add: read_tmpfs_def Let_def)
  qed
  then show ?thesis using w(1) wf fits by (auto simp: file_bytes_def)
qed

lemma ex_tmpfs_wf: "file_wf 0x1000 ex_file ex_tmpfs" "blocks_of ex_file = []" "tf_length ex_file = 0" "tm_free ex_tmpfs = [7, 8]"
    "tf_block_count ex_file = 0"
  by (simp_all add: file_wf_def file_at_def ex_tmpfs_def ex_file_def blocks_of_def)

theorem tmpfs_write_read_witness:
  "\<exists>f' s'. write_tmpfs 0x1000 4000 3 [1, 2, 3] ex_tmpfs = Some (3, s') \<and> file_wf 0x1000 f' s' \<and> tf_length f' = 4003 \<and>
    (\<exists>s''. read_tmpfs 0x1000 4000 3 [0, 0, 0] s' = Some (3, [1, 2, 3], s''))"
proof -
  have "length [1, 2, 3 :: u8] = unat (3 :: u64)" "length [0, 0, 0 :: u8] = unat (3 :: u64)" by simp_all
  with tmpfs_write_read [OF ex_tmpfs_wf(1), of 4000 3 "[1, 2, 3]"] show ?thesis
    by (auto simp: ex_tmpfs_wf(2-4) BLOCKSIZE_def)
qed

text \<open>
  A write behind the end of an empty file does not clear what it skips: a read of the gap returns what the
  page frame held when it belonged to somebody else.
\<close>

theorem tmpfs_gap_discloses_frame:
  assumes "file_wf p f s" "tf_length f = 0" "blocks_of f = []" "tm_free s = fr # rest" "length bytes = unat sz" "0 < unat offset" "0 < unat sz"
    "unat offset + unat sz < BLOCKSIZE" "length buffer = unat offset"
  shows "\<exists>s' s''. write_tmpfs p offset sz bytes s = Some (int (unat sz), s') \<and>
    read_tmpfs p 0 offset buffer s' = Some (int (unat offset), take (unat offset) (tm_frames s fr), s'')"
proof -
  define f0 where "f0 = write_start (unat offset + unat sz) (tm_now s) f"
  have small: "unat offset + unat sz < 2 ^ 63" using assms(8) by (simp add: BLOCKSIZE_def)
  obtain f' s' where w: "write_tmpfs p offset sz bytes s = Some (int (unat sz), s')"
      "wrote p f0 (set_ent p (TFile f0) s) f' s' (unat offset) bytes"
    using write_tmpfs_wrote [OF assms(1) small _ _ f0_def, of bytes] assms(4,5,8) by auto
  note fits = wrote_start_fits [OF w(2) [unfolded f0_def] _, unfolded assms(2,5), OF _ refl, simplified]
  have wf: "file_wf p f' s'" using wrote_wf [OF w(2)] .
  have b0: "blocks_of f0 = []" using assms(3) by (simp add: f0_def write_start_def blocks_of_def)
  then obtain k where k: "blocks_of f' = take k (fr # rest)" using w(2) assms(4) by (auto simp: wrote_def)
  have "0 < length (blocks_of f')" using wrote_length [OF w(2)] assms(6) by (cases "blocks_of f'") auto
  then have fr: "blocks_of f' ! 0 = fr" using k by (cases k) auto
  have fl: "length (tm_frames s fr) = BLOCKSIZE" using assms(1) by (simp add: file_wf_def)
  have "file_bytes f' s' 0 (unat offset) = take (unat offset) (tm_frames s fr)"
  proof (rule nth_equalityI)
    show "length (file_bytes f' s' 0 (unat offset)) = length (take (unat offset) (tm_frames s fr))" using fl assms(8) by simp
    fix i assume "i < length (file_bytes f' s' 0 (unat offset))"
    then have i: "i < unat offset" "i < BLOCKSIZE" using assms(8) by simp_all
    then have "bbyte (blocks_of f') (tm_frames s') i = bbyte (blocks_of f') (tm_frames s) i"
      using w(2) wrote_length [OF w(2)] by (auto simp: wrote_def)
    then show "file_bytes f' s' 0 (unat offset) ! i = take (unat offset) (tm_frames s fr) ! i"
      using i fr by (simp add: file_bytes_def bbyte_def)
  qed
  moreover have "unat offset = min (unat offset) (tf_length f' - unat (0 :: u64))" "unat (0 :: u64) < tf_length f'"
    using fits(1) assms(6) by simp_all
  ultimately show ?thesis
    using w(1) read_tmpfs_some [OF wf fits(2), of 0 offset buffer "unat offset"] assms(8,9) small by simp
qed

theorem tmpfs_gap_discloses_frame_witness:
  "\<exists>s' s''. write_tmpfs 0x1000 2 1 [1] ex_tmpfs = Some (1, s') \<and> read_tmpfs 0x1000 0 2 [0, 0] s' = Some (2, [0xAA, 0xAA], s'')"
proof -
  have "take 2 (tm_frames ex_tmpfs 7) = [0xAA, 0xAA]" by (simp add: ex_tmpfs_def BLOCKSIZE_def numeral_2_eq_2)
  then show ?thesis
    using tmpfs_gap_discloses_frame [OF ex_tmpfs_wf(1,3,2,4), of "[1]" 1 2 "[0, 0]"] by (simp add: BLOCKSIZE_def)
qed

lemma block_write_overrun:
  assumes "file_wf p f s" "b < length (blocks_of f) + length (tm_free s)" "BLOCKSIZE < at + length bytes"
  shows "block_write p b 1 at bytes s = None"
proof -
  define k where "k = b + 1 - tf_block_count f"
  have k: "k \<le> length (tm_free s)" using assms(2) length_blocks_of [OF assms(1)] by (simp add: k_def)
  obtain fr s1 where "tmpfs_file_getset_block p b 1 s = Some (Some fr, s1)" "tm_frames s1 = tm_frames s"
    using getset_create [OF assms(1) k_def k, of 1] by (auto simp: fresh_frames_simps)
  then show ?thesis using assms(1,3) by (simp add: block_write_def wr_at_def file_wf_def)
qed

lemma off_negative:
  assumes "0 < k" "k < 4096" "offset = (- of_nat k :: u64)"
  shows "off_div offset = 0" "unat (offset mod 4096) = 4096 - k"
proof -
  have u: "unat (of_nat k :: u64) = k" using assms(2) by (simp add: unat_of_nat)
  have neg: "- offset = of_nat k" using assms(3) by simp
  have "(of_nat k :: u64) div 4096 = 0" using u assms(2) by (simp add: word_unat_eq_iff unat_div)
  moreover have "sint offset = - int k"
  proof -
    have "offset = word_of_int (- int k)" using assms(3) by simp
    then have "sint offset = signed_take_bit 63 (- int k)" by (simp only: signed_of_int) simp
    then show ?thesis using assms(2) by (simp add: signed_take_bit_int_eq_self)
  qed
  ultimately show "off_div offset = 0" using neg assms(1) by (simp add: off_div_def)
  have "offset = word_of_int (- int k)" using assms(3) by simp
  then have "uint offset = (- int k) mod 2 ^ 64" by (simp only: uint_word_of_int) simp
  then have "uint (offset mod 4096) = (- int k) mod 4096" by (simp add: uint_mod mod_mod_cancel)
  also have "\<dots> = 4096 - int k" using assms(1,2) by (simp add: zmod_zminus1_eq_if)
  finally show "unat (offset mod 4096) = 4096 - k" using assms(2) by (simp only: unat_eq_nat_uint)
qed

text \<open>
  Property C38.  A write with a negative offset leaves the page frame: with an offset of \<open>- k\<close>, less than a block
  before the start of the file, a write of more than \<open>k\<close> bytes is taken to lie in the first block, and copies past its end.
\<close>

theorem tmpfs_negative_offset_overruns:
  assumes "file_wf p f s" "0 < length (blocks_of f) + length (tm_free s)" "0 < k" "k < 4096" "k < n" "n < k + 4096" "length bytes = n"
  shows "write_tmpfs p (- of_nat k) (of_nat n) bytes s = None"
proof -
  let ?o = "- of_nat k :: u64"
  note off = off_negative [OF assms(3,4) refl]
  have e: "?o + of_nat n = of_nat (n - k)" using assms(5) by (simp add: of_nat_diff)
  have "unat (of_nat (n - k) :: u64) = n - k" using assms(4,6) by (simp add: unat_of_nat)
  then have d: "(of_nat (n - k) :: u64) div 4096 = 0" using assms(6) by (simp add: word_unat_eq_iff unat_div)
  have sz: "of_nat (n - k) - ?o = of_nat n" using assms(5) by (simp add: of_nat_diff)
  have un: "unat (of_nat n :: u64) = n" using assms(4,6) by (simp add: unat_of_nat)
  define f0 where "f0 = (let t = f\<lparr>tf_atime := tm_now s, tf_mtime := tm_now s\<rparr> in
    if tf_length t < unat (of_nat (n - k) :: u64) then t\<lparr>tf_length := unat (of_nat (n - k) :: u64)\<rparr> else t)"
  have wf: "file_wf p f0 (set_ent p (TFile f0) s)" "blocks_of f0 = blocks_of f"
    using assms(1) by (auto simp: f0_def Let_def file_wf_def blocks_of_def)
  have "block_write p 0 1 (4096 - k) bytes (set_ent p (TFile f0) s) = None"
    using assms(2,4,5,7) wf(2) by (intro block_write_overrun [OF wf(1)]) (simp_all add: BLOCKSIZE_def)
  moreover have "file_at p s = Some f" using assms(1) by (simp add: file_wf_def)
  ultimately show ?thesis
    unfolding write_tmpfs_def Let_def e sz off d un
    by (simp add: copy_from_def assms(7) f0_def Let_def)
qed

theorem tmpfs_negative_offset_overruns_witness:
  "write_tmpfs 0x1000 (- 100) 200 (replicate 200 0) ex_tmpfs = None"
  using tmpfs_negative_offset_overruns [OF ex_tmpfs_wf(1), of 100 200 "replicate 200 0"] by (simp add: ex_tmpfs_wf)

section \<open>Truncation\<close>

lemma getset_existing:
  assumes "file_wf p f s" "b < length (blocks_of f)"
  shows "tmpfs_file_getset_block p b c s = Some (Some (blocks_of f ! b), s)"
proof -
  have f: "file_at p s = Some f" "b < tf_block_count f" "tf_block_count f \<le> tf_pointers f"
    using assms length_blocks_of [OF assms(1)] by (auto simp: file_wf_def)
  then have "set_ent p (TFile f) s = s"
    by (auto simp: set_ent_def file_at_def fun_upd_idem_iff split: option.splits tmpfs_ent.splits)
  moreover have "embiggen_loop b f = Some f" "block_loop b c f s = Some (f, s)"
    using f by (simp_all add: embiggen_loop.simps block_loop.simps)
  moreover have "tf_blocks f ! b = blocks_of f ! b" using f(2) by (simp add: blocks_of_def)
  ultimately show ?thesis using f by (simp add: tmpfs_file_getset_block_def)
qed

lemma block_write_via:
  assumes "tmpfs_file_getset_block p b c s = Some (r, s1)" "tmpfs_file_getset_block p b 1 s1 = Some (r, s1)"
  shows "block_write p b c at bytes s = block_write p b 1 at bytes s1"
  using assms by (simp add: block_write_def)

lemma truncate_arith:
  fixes a :: nat
  assumes "a + r = l" "r < B" "c + e = sz" "e < B" "l < sz" "same \<Longrightarrow> a = c" "\<not> same \<Longrightarrow> a + B \<le> c" "z = (if same then e else B) - r"
  shows "r + z \<le> B \<and> l + z = min sz (a + B)"
  using assms by (cases same) auto

lemma fresh_bytes:
  assumes "distinct (old @ new)" "i < BLOCKSIZE * length (old @ new)"
  shows "bbyte (old @ new) (fresh_frames 2 new fr) i = (if i < BLOCKSIZE * length old then bbyte old fr i else 0)"
proof (cases "i < BLOCKSIZE * length old")
  case True
  then have "i div BLOCKSIZE < length old" by (simp add: BLOCKSIZE_def less_mult_imp_div_less mult.commute)
  moreover from this have "old ! (i div BLOCKSIZE) \<notin> set new" using assms(1) nth_mem [of "i div BLOCKSIZE" old] by (auto simp: disjoint_iff)
  ultimately show ?thesis using True by (simp add: bbyte_def nth_append fresh_frames_def)
next
  case False
  have "i div BLOCKSIZE < length (old @ new)" "length old \<le> i div BLOCKSIZE"
    using assms(2) False by (simp_all add: BLOCKSIZE_def less_mult_imp_div_less mult.commute less_eq_div_iff_mult_less_eq)
  then have "(old @ new) ! (i div BLOCKSIZE) \<in> set new" by (simp add: nth_append)
  then show ?thesis using False by (simp add: bbyte_def fresh_frames_def) (simp add: BLOCKSIZE_def)
qed

text \<open>The blocks up to the new end exist after the first step; the old last block is then cleared behind the old end.\<close>

lemma truncate_clears:
  assumes wf: "file_wf p f s" and lim: "tf_length f \<le> BLOCKSIZE * length (blocks_of f)" "length (blocks_of f) \<le> tf_length f div BLOCKSIZE + 1"
    and grow: "tf_length f < sz" and room: "sz div BLOCKSIZE < length (blocks_of f) + length (tm_free s)"
    and got: "tmpfs_file_getset_block p (sz div BLOCKSIZE) 2 s = Some (r, s1)" "file_wf p f1 s1"
      "blocks_of f1 = blocks_of f @ new" "length (blocks_of f1) = max (length (blocks_of f)) (sz div BLOCKSIZE + 1)"
      "tm_frames s1 = fresh_frames 2 new (tm_frames s)" "tf_length f1 = tf_length f"
    and z: "z = (if tf_length f div BLOCKSIZE = sz div BLOCKSIZE then sz mod BLOCKSIZE else BLOCKSIZE) - tf_length f mod BLOCKSIZE"
  shows "\<exists>f2 s2. block_write p (tf_length f div BLOCKSIZE) 1 (tf_length f mod BLOCKSIZE) (replicate z 0) s1 = Some s2 \<and>
    file_wf p f2 s2 \<and> tf_length f2 = tf_length f \<and> sz \<le> BLOCKSIZE * length (blocks_of f2) \<and>
    (\<forall>i < sz. bbyte (blocks_of f2) (tm_frames s2) i = (if i < tf_length f then bbyte (blocks_of f) (tm_frames s) i else 0))"
proof -
  let ?l = "tf_length f" and ?b = "tf_length f div BLOCKSIZE"
  have le: "?b \<le> sz div BLOCKSIZE" using grow by (simp add: div_le_mono)
  have bl: "?b < length (blocks_of f1)" using got(4) le by simp
  have "?b \<noteq> sz div BLOCKSIZE \<Longrightarrow> BLOCKSIZE * Suc ?b \<le> BLOCKSIZE * (sz div BLOCKSIZE)" using le by (intro mult_le_mono2) simp
  then have zb: "?l mod BLOCKSIZE + z \<le> BLOCKSIZE \<and> ?l + z = min sz (BLOCKSIZE * ?b + BLOCKSIZE)"
    by (intro truncate_arith [OF block_split block_split grow _ _ z]) simp_all
  obtain f2 s2 where w: "block_write p ?b 1 (?l mod BLOCKSIZE) (replicate z 0) s1 = Some s2" "wrote p f1 s1 f2 s2 ?l (replicate z 0)"
    using block_write_wrote [OF got(2), of ?b "?l mod BLOCKSIZE" "replicate z 0", unfolded block_split] bl zb by auto
  obtain k where k: "blocks_of f2 = blocks_of f1 @ k" using w(2) by (auto simp: wrote_def)
  have "sz < BLOCKSIZE * Suc (sz div BLOCKSIZE)" using block_split [of sz] unfolding mult_Suc_right by linarith
  also have "\<dots> \<le> BLOCKSIZE * length (blocks_of f1)" using got(4) by (intro mult_le_mono2) simp
  finally have sz1: "sz < BLOCKSIZE * length (blocks_of f1)" .
  have sz2: "BLOCKSIZE * length (blocks_of f1) \<le> BLOCKSIZE * length (blocks_of f2)" by (simp add: k)
  have d: "distinct (blocks_of f @ new)" using got(2,3) by (auto simp: file_wf_def)
  have "bbyte (blocks_of f2) (tm_frames s2) i = (if i < ?l then bbyte (blocks_of f) (tm_frames s) i else 0)" if i: "i < sz" for i
  proof -
    have il: "i < BLOCKSIZE * length (blocks_of f1)" using i sz1 by simp
    then have "i div BLOCKSIZE < length (blocks_of f1)" by (simp add: BLOCKSIZE_def less_mult_imp_div_less mult.commute)
    then have "bbyte (blocks_of f2) (tm_frames s1) i = bbyte (blocks_of f1) (tm_frames s1) i" by (simp add: bbyte_def k nth_append)
    also have "\<dots> = (if i < BLOCKSIZE * length (blocks_of f) then bbyte (blocks_of f) (tm_frames s) i else 0)"
      using fresh_bytes [OF d, of i] il by (simp add: got(3,5))
    finally have old: "bbyte (blocks_of f2) (tm_frames s1) i = (if i < BLOCKSIZE * length (blocks_of f) then bbyte (blocks_of f) (tm_frames s) i else 0)" .
    have "BLOCKSIZE * length (blocks_of f) \<le> BLOCKSIZE * (?b + 1)" using lim(2) by (intro mult_le_mono2)
    then have "i < BLOCKSIZE * length (blocks_of f) \<Longrightarrow> ?l \<le> i \<Longrightarrow> i < ?l + z" using zb i by simp
    then show ?thesis
      using wrote_byte [OF w(2), of i] old il sz2 lim(1) by auto
  qed
  moreover have "tf_length f2 = tf_length f" using w(2) got(6) by (simp add: wrote_def)
  ultimately show ?thesis using w(1) wrote_wf [OF w(2)] order_trans [OF less_imp_le [OF sz1] sz2] by blast
qed

lemma last_block_used: "n \<le> BLOCKSIZE * m \<Longrightarrow> n mod BLOCKSIZE \<noteq> 0 \<Longrightarrow> n div BLOCKSIZE < m"
  by (metis dual_order.order_iff_strict less_mult_imp_div_less mod_mult_self1_is_0 mult.commute)

text \<open>
  Property C24.  Making a file longer fills it with zeros: after \<^verbatim>\<open>truncate_tmpfs\<close> to a greater length the file has that
  length, the bytes it had, and zeros behind them.  At most one block may be allocated behind the last byte; the frames needed are free.
\<close>

theorem truncate_tmpfs_grows_with_zeros:
  assumes "file_wf p f s" "tf_length f \<le> BLOCKSIZE * length (blocks_of f)" "length (blocks_of f) \<le> tf_length f div BLOCKSIZE + 1"
    "tf_length f < sz" "sz div BLOCKSIZE < length (blocks_of f) + length (tm_free s)"
  shows "\<exists>f' s'. truncate_tmpfs p t sz s = Some (0, s') \<and> file_wf p f' s' \<and> tf_length f' = sz \<and> sz \<le> BLOCKSIZE * length (blocks_of f') \<and>
    file_bytes f' s' 0 sz = file_bytes f s 0 (tf_length f) @ replicate (sz - tf_length f) 0"
proof -
  let ?b = "tf_length f div BLOCKSIZE" and ?nb = "sz div BLOCKSIZE" and ?r = "tf_length f mod BLOCKSIZE"
  define z where "z = (if ?b = ?nb then sz mod BLOCKSIZE else BLOCKSIZE) - ?r"
  define k where "k = ?nb + 1 - tf_block_count f"
  have lb: "length (blocks_of f) = tf_block_count f" by (rule length_blocks_of [OF assms(1)])
  have k: "k \<le> length (tm_free s)" using assms(5) lb by (simp add: k_def)
  obtain f1 s1 where got: "tmpfs_file_getset_block p ?nb 2 s = Some (Some (blocks_of f1 ! ?nb), s1)" "file_wf p f1 s1"
      "blocks_of f1 = blocks_of f @ take k (tm_free s)" "length (blocks_of f1) = max (length (blocks_of f)) (?nb + 1)"
      "tm_frames s1 = fresh_frames 2 (take k (tm_free s)) (tm_frames s)" "tf_length f1 = tf_length f"
    using getset_create [OF assms(1) k_def k, of 2] k lb by (auto simp: k_def)
  from truncate_clears [OF assms got z_def] obtain f2 s2 where w: "block_write p ?b 1 ?r (replicate z 0) s1 = Some s2"
      "file_wf p f2 s2" "tf_length f2 = tf_length f" "sz \<le> BLOCKSIZE * length (blocks_of f2)"
      "\<And>i. i < sz \<Longrightarrow> bbyte (blocks_of f2) (tm_frames s2) i = (if i < tf_length f then bbyte (blocks_of f) (tm_frames s) i else 0)"
    by auto
  have bl: "?b < length (blocks_of f1)" using got(4) div_le_mono [of "tf_length f" sz BLOCKSIZE] assms(4) by simp
  have ex: "tmpfs_file_getset_block p ?b c s1 = Some (Some (blocks_of f1 ! ?b), s1)" for c by (rule getset_existing [OF got(2) bl])
  have same: "block_write p ?b (if ?r \<noteq> 0 then 0 else 2) ?r (replicate z 0) s = Some s2" if b: "?b = ?nb"
  proof (cases "?r = 0")
    case True
    then show ?thesis using block_write_via [OF _ ex, of 2 s ?r "replicate z 0"] got(1) w(1) b by simp
  next
    case False
    have "?b < length (blocks_of f)" by (rule last_block_used [OF assms(2) False])
    then have "s1 = s" using got(1) getset_existing [OF assms(1), of ?nb 2] b by simp
    then show ?thesis using False block_write_via [OF ex ex, of 0 ?r "replicate z 0"] w(1) by simp
  qed
  have apart: "block_write p ?b 0 ?r (replicate z 0) s1 = Some s2" using block_write_via [OF ex ex, of 0 ?r "replicate z 0"] w(1) by simp
  define f' where "f' = f2\<lparr>tf_length := sz, tf_mtime := t\<rparr>"
  have f: "file_at p s = Some f" "file_at p s2 = Some f2" using assms(1) w(2) by (simp_all add: file_wf_def)
  have tr: "truncate_tmpfs p t sz s = Some (0, set_ent p (TFile f') s2)"
    unfolding truncate_tmpfs_def Let_def minus_div_mult_eq_mod
    using assms(4) f same apart got(1) by (cases "?b = ?nb") (simp_all add: z_def f'_def)
  moreover have "file_wf p f' (set_ent p (TFile f') s2)" "blocks_of f' = blocks_of f2" "tf_length f' = sz"
    using w(2) by (auto simp: file_wf_def f'_def blocks_of_def)
  moreover have "file_bytes f' (set_ent p (TFile f') s2) 0 sz = file_bytes f s 0 (tf_length f) @ replicate (sz - tf_length f) 0"
    using w(5) assms(4) \<open>blocks_of f' = blocks_of f2\<close> by (intro nth_equalityI) (auto simp: file_bytes_def nth_append)
  ultimately show ?thesis using w(4) by (intro exI [of _ f'] exI [of _ "set_ent p (TFile f') s2"]) simp
qed

theorem truncate_tmpfs_grows_with_zeros_witness:
  "\<exists>f' s'. truncate_tmpfs 0x1000 9 4096 ex_tmpfs = Some (0, s') \<and> file_wf 0x1000 f' s' \<and> tf_length f' = 4096 \<and>
     file_bytes f' s' 0 4096 = replicate 4096 0"
  using truncate_tmpfs_grows_with_zeros [OF ex_tmpfs_wf(1), of 4096 9]
  by (auto simp: ex_tmpfs_wf(2-4) BLOCKSIZE_def file_bytes_def)

section \<open>Directory entries\<close>

text \<open>The names in a directory, and that its entries exist with different names.\<close>

definition name_of :: "tmpfs \<Rightarrow> addr \<Rightarrow> u8 list" where
  "name_of s p = (case tm_ents s p of Some e \<Rightarrow> ent_name e | None \<Rightarrow> [])"

definition dir_wf :: "addr \<Rightarrow> tmpfs_dir \<Rightarrow> tmpfs \<Rightarrow> bool" where
  "dir_wf dir d s \<longleftrightarrow> list_at dir s = Some d \<and> (\<forall>p \<in> set (td_files d). tm_ents s p \<noteq> None \<and> p \<noteq> dir) \<and>
     distinct (map (name_of s) (td_files d))"

lemma list_at_dir: "list_at dir s = Some d \<Longrightarrow> tm_ents s dir = Some (TDir d) \<and> \<not> td_files_freed d"
  by (auto simp: list_at_def dir_at_def split: option.splits tmpfs_ent.splits if_splits)

lemma list_at_set [simp]: "list_at dir (set_ent dir (TDir d) s) = (if td_files_freed d then None else Some d)"
  by (simp add: list_at_def dir_at_def)

lemma list_at_other [simp]: "q \<noteq> dir \<Longrightarrow> list_at dir (set_ent q e s) = list_at dir s"
  by (simp add: list_at_def dir_at_def)

text \<open>The search returns the first entry whose name is accepted.\<close>

lemma find_ent_spec:
  assumes "\<forall>p \<in> set ps. tm_ents s p \<noteq> None"
  shows "find_ent m ps s = Some (case find (\<lambda>i. m (name_of s (ps ! i))) [0..<length ps] of None \<Rightarrow> None | Some i \<Rightarrow> Some (i, ps ! i))"
  using assms
proof (induction ps)
  case Nil
  then show ?case by simp
next
  case (Cons p ps)
  then obtain e where e: "tm_ents s p = Some e" by auto
  have up: "[0..<length (p # ps)] = 0 # map Suc [0..<length ps]" by (simp only: map_Suc_upt) (simp add: upt_conv_Cons del: upt_Suc)
  have sh: "find P (map Suc xs) = map_option Suc (find (P \<circ> Suc) xs)" for P xs by (induction xs) auto
  show ?case
    unfolding up using Cons e by (simp add: name_of_def sh comp_def split: option.splits)
qed

lemma find_ent_none:
  assumes "\<forall>p \<in> set ps. tm_ents s p \<noteq> None"
  shows "find_ent m ps s = Some None \<longleftrightarrow> (\<forall>p \<in> set ps. \<not> m (name_of s p))"
  unfolding find_ent_spec [OF assms] by (fastforce simp: find_None_iff find_Some_iff in_set_conv_nth split: option.splits)

lemma find_ent_cong:
  "\<forall>p \<in> set ps. tm_ents s' p = tm_ents s p \<Longrightarrow> find_ent m ps s' = find_ent m ps s"
proof (induction ps)
  case (Cons p ps)
  then show ?case by (cases "tm_ents s p") simp_all
qed simp

lemma find_ent_append:
  "find_ent m (ps @ [q]) s = (case find_ent m ps s of None \<Rightarrow> None | Some (Some r) \<Rightarrow> Some (Some r)
     | Some None \<Rightarrow> (case tm_ents s q of None \<Rightarrow> None | Some e \<Rightarrow> Some (if m (ent_name e) then Some (length ps, q) else None)))"
proof (induction ps)
  case Nil
  then show ?case by (cases "tm_ents s q") simp_all
next
  case (Cons p ps)
  then show ?case by (cases "tm_ents s p"; cases "find_ent m ps s") (auto split: option.splits)
qed

lemma find_ent_same_none: "dir_wf dir d s \<Longrightarrow> find_ent (same_name name) (td_files d) s = Some None \<longleftrightarrow> name \<notin> name_of s ` set (td_files d)"
  by (subst find_ent_none) (auto simp: dir_wf_def)

lemma find_ent_total: "dir_wf dir d s \<Longrightarrow> \<exists>r. find_ent m (td_files d) s = Some r"
  by (subst find_ent_spec) (auto simp: dir_wf_def)

lemma find_ent_mem: "find_ent m ps s = Some (Some (i, p)) \<Longrightarrow> p \<in> set ps \<and> i < length ps"
proof (induction ps arbitrary: i)
  case (Cons q ps)
  then show ?case by (fastforce split: Option.bind_splits if_splits)
qed simp

text \<open>Looking a name up gives the same node when the search and the entry it finds are the same.\<close>

lemma finddir_same:
  assumes "list_at dir s = Some d" "list_at dir s' = Some d'" "find_ent (same_name name) (td_files d') s' = find_ent (same_name name) (td_files d) s"
    "\<And>p. p \<in> set (td_files d) \<Longrightarrow> tm_ents s' p = tm_ents s p"
  shows "finddir_tmpfs dir name s' = finddir_tmpfs dir name s"
proof (cases "find_ent (same_name name) (td_files d) s")
  case None
  then show ?thesis using assms by (simp add: finddir_tmpfs_def)
next
  case (Some r)
  then show ?thesis using assms find_ent_mem [of "same_name name" "td_files d" s]
    by (cases r) (auto simp: finddir_tmpfs_def)
qed

text \<open>A directory with one more entry, an object that was not there before.\<close>

lemma dir_wf_add:
  assumes wf: "dir_wf dir d s" and new: "tm_ents s q = None" "ent_name e \<notin> name_of s ` set (td_files d)"
  defines "s' \<equiv> set_ent dir (TDir (d\<lparr>td_files := td_files d @ [q]\<rparr>)) (set_ent q e s)"
  shows "add_ent dir q (set_ent q e s) = Some s'" "dir_wf dir (d\<lparr>td_files := td_files d @ [q]\<rparr>) s'"
    "find_ent m (td_files d @ [q]) s' = (case find_ent m (td_files d) s of Some None \<Rightarrow> Some (if m (ent_name e) then Some (length (td_files d), q) else None) | r \<Rightarrow> r)"
    "\<And>p. p \<in> set (td_files d) \<Longrightarrow> tm_ents s' p = tm_ents s p" "tm_ents s' q = Some e"
proof -
  have d: "list_at dir s = Some d" "tm_ents s dir = Some (TDir d)" "\<not> td_files_freed d"
    using wf list_at_dir [of dir s d] by (auto simp: dir_wf_def)
  have q: "q \<noteq> dir" "q \<notin> set (td_files d)" using new(1) d(2) wf by (auto simp: dir_wf_def)
  show "add_ent dir q (set_ent q e s) = Some s'" using d q by (simp add: add_ent_def s'_def)
  show same: "\<And>p. p \<in> set (td_files d) \<Longrightarrow> tm_ents s' p = tm_ents s p" using q wf by (auto simp: s'_def dir_wf_def)
  show qe: "tm_ents s' q = Some e" using q by (simp add: s'_def)
  have names: "map (name_of s') (td_files d) = map (name_of s) (td_files d)" using same by (simp add: name_of_def)
  have "name_of s' q = ent_name e" using qe by (simp add: name_of_def)
  then have "distinct (map (name_of s') (td_files d @ [q]))"
    using wf new(2) names q(2) unfolding map_append names by (simp add: dir_wf_def)
  then show "dir_wf dir (d\<lparr>td_files := td_files d @ [q]\<rparr>) s'"
    using d q wf same qe unfolding dir_wf_def by (auto simp: s'_def)
  show "find_ent m (td_files d @ [q]) s' = (case find_ent m (td_files d) s of Some None \<Rightarrow> Some (if m (ent_name e) then Some (length (td_files d), q) else None) | r \<Rightarrow> r)"
    using find_ent_cong [of "td_files d" s' s m] same qe by (auto simp: find_ent_append split: option.splits)
qed

text \<open>
  Property C29.  Creating a file in a directory: when the name is taken the call fails with \<^verbatim>\<open>EEXIST\<close> and changes
  nothing.  Otherwise the directory has one more entry, its names are still all different, the name leads to
  the new file with the mode and the owner it was given, and every other name leads where it did.
\<close>

theorem create_tmpfs_finds:
  assumes wf: "dir_wf dir d s" and mem: "tm_malloc s = q # rest" "q \<noteq> NULL" "tm_ents s q = None" and name: "length name < 256"
  shows "if name \<in> name_of s ` set (td_files d) then create_tmpfs pr dir mount name perm s = Some (- EEXIST, None, s)
    else \<exists>node s' d'. create_tmpfs pr dir mount name perm s = Some (0, Some node, s') \<and> dir_wf dir d' s' \<and> td_files d' = td_files d @ [q] \<and>
      finddir_tmpfs dir name s' = Some (Some node) \<and> tn_inode node = q \<and> n_mask node = perm \<and> n_uid node = p_user pr \<and> n_gid node = p_user_group pr \<and>
      (\<forall>other. other \<noteq> name \<longrightarrow> finddir_tmpfs dir other s' = finddir_tmpfs dir other s)"
proof (cases "name \<in> name_of s ` set (td_files d)")
  case True
  then obtain r where "find_ent (same_name name) (td_files d) s = Some (Some r)"
    using find_ent_same_none [OF wf, of name] find_ent_total [OF wf, of "same_name name"] by (metis option.exhaust)
  then show ?thesis using True wf by (simp add: create_tmpfs_def dir_wf_def)
next
  case False
  let ?s = "s\<lparr>tm_malloc := rest\<rparr>"
  define t where "t = (tmpfs_file_new name ?s)\<lparr>tf_mount := mount, tf_mask := perm, tf_uid := p_user pr, tf_gid := p_user_group pr\<rparr>"
  have f: "find_ent m ps ?s = find_ent m ps s" for m ps by (rule find_ent_cong) simp
  have nm: "name_of ?s = name_of s" by (simp add: name_of_def fun_eq_iff)
  have la: "list_at p ?s = list_at p s" for p by (simp add: list_at_def dir_at_def)
  have wf': "dir_wf dir d ?s" using wf by (simp add: dir_wf_def nm la)
  have tn: "ent_name (TFile t) = name" by (simp add: t_def tmpfs_file_new_def)
  then have new: "ent_name (TFile t) \<notin> name_of ?s ` set (td_files d)" using False nm by simp
  define s' where "s' = set_ent dir (TDir (d\<lparr>td_files := td_files d @ [q]\<rparr>)) (set_ent q (TFile t) ?s)"
  note add = dir_wf_add [OF wf' _ new, of q, folded s'_def]
  have e: "tm_ents ?s q = None" using mem(3) by simp
  have ld: "list_at dir s = Some d" "list_at dir s' = Some (d\<lparr>td_files := td_files d @ [q]\<rparr>)"
    using wf add(2) [OF e] by (simp_all add: dir_wf_def)
  have none: "find_ent (same_name name) (td_files d) s = Some None" using find_ent_same_none [OF wf, of name] False by simp
  obtain node where node: "tmpfs_from_file q t = Some node" "tn_inode node = q" "n_mask node = perm" "n_uid node = p_user pr" "n_gid node = p_user_group pr"
    using name by (simp add: tmpfs_from_file_def t_def tmpfs_file_new_def name_field_def)
  have "create_tmpfs pr dir mount name perm s = Some (0, Some node, s')"
    using ld(1) none mem add(1) [OF e] node(1) by (simp add: create_tmpfs_def tm_alloc_def t_def)
  moreover have "finddir_tmpfs dir name s' = Some (Some node)"
    using ld(2) none add(3) [OF e, of "same_name name"] f tn add(5) [OF e] node(1)
    by (simp add: finddir_tmpfs_def) (simp add: t_def tmpfs_file_new_def)
  moreover have "finddir_tmpfs dir other s' = finddir_tmpfs dir other s" if "other \<noteq> name" for other
    using add(3) [OF e, of "same_name other"] add(4) [OF e] f tn that
    by (intro finddir_same [OF ld]) (auto split: option.splits)
  ultimately show ?thesis using add(2) [OF e] node False by auto
qed

lemma ex_dir_wf: "dir_wf 0x2000 (ex_dir [] [0x1000] 0) ex_tmpfs" "tm_malloc ex_tmpfs = 0x3000 # [0x4000]" "tm_ents ex_tmpfs 0x3000 = None"
    "name_of ex_tmpfs ` set (td_files (ex_dir [] [0x1000] 0)) = {[0x61]}"
  by (simp_all add: dir_wf_def list_at_def dir_at_def ex_tmpfs_def ex_dir_def name_of_def ex_file_def)

theorem create_tmpfs_finds_witness:
  "create_tmpfs \<lparr>p_user = 1, p_user_group = 2, p_real_user = 1, p_real_user_group = 2, p_groups = [], p_wd_name = []\<rparr> 0x2000 0 [0x61] 0x1A4 ex_tmpfs
     = Some (- EEXIST, None, ex_tmpfs) \<and>
   (\<exists>node s'. create_tmpfs \<lparr>p_user = 1, p_user_group = 2, p_real_user = 1, p_real_user_group = 2, p_groups = [], p_wd_name = []\<rparr> 0x2000 0 [0x62] 0x1A4 ex_tmpfs
     = Some (0, Some node, s') \<and> finddir_tmpfs 0x2000 [0x62] s' = Some (Some node) \<and> n_uid node = 1)"
proof -
  let ?pr = "\<lparr>p_user = 1, p_user_group = 2, p_real_user = 1, p_real_user_group = 2, p_groups = [], p_wd_name = []\<rparr>"
  have "(0x3000 :: addr) \<noteq> NULL" by simp
  note c = create_tmpfs_finds [OF ex_dir_wf(1,2) this ex_dir_wf(3), unfolded ex_dir_wf(4), where pr = ?pr and mount = 0 and perm = "0x1A4"]
  show ?thesis using c [of "[0x61]"] c [of "[0x62]"] by auto
qed

lemma release_frames_ents [simp]: "tm_ents (release_frames bs s) = tm_ents s"
  by (induction bs s rule: release_frames.induct) simp_all

lemma tmpfs_file_free_ents: "tmpfs_file_free t s = Some s' \<Longrightarrow> tm_ents s' = tm_ents s"
  by (auto simp: tmpfs_file_free_def split: if_splits)

lemma finddir_inode:
  assumes "list_at dir s = Some d" "find_ent (same_name name) (td_files d) s = Some (Some (i, p))" "finddir_tmpfs dir name s = Some (Some node)"
  shows "tn_inode node = p"
  using assms by (auto simp: finddir_tmpfs_def tmpfs_from_dir_def tmpfs_from_link_def tmpfs_from_file_def
    split: Option.bind_splits tmpfs_ent.splits if_splits)

lemma unlink_frees:
  assumes "list_at dir s = Some d" "find_ent (same_name name) (td_files d) s = Some (Some (i, p))" "unlink_tmpfs dir name s = Some (0, s')"
  shows "tm_ents s' p = None"
proof -
  have "p \<noteq> dir" if "list_at dir (free_ent p s0) = Some d0" for s0 d0
    using that by (auto simp: list_at_def dir_at_def free_ent_def)
  then show ?thesis
    using assms by (auto simp: unlink_tmpfs_def Let_def free_ent_def
      split: Option.bind_splits tmpfs_ent.splits if_splits)
qed

text \<open>
  Property C37.  Removing a name destroys the object even while nodes still refer to it: after a successful
  \<^verbatim>\<open>unlink_tmpfs\<close>, reading or writing through a node that was looked up before uses freed memory.
\<close>

theorem unlink_tmpfs_leaves_dangling_node:
  assumes "finddir_tmpfs dir name s = Some (Some node)" "unlink_tmpfs dir name s = Some (0, s')"
  shows "read_tmpfs (tn_inode node) offset sz buffer s' = None \<and> write_tmpfs (tn_inode node) offset sz bytes s' = None"
proof -
  obtain d r where d: "list_at dir s = Some d" "find_ent (same_name name) (td_files d) s = Some r"
    using assms(1) by (auto simp: finddir_tmpfs_def split: Option.bind_splits)
  then obtain i p where "r = Some (i, p)" using assms(1) by (auto simp: finddir_tmpfs_def split: option.splits)
  then have "file_at (tn_inode node) s' = None"
    using finddir_inode [OF d(1) _ assms(1)] unlink_frees [OF d(1) _ assms(2)] d(2) by (simp add: file_at_def)
  then show ?thesis by (simp add: read_tmpfs_def write_tmpfs_def)
qed

theorem unlink_tmpfs_leaves_dangling_node_witness:
  "\<exists>node s'. finddir_tmpfs 0x2000 [0x61] ex_tmpfs = Some (Some node) \<and> unlink_tmpfs 0x2000 [0x61] ex_tmpfs = Some (0, s') \<and>
     read_tmpfs (tn_inode node) 0 1 [0] s' = None"
proof -
  obtain node where n: "finddir_tmpfs 0x2000 [0x61] ex_tmpfs = Some (Some node)"
    by (simp add: finddir_tmpfs_def list_at_def dir_at_def ex_tmpfs_def ex_dir_def ex_file_def tmpfs_from_file_def name_field_def)
  obtain s' where s': "unlink_tmpfs 0x2000 [0x61] ex_tmpfs = Some (0, s')"
    by (simp add: unlink_tmpfs_def list_at_def dir_at_def ex_tmpfs_def ex_dir_def ex_file_def tmpfs_file_free_def free_ent_def)
  show ?thesis using n s' unlink_tmpfs_leaves_dangling_node [OF n s'] by blast
qed

section \<open>Moving directories\<close>

text \<open>A root directory at \<open>0x1000\<close> with two empty directories \<open>a\<close> at \<open>0x2000\<close> and \<open>b\<close> at \<open>0x3000\<close>.\<close>

definition ex_tree :: tmpfs where
  "ex_tree = \<lparr>tm_ents = [0x1000 \<mapsto> TDir (ex_dir [] [0x2000, 0x3000] 0), 0x2000 \<mapsto> TDir (ex_dir [0x61] [] 0x1000), 0x3000 \<mapsto> TDir (ex_dir [0x62] [] 0x1000)],
     tm_frames = (\<lambda>_. []), tm_free = [], tm_released = [], tm_total = 0, tm_malloc = [], tm_now = 0\<rparr>"

lemmas rename_eval = rename_tmpfs_def list_at_def dir_at_def is_dir_def endswith_def rename_move_def add_ent_def del_ent_def path_dup_def
  set_ent_def is_parent.simps ex_dir_def

lemma rename_b_into_a:
  "rename_tmpfs 0x1000 [0x62] 0x2000 [0x62] ex_tree = Some (0, s1) \<Longrightarrow>
     tm_ents s1 = [0x1000 \<mapsto> TDir (ex_dir [] [0x2000] 0), 0x2000 \<mapsto> TDir (ex_dir [0x61] [0x3000] 0x1000), 0x3000 \<mapsto> TDir (ex_dir [0x62] [] 0x1000)]"
  "\<exists>s1. rename_tmpfs 0x1000 [0x62] 0x2000 [0x62] ex_tree = Some (0, s1)"
  by (auto simp: rename_eval ex_tree_def)

lemma rename_a_into_b:
  assumes "tm_ents s = [0x1000 \<mapsto> TDir (ex_dir [] [0x2000] 0), 0x2000 \<mapsto> TDir (ex_dir [0x61] [0x3000] 0x1000), 0x3000 \<mapsto> TDir (ex_dir [0x62] [] 0x1000)]"
  shows "\<exists>s2. rename_tmpfs 0x1000 [0x61] 0x3000 [0x61] s = Some (0, s2) \<and>
    tm_ents s2 = [0x1000 \<mapsto> TDir (ex_dir [] [] 0), 0x2000 \<mapsto> TDir (ex_dir [0x61] [0x3000] 0x1000), 0x3000 \<mapsto> TDir (ex_dir [0x62] [0x2000] 0x1000)]"
  by (simp add: rename_eval assms) (auto simp: fun_eq_iff)

lemma path_comp_dup: "path_comp a b \<longleftrightarrow> path_dup a = path_dup b"
  by (induction a b rule: path_comp.induct) (auto simp: path_dup_def)

text \<open>
  The check of \<^verbatim>\<open>rename_tmpfs\<close> against moving a directory into itself can be passed: a moved directory keeps its
  old parent pointer.  After \<open>b\<close> is moved into \<open>a\<close>, moving \<open>a\<close> into \<open>b\<close> also succeeds; each then contains the other, and the root neither.
\<close>

theorem rename_tmpfs_makes_cycle:
  "\<exists>s1 s2 a b root. rename_tmpfs 0x1000 [0x62] 0x2000 [0x62] ex_tree = Some (0, s1) \<and> rename_tmpfs 0x1000 [0x61] 0x3000 [0x61] s1 = Some (0, s2) \<and>
     list_at 0x1000 s2 = Some root \<and> td_files root = [] \<and>
     list_at 0x2000 s2 = Some a \<and> td_files a = [0x3000] \<and> list_at 0x3000 s2 = Some b \<and> td_files b = [0x2000]"
proof -
  obtain s1 where r1: "rename_tmpfs 0x1000 [0x62] 0x2000 [0x62] ex_tree = Some (0, s1)" using rename_b_into_a(2) by blast
  obtain s2 where r2: "rename_tmpfs 0x1000 [0x61] 0x3000 [0x61] s1 = Some (0, s2)"
      "tm_ents s2 = [0x1000 \<mapsto> TDir (ex_dir [] [] 0), 0x2000 \<mapsto> TDir (ex_dir [0x61] [0x3000] 0x1000), 0x3000 \<mapsto> TDir (ex_dir [0x62] [0x2000] 0x1000)]"
    using rename_a_into_b [OF rename_b_into_a(1) [OF r1]] by blast
  have "list_at 0x1000 s2 = Some (ex_dir [] [] 0)" "list_at 0x2000 s2 = Some (ex_dir [0x61] [0x3000] 0x1000)" "list_at 0x3000 s2 = Some (ex_dir [0x62] [0x2000] 0x1000)"
    using r2(2) by (simp_all add: list_at_def dir_at_def ex_dir_def)
  then show ?thesis using r1 r2(1) by (auto simp: ex_dir_def)
qed

end
