(* ===== verification/Kprintf.thy ===== *)
theory Kprintf
  imports Razion_Prelude "HOL-Library.Monad_Syntax"
begin

text \<open>
  Formatted output of the kernel, \<^verbatim>\<open>kernel/misc/kprintf.c\<close>: the directives of a format string, decimal and hexadecimal
  numbers, and the bounded string output of \<^verbatim>\<open>snprintf\<close>.

  A format is the list of its bytes up to the terminating zero, and the variable arguments are a list of values of the type
  they were passed with; taking an argument of another type, or one that is not there, is a fault.  The callback gets one character
  after the other and its result is not used, so the formatter returns the list of the characters.
\<close>

unbundle bit_operations_syntax

datatype va = VInt u32 | VLong u64 | VStr "u8 list option"

text \<open>\<^verbatim>\<open>long\<close>, \<^verbatim>\<open>long long\<close> and pointers have the same width.\<close>

fun va_int :: "va list \<Rightarrow> (u32 \<times> va list) option" where
  "va_int (VInt x # as) = Some (x, as)"
| "va_int _ = None"

fun va_long :: "va list \<Rightarrow> (u64 \<times> va list) option" where
  "va_long (VLong x # as) = Some (x, as)"
| "va_long _ = None"

fun va_str :: "va list \<Rightarrow> (u8 list option \<times> va list) option" where
  "va_str (VStr x # as) = Some (x, as)"
| "va_str _ = None"

section \<open>Numbers\<close>

text \<open>The number of decimal digits of a value that is not zero.\<close>

function dec_width :: "nat \<Rightarrow> nat \<Rightarrow> nat" where
  "dec_width val n_width = (if 10 \<le> val then dec_width (val div 10) (n_width + 1) else n_width)"
  by pat_completeness auto

termination
  by (relation "measure fst") auto

declare dec_width.simps [simp del]

text \<open>The last \<open>i\<close> digits of a value, which the loop stores from the right.\<close>

fun dec_digits :: "nat \<Rightarrow> nat \<Rightarrow> u8 list" where
  "dec_digits 0 value = []"
| "dec_digits (Suc i) value = dec_digits i (value div 10) @ [of_nat (value mod 10) + 0x30]"

text \<open>The digits are collected in an array of 100 characters.  The precision is compared as an unsigned number.\<close>

definition print_dec :: "u64 \<Rightarrow> u32 \<Rightarrow> bool \<Rightarrow> bool \<Rightarrow> u32 \<Rightarrow> u8 list option" where
  "print_dec value width fill_zero align_right precision =
     (let precision = (if precision = - 1 then 1 else precision);
          n_width = (if value = 0 then 0 else dec_width (unat value) 1);
          p = unat (scast precision :: u64);
          n_width = (if n_width < p then p else n_width);
          pad = replicate (unat width - n_width) (if fill_zero then 0x30 else 0x20)
      in if 100 < n_width then None
         else Some (if align_right then pad @ dec_digits n_width (unat value) else dec_digits n_width (unat value) @ pad))"

partial_function (option) hex_width :: "u64 \<Rightarrow> u64 \<Rightarrow> nat \<Rightarrow> nat option" where
  "hex_width value j n_width = (if value > j \<and> j < - 1 then hex_width value (j * 0x10 + 0x0F) (n_width + 1) else Some n_width)"

definition hex_digit :: "bool \<Rightarrow> u64 \<Rightarrow> u8" where
  "hex_digit caps d = (if d < 10 then 0x30 + ucast d else if caps then 0x37 + ucast d else 0x57 + ucast d)"

fun hex_digits :: "bool \<Rightarrow> u64 \<Rightarrow> nat \<Rightarrow> u8 list" where
  "hex_digits caps value 0 = []"
| "hex_digits caps value (Suc i) = hex_digit caps (drop_bit (i * 4) value AND 0xF) # hex_digits caps value i"

text \<open>The width is counted down in an \<^verbatim>\<open>int\<close>.\<close>

definition print_hex :: "u64 \<Rightarrow> u32 \<Rightarrow> bool \<Rightarrow> bool \<Rightarrow> bool \<Rightarrow> bool \<Rightarrow> u8 list option" where
  "print_hex value width fill_zero alt caps align_right = do {
     n_width \<leftarrow> hex_width value 0x0F 1;
     let gap = nat (sint width - (int n_width + (if alt then 2 else 0)));
     Some ((if \<not> fill_zero \<and> align_right then replicate gap 0x20 else []) @
           (if alt then [0x30, if caps then 0x58 else 0x78] else []) @
           (if fill_zero \<and> align_right then replicate gap 0x30 else []) @
           hex_digits caps value n_width @
           (if \<not> align_right then replicate gap 0x20 else [])) }"

section \<open>Directives\<close>

record fmt_spec =
  arg_width :: u32
  align :: bool
  fill_zero :: bool
  big :: nat
  alt :: bool
  always_sign :: nat
  precision :: u32

definition fmt_start :: fmt_spec where
  "fmt_start = \<lparr>arg_width = 0, align = True, fill_zero = False, big = 0, alt = False, always_sign = 0, precision = - 1\<rparr>"

fun fmt_flags :: "u8 list \<Rightarrow> va list \<Rightarrow> fmt_spec \<Rightarrow> (u8 list \<times> va list \<times> fmt_spec) option" where
  "fmt_flags [] args sp = Some ([], args, sp)"
| "fmt_flags (c # f) args sp =
     (if c = 0x2D then fmt_flags f args (sp\<lparr>align := False\<rparr>)
      else if c = 0x23 then fmt_flags f args (sp\<lparr>alt := True\<rparr>)
      else if c = 0x2A then (case va_int args of None \<Rightarrow> None | Some (w, args) \<Rightarrow> fmt_flags f args (sp\<lparr>arg_width := w\<rparr>))
      else if c = 0x30 then fmt_flags f args (sp\<lparr>fill_zero := True\<rparr>)
      else if c = 0x2B then fmt_flags f args (sp\<lparr>always_sign := 1\<rparr>)
      else if c = 0x20 then fmt_flags f args (sp\<lparr>always_sign := 2\<rparr>)
      else Some (c # f, args, sp))"

fun fmt_number :: "u8 list \<Rightarrow> u32 \<Rightarrow> u8 list \<times> u32" where
  "fmt_number [] n = ([], n)"
| "fmt_number (c # f) n = (if 0x30 \<le> c \<and> c \<le> 0x39 then fmt_number f (n * 10 + (ucast c - 0x30)) else (c # f, n))"

definition fmt_precision :: "u8 list \<Rightarrow> va list \<Rightarrow> fmt_spec \<Rightarrow> (u8 list \<times> va list \<times> fmt_spec) option" where
  "fmt_precision f args sp =
     (case f of [] \<Rightarrow> Some (f, args, sp)
      | c # g \<Rightarrow>
          if c \<noteq> 0x2E then Some (f, args, sp)
          else if g \<noteq> [] \<and> hd g = 0x2A then do { (p, args) \<leftarrow> va_int args; Some (tl g, args, sp\<lparr>precision := p\<rparr>) }
          else let (g, p) = fmt_number g 0 in Some (g, args, sp\<lparr>precision := p\<rparr>))"

text \<open>One letter that sets the size; they are tried one after the other.\<close>

definition fmt_letter :: "u8 \<Rightarrow> nat \<Rightarrow> u8 list \<times> nat \<Rightarrow> u8 list \<times> nat" where
  "fmt_letter c n x = (case x of (f, b) \<Rightarrow> if f \<noteq> [] \<and> hd f = c then (tl f, n) else (f, b))"

definition fmt_size :: "u8 list \<Rightarrow> u8 list \<times> nat" where
  "fmt_size f =
     (let x = (if f \<noteq> [] \<and> hd f = 0x6C then fmt_letter 0x6C 2 (tl f, 1) else (f, 0))
      in fmt_letter 0x74 2 (fmt_letter 0x7A 2 (fmt_letter 0x6A 2 x)))"

definition fmt_directive :: "u8 list \<Rightarrow> va list \<Rightarrow> (u8 list \<times> va list \<times> fmt_spec) option" where
  "fmt_directive f args = do {
     (f, args, sp) \<leftarrow> fmt_flags f args fmt_start;
     let (f, w) = fmt_number f (arg_width sp);
     (f, args, sp) \<leftarrow> fmt_precision f args (sp\<lparr>arg_width := w\<rparr>);
     let (f, b) = fmt_size f;
     Some (f, args, sp\<lparr>big := b\<rparr>) }"

text \<open>The characters of a string argument; \<open>prec\<close> is how many may still be written, without a limit \<open>None\<close>.\<close>

fun str_chars :: "u8 list \<Rightarrow> nat option \<Rightarrow> nat \<Rightarrow> nat \<Rightarrow> u8 list" where
  "str_chars [] prec width count = []"
| "str_chars (c # s) prec width count =
     (if prec = Some 0 then []
      else c # (if width \<noteq> 0 \<and> count + 1 = width then [] else str_chars s (map_option (\<lambda>p. p - 1) prec) width (count + 1)))"

definition NULL_STRING :: "u8 list" where "NULL_STRING = [0x28, 0x6E, 0x75, 0x6C, 0x6C, 0x29]"

definition fmt_string :: "u8 list option \<Rightarrow> fmt_spec \<Rightarrow> u8 list" where
  "fmt_string s sp =
     (let s = (case s of None \<Rightarrow> NULL_STRING | Some s \<Rightarrow> s);
          out = str_chars s (if 0 \<le> sint (precision sp) then Some (unat (precision sp)) else None) (unat (arg_width sp)) 0
      in out @ replicate (unat (arg_width sp) - length out) 0x20)"

definition va_unsigned :: "nat \<Rightarrow> va list \<Rightarrow> (u64 \<times> va list) option" where
  "va_unsigned b args = (if b = 0 then map_option (\<lambda>(x, as). (ucast x, as)) (va_int args) else va_long args)"

definition va_signed :: "nat \<Rightarrow> va list \<Rightarrow> (u64 \<times> va list) option" where
  "va_signed b args = (if b = 0 then map_option (\<lambda>(x, as). (scast x, as)) (va_int args) else va_long args)"

text \<open>
  The value of a signed directive is negated in 64 bits.  For the least number, \<^verbatim>\<open>-val\<close> overflows, which C leaves
  undefined; the model has what the processor does, which gives the number again, and \<^verbatim>\<open>print_dec\<close> takes it as unsigned.
\<close>

definition fmt_convert :: "u8 \<Rightarrow> fmt_spec \<Rightarrow> va list \<Rightarrow> (u8 list \<times> va list) option" where
  "fmt_convert c sp args =
     (if c = 0x73 then do { (s, args) \<leftarrow> va_str args; Some (fmt_string s sp, args) }
      else if c = 0x63 then do { (x, args) \<leftarrow> va_int args; Some ([ucast x], args) }
      else if c \<in> {0x70, 0x58, 0x78} then do {
        let sp = (if c = 0x70 then sp\<lparr>alt := True, big := 2\<rparr> else sp);
        (v, args) \<leftarrow> va_unsigned (big sp) args;
        out \<leftarrow> print_hex v (arg_width sp) (fill_zero sp) (alt sp) (c AND 32 = 0) (align sp);
        Some (out, args) }
      else if c \<in> {0x69, 0x64} then do {
        (v, args) \<leftarrow> va_signed (big sp) args;
        let sign = (if sint v < 0 then [0x2D] else if always_sign sp \<noteq> 0 then [if always_sign sp = 2 then 0x20 else 0x2B] else []);
        out \<leftarrow> print_dec (if sint v < 0 then - v else v) (arg_width sp) (fill_zero sp) (align sp) (precision sp);
        Some (sign @ out, args) }
      else if c = 0x75 then do {
        (v, args) \<leftarrow> va_unsigned (big sp) args;
        out \<leftarrow> print_dec v (arg_width sp) (fill_zero sp) (align sp) (precision sp);
        Some (out, args) }
      else Some ([c], args))"

text \<open>What is left of the format after a directive is no longer than what was there.\<close>

lemma fmt_flags_shorter: "fmt_flags f args sp = Some (g, as, sp') \<Longrightarrow> length g \<le> length f"
proof (induction f arbitrary: args sp)
  case (Cons c f)
  have le: "length g \<le> Suc (length f)" if "fmt_flags f as0 sp0 = Some (g, as, sp')" for as0 sp0
    using Cons.IH [OF that] by simp
  show ?case
    using Cons.prems by (simp split: if_splits option.splits prod.splits) (auto dest: le)
qed simp

lemma fmt_number_shorter: "fmt_number f n = (g, m) \<Longrightarrow> length g \<le> length f"
  by (induction f n rule: fmt_number.induct) (auto split: if_splits)

lemma fmt_precision_shorter: "fmt_precision f args sp = Some (g, as, sp') \<Longrightarrow> length g \<le> length f"
  by (auto simp: fmt_precision_def split: list.splits if_splits prod.splits Option.bind_splits dest: fmt_number_shorter)

lemma fmt_letter_shorter: "length (fst (fmt_letter c n x)) \<le> length (fst x)"
  by (auto simp: fmt_letter_def split: prod.splits)

lemma fmt_size_shorter: "fmt_size f = (g, b) \<Longrightarrow> length g \<le> length f"
  using fmt_letter_shorter order_trans unfolding fmt_size_def Let_def by (smt (verit) fst_conv length_tl diff_le_self)

lemma fmt_directive_shorter: "fmt_directive f args = Some (g, as, sp) \<Longrightarrow> length g \<le> length f"
  by (auto simp: fmt_directive_def split: Option.bind_splits prod.splits
    dest!: fmt_flags_shorter fmt_number_shorter fmt_precision_shorter fmt_size_shorter)

text \<open>
  A format that ends within a directive is read past its end: the terminating zero is taken for a
  conversion, and the loop moves on to the byte behind it.
\<close>

function xvasprintf :: "u8 list \<Rightarrow> va list \<Rightarrow> u8 list option" where
  "xvasprintf [] args = Some []"
| "xvasprintf (c # f) args =
     (if c \<noteq> 0x25 then map_option (\<lambda>out. c # out) (xvasprintf f args)
      else (case fmt_directive f args of None \<Rightarrow> None
        | Some (g, args, sp) \<Rightarrow>
            (case g of [] \<Rightarrow> None
             | k # g \<Rightarrow>
                 if k = 0x73 \<and> big sp \<noteq> 0 then Some []
                 else (case fmt_convert k sp args of None \<Rightarrow> None
                   | Some (out, args) \<Rightarrow> map_option (\<lambda>rest. out @ rest) (xvasprintf g args)))))"
  by pat_completeness auto

termination
  by (relation "measure (length \<circ> fst)") (auto dest: fmt_directive_shorter)

section \<open>Output to a string\<close>

record CBData =
  cb_str :: "u8 list"
  cb_size :: nat
  cb_written :: nat

definition cb_sprintf :: "u8 \<Rightarrow> CBData \<Rightarrow> CBData option" where
  "cb_sprintf c data =
     (if cb_written data + 1 < cb_size data then
        (if cb_written data < length (cb_str data) then
           (let data = data\<lparr>cb_str := (cb_str data)[cb_written data := c], cb_written := cb_written data + 1\<rparr>
            in if cb_written data < cb_size data then
                 (if cb_written data < length (cb_str data) then Some (data\<lparr>cb_str := (cb_str data)[cb_written data := 0]\<rparr>) else None)
               else Some data)
         else None)
      else Some data)"

fun cb_all :: "u8 list \<Rightarrow> CBData \<Rightarrow> CBData option" where
  "cb_all [] data = Some data"
| "cb_all (c # cs) data = do { data \<leftarrow> cb_sprintf c data; cb_all cs data }"

text \<open>The result is the number of characters, in an \<^verbatim>\<open>int\<close>, and the string.\<close>

definition vsnprintf :: "u8 list \<Rightarrow> nat \<Rightarrow> u8 list \<Rightarrow> va list \<Rightarrow> (int \<times> u8 list) option" where
  "vsnprintf str sz format ap = do {
     out \<leftarrow> xvasprintf format ap;
     data \<leftarrow> cb_all out \<lparr>cb_str = str, cb_size = sz, cb_written = 0\<rparr>;
     data \<leftarrow> cb_sprintf 0 data;
     Some (sint (of_nat (length out) :: u32), cb_str data) }"

definition snprintf :: "u8 list \<Rightarrow> nat \<Rightarrow> u8 list \<Rightarrow> va list \<Rightarrow> (int \<times> u8 list) option" where
  "snprintf str sz format args = do {
     out \<leftarrow> xvasprintf format args;
     data \<leftarrow> cb_all out \<lparr>cb_str = str, cb_size = sz, cb_written = 0\<rparr>;
     data \<leftarrow> cb_sprintf 0 data;
     Some (sint (of_nat (length out) :: u32), cb_str data) }"

section \<open>Output to the console\<close>

text \<open>\<open>printf_output\<close> is the function pointer of that name, if it is set.\<close>

definition cb_printf :: "(u8 \<Rightarrow> 's \<Rightarrow> 's) option \<Rightarrow> u8 \<Rightarrow> 's \<Rightarrow> 's" where
  "cb_printf printf_output c s = (case printf_output of None \<Rightarrow> s | Some f \<Rightarrow> f c s)"

definition printf :: "(u8 \<Rightarrow> 's \<Rightarrow> 's) option \<Rightarrow> u8 list \<Rightarrow> va list \<Rightarrow> 's \<Rightarrow> (int \<times> 's) option" where
  "printf printf_output fmt args s = do {
     out \<leftarrow> xvasprintf fmt args;
     Some (sint (of_nat (length out) :: u32), fold (cb_printf printf_output) out s) }"

section \<open>Bounded output\<close>

lemma cb_sprintf_room:
  assumes "w + 1 < n" "length str = n"
  shows "cb_sprintf c \<lparr>cb_str = str, cb_size = n, cb_written = w\<rparr> = Some \<lparr>cb_str = str[w := c, Suc w := 0], cb_size = n, cb_written = w + 1\<rparr>"
  using assms by (simp add: cb_sprintf_def)

lemma cb_sprintf_full: "\<not> w + 1 < n \<Longrightarrow> cb_sprintf c \<lparr>cb_str = str, cb_size = n, cb_written = w\<rparr> = Some \<lparr>cb_str = str, cb_size = n, cb_written = w\<rparr>"
  by (simp add: cb_sprintf_def)

lemma cb_all_full: "\<not> w + 1 < n \<Longrightarrow> cb_all cs \<lparr>cb_str = str, cb_size = n, cb_written = w\<rparr> = Some \<lparr>cb_str = str, cb_size = n, cb_written = w\<rparr>"
  by (induction cs) (simp_all add: cb_sprintf_full)

lemma cb_all_effect:
  assumes "length str = n" "w < n" "k = min (length cs) (n - 1 - w)"
  shows "\<exists>str'. cb_all cs \<lparr>cb_str = str, cb_size = n, cb_written = w\<rparr> = Some \<lparr>cb_str = str', cb_size = n, cb_written = w + k\<rparr> \<and>
    length str' = n \<and> take (w + k) str' = take w str @ take k cs \<and> (0 < k \<longrightarrow> str' ! (w + k) = 0)"
  using assms
proof (induction cs arbitrary: str w k)
  case Nil
  then show ?case by simp
next
  case (Cons c cs)
  show ?case
  proof (cases "w + 1 < n")
    case True
    define j where "j = min (length cs) (n - 1 - (w + 1))"
    have k: "k = Suc j" using Cons.prems True by (auto simp: j_def)
    let ?s = "str[w := c, Suc w := 0]"
    from Cons.IH [of ?s "w + 1" j] Cons.prems(1) True obtain str' where ih:
        "cb_all cs \<lparr>cb_str = ?s, cb_size = n, cb_written = w + 1\<rparr> = Some \<lparr>cb_str = str', cb_size = n, cb_written = w + 1 + j\<rparr>"
        "length str' = n" "take (w + 1 + j) str' = take (w + 1) ?s @ take j cs" "0 < j \<longrightarrow> str' ! (w + 1 + j) = 0"
      by (auto simp: j_def)
    have "take (w + 1) ?s = take w str @ [c]"
      using True Cons.prems(1) by (simp add: take_Suc_conv_app_nth)
    moreover have "str' ! (w + 1) = 0" if "j = 0"
    proof -
      have "cs = [] \<or> \<not> (w + 1) + 1 < n" using that by (cases cs) (auto simp: j_def min_def split: if_splits)
      then have "str' = ?s" using ih(1) cb_all_full [of "w + 1" n cs ?s] by auto
      then show ?thesis using True Cons.prems(1) by simp
    qed
    ultimately show ?thesis using ih k cb_sprintf_room [OF True Cons.prems(1)] by (intro exI [of _ str']) (cases "j = 0"; simp)
  next
    case False
    then have "k = 0" using Cons.prems(3) by simp
    then show ?thesis using Cons.prems cb_all_full [OF False, of "c # cs" str] by (intro exI [of _ str]) simp
  qed
qed

text \<open>
  Property C19.  \<^verbatim>\<open>snprintf\<close> into a buffer of at least two bytes writes as much of the output as fits with a terminating zero, stays
  within the buffer, and returns the length of the whole output.
\<close>

theorem snprintf_truncates:
  assumes "xvasprintf fmt args = Some out" "2 \<le> sz" "length str = sz" "length out < 2 ^ 31"
  shows "\<exists>str'. snprintf str sz fmt args = Some (int (length out), str') \<and> length str' = sz \<and>
    take (min (length out) (sz - 1) + 1) str' = take (sz - 1) out @ [0]"
proof -
  let ?k = "min (length out) (sz - 1)"
  obtain str' where s: "cb_all out \<lparr>cb_str = str, cb_size = sz, cb_written = 0\<rparr> = Some \<lparr>cb_str = str', cb_size = sz, cb_written = ?k\<rparr>"
      "length str' = sz" "take ?k str' = take ?k out" "0 < ?k \<longrightarrow> str' ! ?k = 0"
    using cb_all_effect [of str sz 0 ?k out] assms(2,3) by auto
  have ret: "sint (of_nat (length out) :: u32) = int (length out)"
  proof -
    have "(of_nat (length out) :: u32) = word_of_int (int (length out))" by simp
    then have "sint (of_nat (length out) :: u32) = signed_take_bit 31 (int (length out))" by (simp only: signed_of_int) simp
    then show ?thesis using assms(4) by (simp add: signed_take_bit_int_eq_self)
  qed
  have tk: "take ?k out = take (sz - 1) out" by (simp add: min_def)
  show ?thesis
  proof (cases "?k + 1 < sz")
    case True
    let ?t = "str'[?k := 0, Suc ?k := 0]"
    have "take (?k + 1) ?t = take (sz - 1) out @ [0]" using True s(2,3) tk by (simp add: take_Suc_conv_app_nth)
    then show ?thesis
      using assms(1) s(1,2) cb_sprintf_room [OF True s(2), of 0] ret by (intro exI [of _ ?t]) (simp add: snprintf_def)
  next
    case False
    then have "0 < ?k" "?k < length str'" using assms(2) s(2) by auto
    then have "take (?k + 1) str' = take (sz - 1) out @ [0]" using s(3,4) tk by (simp add: take_Suc_conv_app_nth)
    then show ?thesis
      using assms(1) s(1,2) cb_sprintf_full [OF False, of 0 str'] ret by (intro exI [of _ str']) (simp add: snprintf_def)
  qed
qed

theorem snprintf_truncates_witness:
  "\<exists>str'. snprintf [1, 1, 1] 3 [0x25, 0x73] [VStr (Some [0x61, 0x62, 0x63])] = Some (3, str') \<and> str' = [0x61, 0x62, 0]"
proof -
  have "xvasprintf [0x25, 0x73] [VStr (Some [0x61, 0x62, 0x63])] = Some [0x61, 0x62, 0x63]"
    by (simp add: fmt_directive_def fmt_start_def fmt_precision_def fmt_size_def fmt_letter_def fmt_convert_def fmt_string_def)
  from snprintf_truncates [OF this, of 3 "[1, 1, 1]"] show ?thesis by auto
qed

section \<open>Decimal numbers\<close>

text \<open>The number a string of digits stands for.\<close>

definition dec_value :: "u8 list \<Rightarrow> nat" where
  "dec_value ds = foldl (\<lambda>n d. 10 * n + unat (d - 0x30)) 0 ds"

definition is_digits :: "u8 list \<Rightarrow> bool" where
  "is_digits ds = list_all (\<lambda>d. 0x30 \<le> d \<and> d \<le> 0x39) ds"

lemma digit_char:
  assumes "d < 10"
  shows "unat ((of_nat d + 0x30 :: u8) - 0x30) = d" "0x30 \<le> (of_nat d + 0x30 :: u8)" "(of_nat d + 0x30 :: u8) \<le> 0x39" "unat (of_nat d + 0x30 :: u8) = d + 0x30"
proof -
  have u: "unat (of_nat d :: u8) = d" using assms by (simp add: unat_of_nat)
  then show v: "unat (of_nat d + 0x30 :: u8) = d + 0x30" using assms by (simp add: unat_word_ariths)
  show "unat ((of_nat d + 0x30 :: u8) - 0x30) = d" using u by simp
  show "0x30 \<le> (of_nat d + 0x30 :: u8)" "(of_nat d + 0x30 :: u8) \<le> 0x39" using v assms by (simp_all add: word_le_nat_alt)
qed

lemma dec_digits_value: "dec_value (dec_digits i v) = v mod 10 ^ i \<and> is_digits (dec_digits i v) \<and> length (dec_digits i v) = i"
proof (induction i arbitrary: v)
  case 0
  then show ?case by (simp add: dec_value_def is_digits_def)
next
  case (Suc i)
  have "10 * (v div 10 mod 10 ^ i) + v mod 10 = v mod 10 ^ Suc i" by (simp add: mod_mult2_eq add.commute)
  then show ?case using Suc [of "v div 10"] digit_char [of "v mod 10"]
    by (simp add: dec_value_def is_digits_def)
qed

lemma dec_width_add: "dec_width v (n + k) = dec_width v n + k"
proof (induction v n arbitrary: k rule: dec_width.induct)
  case (1 v n)
  show ?case using 1 [of k] by (subst (1 2) dec_width.simps) simp
qed

lemma dec_width_bounds: "0 < v \<Longrightarrow> v < 10 ^ dec_width v 1 \<and> 10 ^ (dec_width v 1 - 1) \<le> v \<and> 1 \<le> dec_width v 1"
proof (induction v rule: less_induct)
  case (less v)
  show ?case
  proof (cases "10 \<le> v")
    case True
    have w: "dec_width v 1 = dec_width (v div 10) 1 + 1" using True dec_width_add [of "v div 10" 1 1] by (subst dec_width.simps) simp
    have ih: "v div 10 < 10 ^ dec_width (v div 10) 1" "10 ^ (dec_width (v div 10) 1 - 1) \<le> v div 10" "1 \<le> dec_width (v div 10) 1"
      using less.IH [of "v div 10"] True by auto
    obtain m where m: "dec_width (v div 10) 1 = Suc m" using ih(3) by (cases "dec_width (v div 10) 1") auto
    have "v < 10 * 10 ^ Suc m" using ih(1) m by (simp add: div_less_iff_less_mult)
    moreover have "10 * 10 ^ m \<le> v" using ih(2) m by (simp add: less_eq_div_iff_mult_less_eq mult.commute)
    moreover have "dec_width v 1 = Suc (Suc m)" using w m by simp
    ultimately show ?thesis by (simp only:) simp
  next
    case False
    then show ?thesis using less.prems by (simp add: dec_width.simps)
  qed
qed

lemma print_dec_plain:
  assumes "n = (if value = 0 then 1 else dec_width (unat value) 1)"
  shows "print_dec value 0 z a (- 1) = Some (dec_digits n (unat value))" "unat value < 10 ^ n"
proof -
  have "unat value < 10 ^ n \<and> n \<le> 100 \<and> 1 \<le> n"
  proof (cases "value = 0")
    case False
    then have b: "unat value < 10 ^ n" "10 ^ (n - 1) \<le> unat value" "1 \<le> n" using dec_width_bounds [of "unat value"] assms by (auto simp: unat_gt_0)
    have "unat value < 10 ^ 20" using unsigned_less [of "value", where 'a = nat] by simp
    with b(2) have "(10 :: nat) ^ (n - 1) < 10 ^ 20" by (rule le_less_trans)
    then have "n - 1 < 20" by (rule power_less_imp_less_exp [rotated]) simp
    then show ?thesis using b by simp
  qed (simp add: assms)
  then show "unat value < 10 ^ n" "print_dec value 0 z a (- 1) = Some (dec_digits n (unat value))"
    using assms by (auto simp: print_dec_def Let_def)
qed

lemma fmt_directive_ld: "fmt_directive (0x6C # c # f) args = Some (c # f, args, fmt_start\<lparr>big := 1\<rparr>)"
    if "c \<notin> {0x6C, 0x6A, 0x7A, 0x74}"
  using that by (simp add: fmt_directive_def fmt_start_def fmt_precision_def fmt_size_def fmt_letter_def)

text \<open>The value of a number with a sign.\<close>

definition read_dec :: "u8 list \<Rightarrow> int" where
  "read_dec s = (if s \<noteq> [] \<and> hd s = 0x2D then - int (dec_value (tl s)) else int (dec_value s))"

lemma hd_dec_digits:
  assumes "0 < n" "10 ^ (n - 1) \<le> v" "v < 10 ^ n"
  shows "dec_digits n v \<noteq> [] \<and> hd (dec_digits n v) \<noteq> 0x30"
  using assms
proof (induction n arbitrary: v)
  case (Suc n)
  show ?case
  proof (cases n)
    case 0
    then have v: "0 < v" "v < 10" using Suc.prems by simp_all
    then have "unat (of_nat v + 0x30 :: u8) \<noteq> unat (0x30 :: u8)" using digit_char(4) [of v] by simp
    then show ?thesis using 0 v by auto
  next
    case (Suc m)
    have "10 ^ m \<le> v div 10" "v div 10 < 10 ^ n"
      using Suc.prems(2,3) Suc by (simp_all add: less_eq_div_iff_mult_less_eq div_less_iff_less_mult mult.commute)
    then have "dec_digits n (v div 10) \<noteq> [] \<and> hd (dec_digits n (v div 10)) \<noteq> 0x30" using Suc.IH [of "v div 10"] Suc by simp
    then show ?thesis by (simp only: dec_digits.simps) simp
  qed
qed simp

lemma sint_parts:
  fixes v :: u64
  shows "sint v < 0 \<Longrightarrow> int (unat (- v)) = - sint v" "\<not> sint v < 0 \<Longrightarrow> int (unat v) = sint v"
proof -
  have b: "- (2 ^ 63) \<le> sint v" "sint v < 2 ^ 63" using sint_ge [of v] sint_less [of v] by simp_all
  have v: "v = word_of_int (sint v)" "- v = word_of_int (- sint v)" by simp_all
  show "int (unat (- v)) = - sint v" if "sint v < 0"
  proof -
    have "uint (- v) = (- sint v) mod 2 ^ 64" unfolding v(2) uint_word_of_int by simp
    also have "\<dots> = - sint v" using that b by (intro mod_pos_pos_trivial) simp_all
    finally show ?thesis by simp
  qed
  show "int (unat v) = sint v" if "\<not> sint v < 0"
  proof -
    have "uint v = sint v mod 2 ^ 64" by (subst v(1)) (simp only: uint_word_of_int, simp)
    also have "\<dots> = sint v" using that b by (intro mod_pos_pos_trivial) simp_all
    finally show ?thesis by simp
  qed
qed

text \<open>
  Property C22.  A signed number printed with \<^verbatim>\<open>%ld\<close> reads back as itself: the output is a minus sign for a negative number and the
  decimal digits of its absolute value, without leading zeros.
\<close>

theorem printf_decimal_reads_back:
  "\<exists>ds. xvasprintf [0x25, 0x6C, 0x64] [VLong v] = Some (if sint v < 0 then 0x2D # ds else ds) \<and> is_digits ds \<and> ds \<noteq> [] \<and>
    (hd ds = 0x30 \<longrightarrow> ds = [0x30]) \<and> read_dec (if sint v < 0 then 0x2D # ds else ds) = sint v"
proof -
  define a where "a = (if sint v < 0 then - v else v)"
  define n where "n = (if a = 0 then 1 else dec_width (unat a) 1)"
  define ds where "ds = dec_digits n (unat a)"
  note p = print_dec_plain [OF n_def]
  have out: "xvasprintf [0x25, 0x6C, 0x64] [VLong v] = Some (if sint v < 0 then 0x2D # ds else ds)"
    using p(1) by (simp add: fmt_directive_ld fmt_convert_def va_signed_def a_def [symmetric] ds_def) (simp add: fmt_start_def)
  have d: "dec_value ds = unat a" "is_digits ds" "length ds = n" using dec_digits_value [of n "unat a"] p(2) by (simp_all add: ds_def)
  have n1: "1 \<le> n" using dec_width_bounds [of "unat a"] by (auto simp: n_def unat_gt_0)
  then have ne: "ds \<noteq> []" using d(3) by auto
  have lead: "hd ds = 0x30 \<longrightarrow> ds = [0x30]"
  proof (cases "a = 0")
    case True
    then show ?thesis by (simp add: ds_def n_def)
  next
    case False
    then have "10 ^ (n - 1) \<le> unat a" using dec_width_bounds [of "unat a"] by (simp add: n_def unat_gt_0)
    then show ?thesis using hd_dec_digits [of n "unat a"] n1 p(2) by (simp add: ds_def)
  qed
  have "hd ds \<noteq> 0x2D" using ne d(2) by (cases ds) (auto simp: is_digits_def word_le_nat_alt)
  then have "read_dec (if sint v < 0 then 0x2D # ds else ds) = sint v"
    using d(1) ne sint_parts [of v] by (auto simp: read_dec_def a_def)
  then show ?thesis using out d ne lead by blast
qed

theorem printf_decimal_reads_back_witness:
  "\<exists>ds. xvasprintf [0x25, 0x6C, 0x64] [VLong (- 42)] = Some (0x2D # ds) \<and> read_dec (0x2D # ds) = - 42"
proof -
  have "sint (- 42 :: u64) = - 42" by simp
  then show ?thesis using printf_decimal_reads_back [of "- 42"] by auto
qed

section \<open>Hexadecimal numbers\<close>

definition hex_val :: "u8 \<Rightarrow> nat" where
  "hex_val d = (if d \<le> 0x39 then unat d - 0x30 else unat d - 0x57)"

definition hex_value :: "u8 list \<Rightarrow> nat" where
  "hex_value ds = foldl (\<lambda>n d. 16 * n + hex_val d) 0 ds"

lemma hex_digit_val:
  assumes "unat d < 16"
  shows "hex_val (hex_digit False d) = unat d"
proof -
  have u: "unat (ucast d :: u8) = unat d" using assms by (simp add: unsigned_ucast_eq take_bit_nat_eq_self)
  show ?thesis
  proof (cases "unat d < 10")
    case True
    have "unat (0x30 + ucast d :: u8) = 0x30 + unat d" using u True by (simp add: unat_word_ariths)
    then show ?thesis using True by (simp add: hex_val_def hex_digit_def word_less_nat_alt word_le_nat_alt)
  next
    case False
    have "unat (0x57 + ucast d :: u8) = 0x57 + unat d" using u assms by (simp add: unat_word_ariths)
    then show ?thesis using False by (simp add: hex_val_def hex_digit_def word_less_nat_alt word_le_nat_alt)
  qed
qed

lemma nibble: "unat (drop_bit (i * 4) (v :: u64) AND 0xF) = unat v div 16 ^ i mod 16"
proof -
  have "(0xF :: u64) = mask 4" by (simp add: mask_eq_exp_minus_1)
  then have "drop_bit (i * 4) v AND 0xF = take_bit 4 (drop_bit (i * 4) v)" by (simp add: take_bit_eq_mask)
  moreover have "take_bit 64 (unat v) = unat v" using unsigned_less [of v, where 'a = nat] by (intro take_bit_nat_eq_self) simp
  then have "unat (take_bit 4 (drop_bit (i * 4) v)) = take_bit 4 (drop_bit (i * 4) (unat v))"
    by (simp add: unsigned_take_bit_eq unsigned_drop_bit_eq)
  ultimately show ?thesis by (simp add: take_bit_eq_mod drop_bit_eq_div power_mult mult.commute [of i])
qed

lemma hex_digits_value: "foldl (\<lambda>n d. 16 * n + hex_val d) a (hex_digits False v i) = a * 16 ^ i + unat v mod 16 ^ i"
proof (induction i arbitrary: a)
  case (Suc i)
  have d: "hex_val (hex_digit False (drop_bit (i * 4) v AND 0xF)) = unat v div 16 ^ i mod 16"
    using hex_digit_val [of "drop_bit (i * 4) v AND 0xF"] nibble [of i v] by simp
  have "unat v mod 16 ^ Suc i = 16 ^ i * (unat v div 16 ^ i mod 16) + unat v mod 16 ^ i"
    using mod_mult2_eq [of "unat v" "16 ^ i" 16] by (simp add: mult.commute)
  then show ?case using Suc d by (simp add: algebra_simps)
qed simp

lemma hex_width_mask:
  assumes "1 \<le> k" "k \<le> 16"
  shows "\<exists>w. hex_width v (mask (4 * k)) k = Some w \<and> w \<le> 16 \<and> unat v < 16 ^ w"
  using assms
proof (induction "16 - k" arbitrary: k)
  case 0
  then have k: "k = 16" by simp
  have "(mask 64 :: u64) = - 1" by (simp add: mask_eq_exp_minus_1)
  moreover have "unat v < 16 ^ 16" using unsigned_less [of v, where 'a = nat] by simp
  ultimately show ?case using k by (simp add: hex_width.simps)
next
  case (Suc d)
  then have k: "k < 16" by simp
  show ?case
  proof (cases "v > mask (4 * k) \<and> mask (4 * k) < (- 1 :: u64)")
    case True
    have "(mask (4 * k) * 0x10 + 0x0F :: u64) = mask (4 * Suc k)" by (simp add: mask_eq_exp_minus_1 power_add algebra_simps)
    then show ?thesis using True Suc.hyps(1) [of "Suc k"] Suc.hyps(2) k by (subst hex_width.simps) simp
  next
    case False
    have "unat (mask (4 * k) :: u64) = mask (4 * k)"
      using k unfolding take_bit_minus_one_eq_mask [symmetric, where 'a = u64] unsigned_take_bit_eq unsigned_minus_1_eq_mask by (simp add: take_bit_of_mask min_def)
    then have u: "unat (mask (4 * k) :: u64) + 1 = 16 ^ k" by (simp add: mask_eq_exp_minus_1 power_mult)
    have "v \<le> mask (4 * k)" using False by (cases "mask (4 * k) = (- 1 :: u64)") (auto simp: not_less order.not_eq_order_implies_strict)
    then have "unat v < 16 ^ k" using u by (simp add: word_le_nat_alt)
    then show ?thesis using False k by (subst hex_width.simps) auto
  qed
qed

text \<open>
  A 64-bit number printed with \<^verbatim>\<open>%lx\<close> reads back as itself.
\<close>

theorem printf_hex_reads_back:
  "\<exists>ds. xvasprintf [0x25, 0x6C, 0x78] [VLong v] = Some ds \<and> hex_value ds = unat v"
proof -
  obtain w where w: "hex_width v 0x0F 1 = Some w" "w \<le> 16" "unat v < 16 ^ w"
    using hex_width_mask [of 1 v] by (auto simp: mask_eq_exp_minus_1)
  have "sint (0 :: u32) - (int w + 0) \<le> 0" by simp
  then have "print_hex v 0 False False False True = Some (hex_digits False v w)"
    using w(1) by (simp add: print_hex_def)
  then have "xvasprintf [0x25, 0x6C, 0x78] [VLong v] = Some (hex_digits False v w)"
    by (simp add: fmt_directive_ld fmt_convert_def va_unsigned_def) (simp add: fmt_start_def)
  moreover have "hex_value (hex_digits False v w) = unat v" using hex_digits_value [of 0 v w] w(3) by (simp add: hex_value_def)
  ultimately show ?thesis by blast
qed

section \<open>Formats that go wrong\<close>

lemma xvasprintf_plain: "0x25 \<notin> set pre \<Longrightarrow> xvasprintf (pre @ f) args = map_option (\<lambda>out. pre @ out) (xvasprintf f args)"
  by (induction pre) (cases "xvasprintf f args"; simp)+

text \<open>
  A format whose last character is a percent sign is read past its end, whatever comes before it
  without a percent sign.
\<close>

theorem printf_trailing_percent_overruns:
  assumes "0x25 \<notin> set pre"
  shows "xvasprintf (pre @ [0x25]) args = None"
  using xvasprintf_plain [OF assms]
  by (simp add: fmt_directive_def fmt_precision_def fmt_size_def fmt_letter_def)

theorem printf_trailing_percent_overruns_witness:
  "xvasprintf [0x35, 0x30, 0x25] [] = None"
  using printf_trailing_percent_overruns [of "[0x35, 0x30]" "[]"] by simp

text \<open>A precision of more than 100 digits overflows the array the digits are collected in.\<close>

lemma printf_precision_overflows: "xvasprintf [0x25, 0x2E, 0x2A, 0x64] [VInt 101, VInt v] = None"
  by (simp add: fmt_directive_def fmt_start_def fmt_precision_def fmt_size_def fmt_letter_def fmt_convert_def va_signed_def print_dec_def Let_def)

end
