(* ===== verification/Ktty.thy ===== *)
theory Ktty
  imports Kring Kvfs Kprintf
begin

text \<open>
  Pseudo terminals, \<^verbatim>\<open>kernel/vfs/tty.c\<close>: the line discipline with its input modes, echo and editing, output
  processing, job control for reads and writes of the slave, the control requests, and the table of terminals under \<^verbatim>\<open>/dev/pts\<close>.

  A terminal has two ring buffers (theory \<open>Kring\<close>).  The functions that put a character into them are pointers that the serial
  drivers replace, so they are an argument; \<open>pty_driver\<close> has the ones every terminal starts with.  An operation
  that has to wait for room uses the next of the lists of wake-ups in \<open>pt_waits\<close>; not returning is \<open>None\<close>.
\<close>

section \<open>State\<close>

abbreviation (input) VEOF :: nat where "VEOF \<equiv> 1"
abbreviation (input) VEOL :: nat where "VEOL \<equiv> 2"
abbreviation (input) VERASE :: nat where "VERASE \<equiv> 3"
abbreviation (input) VINTR :: nat where "VINTR \<equiv> 4"
abbreviation (input) VKILL :: nat where "VKILL \<equiv> 5"
abbreviation (input) VMIN :: nat where "VMIN \<equiv> 6"
abbreviation (input) VQUIT :: nat where "VQUIT \<equiv> 7"
abbreviation (input) VSUSP :: nat where "VSUSP \<equiv> 10"
abbreviation (input) VLNEXT :: nat where "VLNEXT \<equiv> 12"
abbreviation (input) VWERASE :: nat where "VWERASE \<equiv> 13"

abbreviation (input) BRKINT :: u32 where "BRKINT \<equiv> 0x01"
abbreviation (input) ICRNL :: u32 where "ICRNL \<equiv> 0x02"
abbreviation (input) IGNCR :: u32 where "IGNCR \<equiv> 0x08"
abbreviation (input) INLCR :: u32 where "INLCR \<equiv> 0x20"
abbreviation (input) ISTRIP :: u32 where "ISTRIP \<equiv> 0x80"
abbreviation (input) IUCLC :: u32 where "IUCLC \<equiv> 0x100"
abbreviation (input) OPOST :: u32 where "OPOST \<equiv> 0x01"
abbreviation (input) OLCUC :: u32 where "OLCUC \<equiv> 0x02"
abbreviation (input) ONLCR :: u32 where "ONLCR \<equiv> 0x04"
abbreviation (input) ONLRET :: u32 where "ONLRET \<equiv> 0x20"
abbreviation (input) ISIG :: u32 where "ISIG \<equiv> 0x01"
abbreviation (input) ICANON :: u32 where "ICANON \<equiv> 0x02"
abbreviation (input) ECHO :: u32 where "ECHO \<equiv> 0x08"
abbreviation (input) ECHOE :: u32 where "ECHOE \<equiv> 0x10"
abbreviation (input) ECHOK :: u32 where "ECHOK \<equiv> 0x20"
abbreviation (input) ECHONL :: u32 where "ECHONL \<equiv> 0x40"
abbreviation (input) TOSTOP :: u32 where "TOSTOP \<equiv> 0x100"
abbreviation (input) IEXTEN :: u32 where "IEXTEN \<equiv> 0x200"
abbreviation (input) ECHOCTL :: u32 where "ECHOCTL \<equiv> 0x400"

abbreviation (input) SIGHUP :: nat where "SIGHUP \<equiv> 1"
abbreviation (input) SIGINT :: nat where "SIGINT \<equiv> 2"
abbreviation (input) SIGQUIT :: nat where "SIGQUIT \<equiv> 3"
abbreviation (input) SIGWINCH :: nat where "SIGWINCH \<equiv> 20"
abbreviation (input) SIGTSTP :: nat where "SIGTSTP \<equiv> 24"
abbreviation (input) SIGTTIN :: nat where "SIGTTIN \<equiv> 26"
abbreviation (input) SIGTTOU :: nat where "SIGTTOU \<equiv> 37"
abbreviation (input) EIO :: int where "EIO \<equiv> 5"
abbreviation (input) ERANGE :: int where "ERANGE \<equiv> 34"

record winsize =
  ws_row :: u16
  ws_col :: u16
  ws_xpixel :: u16
  ws_ypixel :: u16

record termios =
  c_iflag :: u32
  c_oflag :: u32
  c_cflag :: u32
  c_lflag :: u32
  c_cc :: "u8 list"

text \<open>
  The nodes of the two ends are objects of their own, with their lives: \<open>pt_master\<close> and \<open>pt_slave\<close> are the pointers, and the node a
  pointer leads to is \<open>None\<close> once it was freed; using it then is a fault.  \<open>pt_mtime\<close> is the time of change in the node of the slave.

  Besides the terminal itself the state has the lists of wake-ups, the processes woken so far, and the signals that were sent:
  to a group of processes, or to a session.
\<close>

datatype sent = ToGroup int nat | ToSession int nat

record pty_t =
  pt_name :: u64
  pt_master :: addr
  pt_slave :: addr
  pt_master_node :: "fs_node option"
  pt_slave_node :: "fs_node option"
  pt_mtime :: u64
  pt_size :: winsize
  pt_tios :: termios
  pt_in :: ring_buffer_t
  pt_out :: ring_buffer_t
  canon_buffer :: "u8 list"
  canon_bufsize :: nat
  canon_buflen :: nat
  ct_proc :: int
  fg_proc :: int
  next_is_verbatim :: bool
  master_closed :: bool
  slave_closed :: bool
  pt_waits :: "sleeps list"
  pt_woken :: "addr list"
  pt_sent :: "sent list"

text \<open>The process that makes a call.\<close>

record tty_proc =
  tp_addr :: addr
  tp_id :: int
  tp_user :: u32
  tp_group :: u32
  tp_session :: int
  tp_job :: int
  tp_blocked_signals :: u64
  tp_handler :: "nat \<Rightarrow> u64"
  tp_now :: u64

type_synonym tty_result = "(int \<times> pty_t) option"

record tty_driver =
  write_in :: "tty_proc \<Rightarrow> u8 \<Rightarrow> pty_t \<Rightarrow> tty_result"
  write_out :: "tty_proc \<Rightarrow> u8 \<Rightarrow> pty_t \<Rightarrow> tty_result"
  fill_name :: "pty_t \<Rightarrow> nat \<Rightarrow> u8 list \<Rightarrow> (int \<times> u8 list) option"

abbreviation tflag :: "u32 \<Rightarrow> u32 \<Rightarrow> bool" where
  "tflag w f \<equiv> w AND f \<noteq> 0"

abbreviation lflag :: "pty_t \<Rightarrow> u32 \<Rightarrow> bool" where
  "lflag pt f \<equiv> tflag (c_lflag (pt_tios pt)) f"

abbreviation cc :: "pty_t \<Rightarrow> nat \<Rightarrow> u8" where
  "cc pt i \<equiv> c_cc (pt_tios pt) ! i"

text \<open>The macros around a call that return its result when it is negative.\<close>

definition chk :: "tty_result \<Rightarrow> (pty_t \<Rightarrow> tty_result) \<Rightarrow> tty_result" where
  "chk r k = do { (written, pt) \<leftarrow> r; if written < 0 then Some (written, pt) else k pt }"

definition group_send_signal :: "int \<Rightarrow> nat \<Rightarrow> pty_t \<Rightarrow> pty_t" where
  "group_send_signal g sig pt = pt\<lparr>pt_sent := pt_sent pt @ [ToGroup g sig]\<rparr>"

definition session_send_signal :: "int \<Rightarrow> nat \<Rightarrow> pty_t \<Rightarrow> pty_t" where
  "session_send_signal g sig pt = pt\<lparr>pt_sent := pt_sent pt @ [ToSession g sig]\<rparr>"

section \<open>Characters in and out\<close>

definition next_waits :: "pty_t \<Rightarrow> sleeps \<times> sleeps list" where
  "next_waits pt = (case pt_waits pt of [] \<Rightarrow> ([], []) | es # r \<Rightarrow> (es, r))"

definition pty_write_in :: "tty_proc \<Rightarrow> u8 \<Rightarrow> pty_t \<Rightarrow> tty_result" where
  "pty_write_in pr c pt = do {
     let (es, waits) = next_waits pt;
     r \<leftarrow> ring_buffer_write (pt_in pt) (tp_addr pr) [c] 0 es [];
     case r of Asleep rb \<Rightarrow> None
     | Returned rb n bs woken \<Rightarrow> Some (n, pt\<lparr>pt_in := rb, pt_waits := waits, pt_woken := pt_woken pt @ woken\<rparr>) }"

definition pty_write_out :: "tty_proc \<Rightarrow> u8 \<Rightarrow> pty_t \<Rightarrow> tty_result" where
  "pty_write_out pr c pt = do {
     let (es, waits) = next_waits pt;
     r \<leftarrow> ring_buffer_write (pt_out pt) (tp_addr pr) [c] 0 es [];
     case r of Asleep rb \<Rightarrow> None
     | Returned rb n bs woken \<Rightarrow> Some (n, pt\<lparr>pt_out := rb, pt_waits := waits, pt_woken := pt_woken pt @ woken\<rparr>) }"

text \<open>The loop runs over the buffer from its start, with \<open>i\<close> the characters written so far.\<close>

fun dump_loop :: "tty_driver \<Rightarrow> tty_proc \<Rightarrow> nat \<Rightarrow> nat \<Rightarrow> pty_t \<Rightarrow> tty_result" where
  "dump_loop D pr i 0 pt = Some (int i, pt)"
| "dump_loop D pr i (Suc n) pt =
     (if i < length (canon_buffer pt)
      then chk (write_in D pr (canon_buffer pt ! i) pt) (\<lambda>pt. dump_loop D pr (Suc i) n (pt\<lparr>canon_buflen := n\<rparr>))
      else None)"

definition dump_input_buffer :: "tty_driver \<Rightarrow> tty_proc \<Rightarrow> pty_t \<Rightarrow> tty_result" where
  "dump_input_buffer D pr pt = dump_loop D pr 0 (canon_buflen pt) pt"

definition clear_input_buffer :: "pty_t \<Rightarrow> pty_t option" where
  "clear_input_buffer pt = (if 0 < length (canon_buffer pt)
     then Some (pt\<lparr>canon_buflen := 0, canon_buffer := (canon_buffer pt)[0 := 0]\<rparr>) else None)"

definition tty_output_process :: "tty_driver \<Rightarrow> tty_proc \<Rightarrow> u8 \<Rightarrow> pty_t \<Rightarrow> tty_result" where
  "tty_output_process D pr c pt = (let oflag = c_oflag (pt_tios pt) in
     if \<not> tflag oflag OPOST then chk (write_out D pr c pt) (\<lambda>pt. Some (1, pt))
     else if c = 10 \<and> tflag oflag ONLCR then
       chk (write_out D pr 10 pt) (\<lambda>pt. chk (write_out D pr 13 pt) (\<lambda>pt. Some (1, pt)))
     else if c = 13 \<and> tflag oflag ONLRET then Some (1, pt)
     else if 0x61 \<le> c \<and> c \<le> 0x7A \<and> tflag oflag OLCUC then chk (write_out D pr (c + 0x41 - 0x61) pt) (\<lambda>pt. Some (1, pt))
     else chk (write_out D pr c pt) (\<lambda>pt. Some (1, pt)))"

definition is_control :: "int \<Rightarrow> bool" where
  "is_control c = (c < 0x20 \<or> c = 0x7F)"

text \<open>What is shown of a character that is echoed: control characters as a caret and a letter.\<close>

definition echo_char :: "tty_driver \<Rightarrow> tty_proc \<Rightarrow> bool \<Rightarrow> u8 \<Rightarrow> pty_t \<Rightarrow> tty_result" where
  "echo_char D pr caret c pt =
     (if lflag pt ECHOCTL \<and> is_control (uint c) \<and> caret
      then chk (tty_output_process D pr 0x5E pt) (\<lambda>pt. tty_output_process D pr ((0x40 + c) mod 128) pt)
      else tty_output_process D pr c pt)"

fun backspaces :: "tty_driver \<Rightarrow> tty_proc \<Rightarrow> nat \<Rightarrow> pty_t \<Rightarrow> tty_result" where
  "backspaces D pr 0 pt = Some (0, pt)"
| "backspaces D pr (Suc n) pt =
     chk (tty_output_process D pr 8 pt) (\<lambda>pt. chk (tty_output_process D pr 0x20 pt) (\<lambda>pt.
     chk (tty_output_process D pr 8 pt) (\<lambda>pt. backspaces D pr n pt)))"

text \<open>The buffer is an array of \<^verbatim>\<open>char\<close>, which is signed.\<close>

definition tty_erase_one :: "tty_driver \<Rightarrow> tty_proc \<Rightarrow> bool \<Rightarrow> pty_t \<Rightarrow> tty_result" where
  "tty_erase_one D pr erase pt =
     (if 0 < canon_buflen pt then
        (let n = canon_buflen pt - 1 in
         if n < length (canon_buffer pt) then
           (let vwidth = (if is_control (sint (canon_buffer pt ! n)) then 2 else 1);
                pt = pt\<lparr>canon_buflen := n, canon_buffer := (canon_buffer pt)[n := 0]\<rparr>
            in if lflag pt ECHO \<and> erase then backspaces D pr vwidth pt else Some (0, pt))
         else None)
      else Some (0, pt))"

text \<open>Characters are erased while the last one satisfies a condition.\<close>

partial_function (option) erase_while :: "tty_driver \<Rightarrow> tty_proc \<Rightarrow> (u8 \<Rightarrow> bool) \<Rightarrow> bool \<Rightarrow> pty_t \<Rightarrow> tty_result" where
  "erase_while D pr P erase pt =
     (if 0 < canon_buflen pt then
        (if canon_buflen pt - 1 < length (canon_buffer pt) then
           (if P (canon_buffer pt ! (canon_buflen pt - 1)) then do {
              (written, pt) \<leftarrow> tty_erase_one D pr erase pt;
              if written < 0 then Some (written, pt) else erase_while D pr P erase pt }
            else Some (0, pt))
         else None)
      else Some (0, pt))"

section \<open>The line discipline\<close>

definition push_char :: "u8 \<Rightarrow> pty_t \<Rightarrow> pty_t option" where
  "push_char c pt =
     (if canon_buflen pt < canon_bufsize pt then
        (if canon_buflen pt < length (canon_buffer pt)
         then Some (pt\<lparr>canon_buffer := (canon_buffer pt)[canon_buflen pt := c], canon_buflen := canon_buflen pt + 1\<rparr>) else None)
      else Some pt)"

definition echo_if :: "tty_driver \<Rightarrow> tty_proc \<Rightarrow> bool \<Rightarrow> bool \<Rightarrow> u8 \<Rightarrow> pty_t \<Rightarrow> tty_result" where
  "echo_if D pr cond caret c pt = (if cond then echo_char D pr caret c pt else Some (0, pt))"

definition tty_verbatim :: "tty_driver \<Rightarrow> tty_proc \<Rightarrow> u8 \<Rightarrow> pty_t \<Rightarrow> tty_result" where
  "tty_verbatim D pr c pt = do {
     pt \<leftarrow> push_char c (pt\<lparr>next_is_verbatim := False\<rparr>);
     chk (echo_if D pr (lflag pt ECHO) True c pt) (\<lambda>pt. Some (1, pt)) }"

definition tty_signal :: "u8 \<Rightarrow> pty_t \<Rightarrow> nat option" where
  "tty_signal c pt = (if c = cc pt VINTR then Some SIGINT else if c = cc pt VQUIT then Some SIGQUIT
     else if c = cc pt VSUSP then Some SIGTSTP else None)"

definition tty_send :: "tty_driver \<Rightarrow> tty_proc \<Rightarrow> nat \<Rightarrow> u8 \<Rightarrow> pty_t \<Rightarrow> tty_result" where
  "tty_send D pr sig c pt =
     chk (echo_if D pr (lflag pt ECHO) True c pt) (\<lambda>pt. do {
       pt \<leftarrow> clear_input_buffer pt;
       Some (1, if fg_proc pt \<noteq> 0 then group_send_signal (fg_proc pt) sig pt else pt) })"

text \<open>The input modes: the character they make of one, or \<open>None\<close> when it is ignored.\<close>

definition input_modes :: "u32 \<Rightarrow> u8 \<Rightarrow> u8 option" where
  "input_modes iflag c =
     (let c = (if tflag iflag ISTRIP then c AND 0x7F else c)
      in if tflag iflag IGNCR \<and> c = 13 then None
         else let c = (if tflag iflag INLCR \<and> c = 10 then 13 else if tflag iflag ICRNL \<and> c = 13 then 10 else c)
              in Some (if tflag iflag IUCLC \<and> 0x41 \<le> c \<and> c \<le> 0x5A then c - 0x41 + 0x61 else c))"

text \<open>The new end of line is stored again, in case the buffer was full.\<close>

definition tty_canon_char :: "tty_driver \<Rightarrow> tty_proc \<Rightarrow> u8 \<Rightarrow> pty_t \<Rightarrow> tty_result" where
  "tty_canon_char D pr c pt = do {
     pt \<leftarrow> push_char c pt;
     chk (echo_if D pr (lflag pt ECHO) (c \<noteq> 10) c pt) (\<lambda>pt.
       if c = 10 \<or> (cc pt VEOL \<noteq> 0 \<and> c = cc pt VEOL) then
         chk (if \<not> lflag pt ECHO \<and> lflag pt ECHONL then tty_output_process D pr c pt else Some (0, pt)) (\<lambda>pt.
           if 0 < canon_buflen pt \<and> canon_buflen pt - 1 < length (canon_buffer pt) then do {
             (_, pt) \<leftarrow> dump_input_buffer D pr (pt\<lparr>canon_buffer := (canon_buffer pt)[canon_buflen pt - 1 := c]\<rparr>);
             Some (1, pt) }
           else None)
       else Some (1, pt)) }"

definition tty_canon :: "tty_driver \<Rightarrow> tty_proc \<Rightarrow> u8 \<Rightarrow> pty_t \<Rightarrow> tty_result" where
  "tty_canon D pr c pt =
     (if c = cc pt VLNEXT \<and> lflag pt IEXTEN then
        chk (tty_output_process D pr 0x5E (pt\<lparr>next_is_verbatim := True\<rparr>)) (\<lambda>pt.
        chk (tty_output_process D pr 8 pt) (\<lambda>pt. Some (1, pt)))
      else if c = cc pt VKILL then
        chk (erase_while D pr (\<lambda>_. True) (lflag pt ECHOK) pt) (\<lambda>pt.
        chk (echo_if D pr (lflag pt ECHO \<and> \<not> lflag pt ECHOK) True c pt) (\<lambda>pt. Some (1, pt)))
      else if c = cc pt VERASE then
        chk (tty_erase_one D pr (lflag pt ECHOE) pt) (\<lambda>pt.
        chk (echo_if D pr (lflag pt ECHO \<and> \<not> lflag pt ECHOE) True c pt) (\<lambda>pt. Some (1, pt)))
      else if c = cc pt VWERASE \<and> lflag pt IEXTEN then
        chk (erase_while D pr (\<lambda>x. x = 0x20) (lflag pt ECHOE) pt) (\<lambda>pt.
        chk (erase_while D pr (\<lambda>x. x \<noteq> 0x20) (lflag pt ECHOE) pt) (\<lambda>pt.
        chk (echo_if D pr (lflag pt ECHO \<and> \<not> lflag pt ECHOE) True c pt) (\<lambda>pt. Some (1, pt))))
      else if c = cc pt VEOF then
        (if canon_buflen pt \<noteq> 0 then do { (_, pt) \<leftarrow> dump_input_buffer D pr pt; Some (1, pt) }
         else (let (rb, woken) = ring_buffer_eof (pt_in pt) in Some (1, pt\<lparr>pt_in := rb, pt_woken := pt_woken pt @ woken\<rparr>)))
      else tty_canon_char D pr c pt)"

definition tty_input_process :: "tty_driver \<Rightarrow> tty_proc \<Rightarrow> u8 \<Rightarrow> pty_t \<Rightarrow> tty_result" where
  "tty_input_process D pr c pt =
     (if pt_slave_node pt = None then None
      else let pt = pt\<lparr>pt_mtime := tp_now pr\<rparr> in
      if next_is_verbatim pt then tty_verbatim D pr c pt
      else if lflag pt ISIG \<and> tty_signal c pt \<noteq> None then tty_send D pr (the (tty_signal c pt)) c pt
      else case input_modes (c_iflag (pt_tios pt)) c of
        None \<Rightarrow> Some (1, pt)
      | Some c \<Rightarrow>
          if lflag pt ICANON then tty_canon D pr c pt
          else chk (echo_if D pr (lflag pt ECHO) (c \<noteq> 10) c pt) (\<lambda>pt. chk (write_in D pr c pt) (\<lambda>pt. Some (1, pt))))"

text \<open>\<^verbatim>\<open>"/dev/pts/%zd"\<close>\<close>

definition PTS_FORMAT :: "u8 list" where
  "PTS_FORMAT = [0x2F, 0x64, 0x65, 0x76, 0x2F, 0x70, 0x74, 0x73, 0x2F, 0x25, 0x7A, 0x64]"

definition tty_fill_name :: "pty_t \<Rightarrow> nat \<Rightarrow> u8 list \<Rightarrow> (int \<times> u8 list) option" where
  "tty_fill_name pt len out = snprintf out len PTS_FORMAT [VLong (pt_name pt)]"

definition pty_driver :: tty_driver where
  "pty_driver = \<lparr>write_in = pty_write_in, write_out = pty_write_out, fill_name = tty_fill_name\<rparr>"

section \<open>Control requests\<close>

abbreviation (input) IOCTLTTYNAME :: u64 where "IOCTLTTYNAME \<equiv> 0x4F01"
abbreviation (input) IOCTLTTYLOGIN :: u64 where "IOCTLTTYLOGIN \<equiv> 0x4F02"
abbreviation (input) TCGETS :: u64 where "TCGETS \<equiv> 0x4000"
abbreviation (input) TCSETS :: u64 where "TCSETS \<equiv> 0x4001"
abbreviation (input) TCSETSW :: u64 where "TCSETSW \<equiv> 0x4002"
abbreviation (input) TCSETSF :: u64 where "TCSETSF \<equiv> 0x4003"
abbreviation (input) TIOCSCTTY :: u64 where "TIOCSCTTY \<equiv> 0x4009"
abbreviation (input) TIOCGPGRP :: u64 where "TIOCGPGRP \<equiv> 0x400A"
abbreviation (input) TIOCSPGRP :: u64 where "TIOCSPGRP \<equiv> 0x400B"
abbreviation (input) TIOCGWINSZ :: u64 where "TIOCGWINSZ \<equiv> 0x400E"
abbreviation (input) TIOCSWINSZ :: u64 where "TIOCSWINSZ \<equiv> 0x400F"
abbreviation (input) TIOCGSID :: u64 where "TIOCGSID \<equiv> 0x4016"

text \<open>
  The argument of a request is a pointer into the memory of the caller: whether it is null, whether a number of bytes there may be
  read or written, and the object there in the type the request expects.  Using a null pointer is a fault.  A request returns what it stores there;
  \<open>Controlling\<close>: the terminal became the one of the process.
\<close>

record uarg =
  ua_null :: bool
  ua_valid :: "nat \<Rightarrow> bool \<Rightarrow> bool"
  ua_int :: u32
  ua_winsize :: winsize
  ua_termios :: termios
  ua_buf :: "u8 list"
  ua_buf_valid :: bool

datatype uout = Unchanged | Controlling | OutName "u8 list" | OutInt int | OutWinsize winsize | OutTermios termios

definition user_check :: "uarg \<Rightarrow> nat \<Rightarrow> bool \<Rightarrow> int" where
  "user_check a n w = (if ua_null a then - EINVAL else if \<not> ua_valid a n w then - EFAULT else 0)"

definition foreign_session :: "tty_proc \<Rightarrow> bool \<Rightarrow> pty_t \<Rightarrow> bool" where
  "foreign_session pr is_master pt = (\<not> is_master \<and> ct_proc pt \<noteq> tp_session pr)"

definition pty_ioctl :: "tty_driver \<Rightarrow> tty_proc \<Rightarrow> bool \<Rightarrow> u64 \<Rightarrow> uarg \<Rightarrow> pty_t \<Rightarrow> (int \<times> uout \<times> pty_t) option" where
  "pty_ioctl D pr is_master request a pt =
     (if request = IOCTLTTYNAME then
        (if user_check a 16 False \<noteq> 0 then Some (user_check a 16 False, Unchanged, pt)
         else if \<not> ua_buf_valid a then Some (- EFAULT, Unchanged, pt)
         else do {
           (n, buf) \<leftarrow> fill_name D pt (length (ua_buf a)) (ua_buf a);
           Some (if length (ua_buf a) \<le> unat (word_of_int n :: u32) then - ERANGE else 0, OutName buf, pt) })
      else if request = IOCTLTTYLOGIN then
        (if tp_user pr \<noteq> 0 then Some (- EPERM, Unchanged, pt)
         else if user_check a 4 False \<noteq> 0 then Some (user_check a 4 False, Unchanged, pt)
         else do {
           sl \<leftarrow> pt_slave_node pt;
           ma \<leftarrow> pt_master_node pt;
           Some (0, Unchanged, pt\<lparr>pt_slave_node := Some (sl\<lparr>n_uid := ua_int a\<rparr>), pt_master_node := Some (ma\<lparr>n_uid := ua_int a\<rparr>)\<rparr>) })
      else if request = TIOCSWINSZ then
        (if user_check a 8 False \<noteq> 0 then Some (user_check a 8 False, Unchanged, pt)
         else let pt = pt\<lparr>pt_size := ua_winsize a\<rparr>
              in Some (0, Unchanged, if fg_proc pt \<noteq> 0 then group_send_signal (fg_proc pt) SIGWINCH pt else pt))
      else if request = TIOCGWINSZ then
        (if user_check a 8 True \<noteq> 0 then Some (user_check a 8 True, Unchanged, pt) else Some (0, OutWinsize (pt_size pt), pt))
      else if request = TCGETS then
        (if user_check a 48 True \<noteq> 0 then Some (user_check a 48 True, Unchanged, pt) else Some (0, OutTermios (pt_tios pt), pt))
      else if request = TIOCSPGRP then
        (if user_check a 4 False \<noteq> 0 then Some (user_check a 4 False, Unchanged, pt) else Some (0, Unchanged, pt\<lparr>fg_proc := sint (ua_int a)\<rparr>))
      else if request = TIOCGPGRP then
        (if user_check a 4 True \<noteq> 0 then Some (user_check a 4 True, Unchanged, pt)
         else if foreign_session pr is_master pt then Some (- ENOTTY, Unchanged, pt)
         else Some (0, OutInt (fg_proc pt), pt))
      else if request = TIOCGSID then
        (if user_check a 4 True \<noteq> 0 then Some (user_check a 4 True, Unchanged, pt)
         else if foreign_session pr is_master pt then Some (- ENOTTY, Unchanged, pt)
         else Some (0, OutInt (ct_proc pt), pt))
      else if request = TIOCSCTTY then
        (if tp_session pr = tp_id pr \<and> ct_proc pt = tp_session pr then Some (0, Unchanged, pt)
         else if tp_session pr \<noteq> tp_id pr then Some (- EPERM, Unchanged, pt)
         else if ct_proc pt \<noteq> 0 \<and> (ua_null a \<or> tp_user pr \<noteq> 0 \<or> ua_int a \<noteq> 1) then Some (- EPERM, Unchanged, pt)
         else Some (0, Controlling, pt\<lparr>ct_proc := tp_session pr\<rparr>))
      else if request = TCSETS \<or> request = TCSETSW then
        (if user_check a 48 False \<noteq> 0 then Some (user_check a 48 False, Unchanged, pt)
         else do {
           pt \<leftarrow> (if \<not> tflag (c_lflag (ua_termios a)) ICANON \<and> lflag pt ICANON then map_option snd (dump_input_buffer D pr pt) else Some pt);
           Some (0, Unchanged, pt\<lparr>pt_tios := ua_termios a\<rparr>) })
      else if request = TCSETSF then do {
        pt \<leftarrow> clear_input_buffer pt;
        let pt = pt\<lparr>pt_in := ring_buffer_discard (pt_in pt)\<rparr>;
        if ua_null a then None else Some (0, Unchanged, pt\<lparr>pt_tios := ua_termios a\<rparr>) }
      else Some (- ENOTTY, Unchanged, pt))"

section \<open>The two ends\<close>

fun put_all :: "(u8 \<Rightarrow> pty_t \<Rightarrow> tty_result) \<Rightarrow> bool \<Rightarrow> u8 list \<Rightarrow> nat \<Rightarrow> pty_t \<Rightarrow> tty_result" where
  "put_all f stop [] l pt = Some (int l, pt)"
| "put_all f stop (c # cs) l pt = do {
     (n, pt) \<leftarrow> f c pt;
     if n < 0 \<and> l = 0 then Some (n, pt)
     else if n < 0 \<and> stop then Some (int l, pt)
     else put_all f stop cs (Suc l) pt }"

text \<open>Writing to the master is typing; an error after the first character is not noticed.\<close>

definition write_pty_master :: "tty_driver \<Rightarrow> tty_proc \<Rightarrow> u8 list \<Rightarrow> pty_t \<Rightarrow> tty_result" where
  "write_pty_master D pr buffer pt = put_all (tty_input_process D pr) False buffer 0 pt"

definition ring_read :: "tty_proc \<Rightarrow> nat \<Rightarrow> (pty_t \<Rightarrow> ring_buffer_t) \<Rightarrow> (ring_buffer_t \<Rightarrow> pty_t \<Rightarrow> pty_t) \<Rightarrow> pty_t \<Rightarrow> (int \<times> u8 list \<times> pty_t) option" where
  "ring_read pr sz get put pt = do {
     let (es, waits) = next_waits pt;
     r \<leftarrow> ring_buffer_read (get pt) (tp_addr pr) sz es [];
     case r of Asleep rb \<Rightarrow> None
     | Returned rb n bs woken \<Rightarrow> Some (n, bs, put rb (pt\<lparr>pt_waits := waits, pt_woken := pt_woken pt @ woken\<rparr>)) }"

definition read_in :: "tty_proc \<Rightarrow> nat \<Rightarrow> pty_t \<Rightarrow> (int \<times> u8 list \<times> pty_t) option" where
  "read_in pr sz pt = ring_read pr sz pt_in (\<lambda>rb pt. pt\<lparr>pt_in := rb\<rparr>) pt"

definition read_pty_master :: "tty_proc \<Rightarrow> nat \<Rightarrow> pty_t \<Rightarrow> (int \<times> u8 list \<times> pty_t) option" where
  "read_pty_master pr sz pt = ring_read pr sz pt_out (\<lambda>rb pt. pt\<lparr>pt_out := rb\<rparr>) pt"

definition ignoring :: "tty_proc \<Rightarrow> nat \<Rightarrow> bool" where
  "ignoring pr sig = (tp_blocked_signals pr AND push_bit sig 1 \<noteq> 0 \<or> tp_handler pr sig = 1)"

definition background :: "tty_proc \<Rightarrow> pty_t \<Rightarrow> bool" where
  "background pr pt = (ct_proc pt = tp_session pr \<and> fg_proc pt \<noteq> 0 \<and> tp_job pr \<noteq> fg_proc pt)"

partial_function (option) read_min :: "tty_proc \<Rightarrow> nat \<Rightarrow> nat \<Rightarrow> u8 list \<Rightarrow> pty_t \<Rightarrow> (int \<times> u8 list \<times> pty_t) option" where
  "read_min pr sz vmin got pt =
     (if length got < vmin then do {
        (r, bs, pt) \<leftarrow> read_in pr (sz - length got) pt;
        if r \<le> 0 then Some (if got \<noteq> [] then int (length got) else r, got, pt) else read_min pr sz vmin (got @ bs) pt }
      else Some (int (length got), got, pt))"

definition read_pty_slave :: "tty_proc \<Rightarrow> nat \<Rightarrow> pty_t \<Rightarrow> (int \<times> u8 list \<times> pty_t) option" where
  "read_pty_slave pr sz pt =
     (if background pr pt then
        (if ignoring pr SIGTTIN then Some (- EIO, [], pt)
         else Some (- ERESTARTSYS, [], group_send_signal (tp_job pr) SIGTTIN pt))
      else if lflag pt ICANON then read_in pr sz pt
      else if cc pt VMIN = 0 then read_in pr sz pt
      else read_min pr sz (min (unat (cc pt VMIN)) sz) [] pt)"

definition write_pty_slave :: "tty_driver \<Rightarrow> tty_proc \<Rightarrow> u8 list \<Rightarrow> pty_t \<Rightarrow> tty_result" where
  "write_pty_slave D pr buffer pt =
     (if lflag pt TOSTOP \<and> background pr pt \<and> \<not> ignoring pr SIGTTOU
      then Some (- ERESTARTSYS, group_send_signal (tp_job pr) SIGTTOU pt)
      else put_all (tty_output_process D pr) True buffer 0 pt)"

definition check_pty_master :: "pty_t \<Rightarrow> int" where
  "check_pty_master pt = (if 0 < ring_buffer_unread (pt_out pt) then 0 else 1)"

definition check_pty_slave :: "pty_t \<Rightarrow> int" where
  "check_pty_slave pt = (if 0 < ring_buffer_unread (pt_in pt) then 0 else 1)"

definition wait_pty_master :: "addr \<Rightarrow> addr \<Rightarrow> addr list \<Rightarrow> pty_t \<Rightarrow> int \<times> addr list \<times> pty_t" where
  "wait_pty_master self process node_waits pt =
     (let (rb, nw) = ring_buffer_select_wait (pt_out pt) self process node_waits in (0, nw, pt\<lparr>pt_out := rb\<rparr>))"

definition wait_pty_slave :: "addr \<Rightarrow> addr \<Rightarrow> addr list \<Rightarrow> pty_t \<Rightarrow> int \<times> addr list \<times> pty_t" where
  "wait_pty_slave self process node_waits pt =
     (let (rb, nw) = ring_buffer_select_wait (pt_in pt) self process node_waits in (0, nw, pt\<lparr>pt_in := rb\<rparr>))"

abbreviation (input) FS_CHARDEVICE :: u64 where "FS_CHARDEVICE \<equiv> 0x04"
abbreviation (input) FS_PIPE :: u64 where "FS_PIPE \<equiv> 0x10"

definition pty_master_create :: "tty_proc \<Rightarrow> fs_node" where
  "pty_master_create pr = \<lparr>n_mount = NULL, n_mask = 0x1B6, n_uid = tp_user pr, n_gid = tp_group pr, n_flags = FS_PIPE, n_refcount = 0,
     n_ops = {Mread, Mwrite, Mopen, Mclose, Mselectcheck, Mselectwait, Mioctl}, n_dir = None\<rparr>"

definition pty_slave_create :: "tty_proc \<Rightarrow> fs_node" where
  "pty_slave_create pr = \<lparr>n_mount = NULL, n_mask = 0x190, n_uid = tp_user pr, n_gid = 3, n_flags = FS_CHARDEVICE, n_refcount = 0,
     n_ops = {Mread, Mwrite, Mopen, Mclose, Mselectcheck, Mselectwait, Mioctl, Mchmod, Mchown}, n_dir = None\<rparr>"

definition chmod_pty_slave :: "u32 \<Rightarrow> pty_t \<Rightarrow> tty_result" where
  "chmod_pty_slave mode pt = do { n \<leftarrow> pt_slave_node pt; Some (0, pt\<lparr>pt_slave_node := Some (n\<lparr>n_mask := mode\<rparr>)\<rparr>) }"

definition chown_pty_slave :: "u32 \<Rightarrow> u32 \<Rightarrow> pty_t \<Rightarrow> tty_result" where
  "chown_pty_slave uid gid pt = do {
     n \<leftarrow> pt_slave_node pt;
     let n = (if uid \<noteq> - 1 then n\<lparr>n_uid := uid\<rparr> else n);
     let n = (if gid \<noteq> - 1 then n\<lparr>n_gid := gid\<rparr> else n);
     Some (0, pt\<lparr>pt_slave_node := Some n\<rparr>) }"

section \<open>The table of terminals\<close>

text \<open>
  The terminals by address, the counter and the index by number, which exists once the first terminal was made.  What
  \<^verbatim>\<open>malloc\<close> returns is an argument, as are the bytes in newly allocated memory.  \<open>ps_proc_pty\<close> is the terminal in the \<^verbatim>\<open>pty\<close> field of each
  process, and \<open>ps_mounted\<close> records the calls of \<^verbatim>\<open>vfs_mount\<close>.
\<close>

record pts =
  ps_counter :: u32
  ps_index :: "u64 hashmap_t option"
  ps_ptys :: "addr \<Rightarrow> pty_t option"
  ps_proc_pty :: "addr \<Rightarrow> addr"
  ps_mounted :: "(u8 list \<times> fs_node) list"

definition TTY_BUFFER_SIZE :: nat where "TTY_BUFFER_SIZE = 4096"

text \<open>What the allocations of a terminal return: the nodes of its ends, and the bytes in its buffers.\<close>

record tty_memory =
  tm_master :: addr
  tm_slave :: addr
  tm_in :: "u8 list"
  tm_out :: "u8 list"
  tm_canon :: "u8 list"
  tm_cc :: "u8 list"
  tm_pixels :: "u16 \<times> u16"

definition pty_tios :: "u8 list \<Rightarrow> termios" where
  "pty_tios mem = \<lparr>c_iflag = ICRNL OR BRKINT, c_oflag = ONLCR OR OPOST, c_cflag = 0x80 OR 0x30 OR 0x0F,
     c_lflag = ECHO OR ECHOE OR ECHOK OR ICANON OR ISIG OR IEXTEN OR ECHOCTL,
     c_cc = mem[VEOF := 4, VEOL := 0, VERASE := 0x7F, VINTR := 3, VKILL := 21, VMIN := 1, VQUIT := 28, 8 := 17, 9 := 19,
       VSUSP := 26, 11 := 0, VLNEXT := 22, VWERASE := 23]\<rparr>"

definition pty_fresh :: "tty_proc \<Rightarrow> winsize option \<Rightarrow> u64 \<Rightarrow> tty_memory \<Rightarrow> pty_t" where
  "pty_fresh pr win index mem = \<lparr>pt_name = index, pt_master = tm_master mem, pt_slave = tm_slave mem,
     pt_master_node = Some (pty_master_create pr), pt_slave_node = Some (pty_slave_create pr), pt_mtime = tp_now pr,
     pt_size = (case win of Some w \<Rightarrow> w | None \<Rightarrow> \<lparr>ws_row = 25, ws_col = 80, ws_xpixel = fst (tm_pixels mem), ws_ypixel = snd (tm_pixels mem)\<rparr>),
     pt_tios = pty_tios (tm_cc mem),
     pt_in = ring_buffer_create (of_nat TTY_BUFFER_SIZE) (tm_in mem), pt_out = ring_buffer_create (of_nat TTY_BUFFER_SIZE) (tm_out mem),
     canon_buffer = tm_canon mem, canon_bufsize = TTY_BUFFER_SIZE - 2, canon_buflen = 0, ct_proc = 0, fg_proc = 0,
     next_is_verbatim = False, master_closed = False, slave_closed = False, pt_waits = [], pt_woken = [], pt_sent = []\<rparr>"

definition create_pty_dir :: fs_node where
  "create_pty_dir = \<lparr>n_mount = NULL, n_mask = 0x16D, n_uid = 0, n_gid = 0, n_flags = FS_DIRECTORY, n_refcount = 0,
     n_ops = {Mreaddir, Mfinddir}, n_dir = None\<rparr>"

definition create_dev_tty :: fs_node where
  "create_dev_tty = \<lparr>n_mount = NULL, n_mask = 0x1FF, n_uid = 0, n_gid = 0, n_flags = 0x01 OR FS_SYMLINK, n_refcount = 0,
     n_ops = {Mreadlink}, n_dir = None\<rparr>"

text \<open>\<^verbatim>\<open>"/dev/pts"\<close> and \<^verbatim>\<open>"/dev/tty"\<close>\<close>

definition PTS_PATH :: "u8 list" where "PTS_PATH = [0x2F, 0x64, 0x65, 0x76, 0x2F, 0x70, 0x74, 0x73]"
definition TTY_PATH :: "u8 list" where "TTY_PATH = [0x2F, 0x64, 0x65, 0x76, 0x2F, 0x74, 0x74, 0x79]"

definition pty_install :: "pts \<Rightarrow> pts option" where
  "pty_install st = do {
     m \<leftarrow> hashmap_create_int 10;
     Some (st\<lparr>ps_index := Some m, ps_mounted := ps_mounted st @ [(PTS_PATH, create_pty_dir), (TTY_PATH, create_dev_tty)]\<rparr>) }"

text \<open>The number is an \<^verbatim>\<open>int\<close>, which the name of the terminal extends with its sign.\<close>

definition pty_new :: "tty_proc \<Rightarrow> winsize option \<Rightarrow> u32 \<Rightarrow> addr \<Rightarrow> tty_memory \<Rightarrow> pts \<Rightarrow> pts option" where
  "pty_new pr win index p mem st = do {
     st \<leftarrow> (if ps_index st = None then pty_install st else Some st);
     if p = NULL then None
     else do {
       let st = st\<lparr>ps_ptys := (ps_ptys st)(p \<mapsto> pty_fresh pr win (scast index) mem)\<rparr>;
       if index \<noteq> 0 then do { m \<leftarrow> ps_index st; (m, _) \<leftarrow> hashmap_set m (scast index) p; Some (st\<lparr>ps_index := Some m\<rparr>) }
       else Some st } }"

definition pty_create :: "tty_proc \<Rightarrow> winsize option \<Rightarrow> addr \<Rightarrow> tty_memory \<Rightarrow> pts \<Rightarrow> (int \<times> pts) option" where
  "pty_create pr win p mem st = do {
     let n = ps_counter st + 1;
     st \<leftarrow> pty_new pr win n p mem (st\<lparr>ps_counter := n\<rparr>);
     Some (0, st) }"

text \<open>A number in decimal digits, in 64 bits.\<close>

fun pty_number :: "u8 list \<Rightarrow> u64 \<Rightarrow> u64 option" where
  "pty_number [] c = Some c"
| "pty_number (d # ds) c = (if d < 0x30 \<or> 0x39 < d then None else pty_number ds (c * 10 + ucast d - 0x30))"

text \<open>The pointer to the node of the slave, or \<open>NULL\<close>.\<close>

definition finddir_pty :: "u8 list \<Rightarrow> pts \<Rightarrow> addr option" where
  "finddir_pty name st =
     (if name = [] then Some NULL
      else case pty_number name 0 of None \<Rightarrow> Some NULL
      | Some c \<Rightarrow> do {
          m \<leftarrow> ps_index st;
          p \<leftarrow> hashmap_get m c;
          if p = NULL then Some NULL else do { pt \<leftarrow> ps_ptys st p; Some (pt_slave pt) } })"

definition readdir_pty :: "nat \<Rightarrow> pts \<Rightarrow> (int \<times> (u8 list \<times> u64) option) option" where
  "readdir_pty index st =
     (if index = 0 then Some (1, Some (PATH_DOT, 0))
      else if index = 1 then Some (1, Some (PATH_UP, 0))
      else do {
        m \<leftarrow> ps_index st;
        let values = hashmap_values m;
        if index - 2 < length values then do {
          pt \<leftarrow> ps_ptys st (values ! (index - 2));
          (n, name) \<leftarrow> snprintf (replicate 100 0) 100 [0x25, 0x7A, 0x64] [VLong (pt_name pt)];
          Some (1, Some (takeWhile (\<lambda>b. b \<noteq> 0) name, pt_name pt)) }
        else Some (0, None) })"

text \<open>\<^verbatim>\<open>process_erase_field\<close> for the \<^verbatim>\<open>pty\<close> field: every process that has the value loses it.\<close>

definition process_erase_field :: "addr \<Rightarrow> pts \<Rightarrow> pts" where
  "process_erase_field p st = st\<lparr>ps_proc_pty := (\<lambda>q. if ps_proc_pty st q = p then NULL else ps_proc_pty st q)\<rparr>"

definition pty_teardown :: "addr \<Rightarrow> pts \<Rightarrow> pts option" where
  "pty_teardown p st = do {
     pt \<leftarrow> ps_ptys st p;
     st \<leftarrow> (if pt_name pt \<noteq> 0 then do { m \<leftarrow> ps_index st; (m, _) \<leftarrow> hashmap_remove m (pt_name pt); Some (st\<lparr>ps_index := Some m\<rparr>) } else Some st);
     let st = process_erase_field p st;
     Some (st\<lparr>ps_ptys := (ps_ptys st)(p := None)\<rparr>) }"

definition hang_up :: "pty_t \<Rightarrow> pty_t" where
  "hang_up pt =
     (let (i, w1) = ring_buffer_interrupt (pt_in pt); (out, w2) = ring_buffer_interrupt (pt_out pt);
          (i, w3) = ring_buffer_alert_waiters i; (out, w4) = ring_buffer_alert_waiters out;
          pt = pt\<lparr>pt_in := i, pt_out := out, pt_woken := pt_woken pt @ w1 @ w2 @ w3 @ w4\<rparr>
      in if ct_proc pt \<noteq> 0 then session_send_signal (ct_proc pt) SIGHUP pt else pt)"

definition close_pty_master :: "addr \<Rightarrow> pts \<Rightarrow> pts option" where
  "close_pty_master p st = do {
     pt \<leftarrow> ps_ptys st p;
     let pt = (hang_up pt)\<lparr>master_closed := True\<rparr>;
     let st = st\<lparr>ps_ptys := (ps_ptys st)(p \<mapsto> pt)\<rparr>;
     if slave_closed pt then pty_teardown p st else Some st }"

definition close_pty_slave :: "addr \<Rightarrow> pts \<Rightarrow> pts option" where
  "close_pty_slave p st = do {
     pt \<leftarrow> ps_ptys st p;
     let pt = pt\<lparr>slave_closed := True\<rparr>;
     let st = st\<lparr>ps_ptys := (ps_ptys st)(p \<mapsto> pt)\<rparr>;
     if master_closed pt then pty_teardown p st else Some st }"

text \<open>
  Opening and closing an end through \<^verbatim>\<open>open_fs\<close> and \<^verbatim>\<open>close_fs\<close>, which count the references to its node; the close method of the node
  is called when the last one is gone, and then the node is freed.  The open methods do nothing.  \<open>master\<close> tells the end.
\<close>

definition end_node :: "bool \<Rightarrow> pty_t \<Rightarrow> fs_node option" where
  "end_node master pt = (if master then pt_master_node pt else pt_slave_node pt)"

definition set_end :: "bool \<Rightarrow> fs_node option \<Rightarrow> pty_t \<Rightarrow> pty_t" where
  "set_end master n pt = (if master then pt\<lparr>pt_master_node := n\<rparr> else pt\<lparr>pt_slave_node := n\<rparr>)"

definition open_end :: "bool \<Rightarrow> addr \<Rightarrow> pts \<Rightarrow> pts option" where
  "open_end master p st = do {
     pt \<leftarrow> ps_ptys st p;
     n \<leftarrow> end_node master pt;
     let n = (if 0 \<le> n_refcount n then n\<lparr>n_refcount := n_refcount n + 1\<rparr> else n);
     Some (st\<lparr>ps_ptys := (ps_ptys st)(p \<mapsto> set_end master (Some n) pt)\<rparr>) }"

definition close_end :: "bool \<Rightarrow> addr \<Rightarrow> pts \<Rightarrow> pts option" where
  "close_end master p st = do {
     pt \<leftarrow> ps_ptys st p;
     n \<leftarrow> end_node master pt;
     if n_refcount n < 0 then Some st
     else do {
       let n = n\<lparr>n_refcount := n_refcount n - 1\<rparr>;
       let st = st\<lparr>ps_ptys := (ps_ptys st)(p \<mapsto> set_end master (Some n) pt)\<rparr>;
       if n_refcount n = 0 then do {
         st \<leftarrow> (if master then close_pty_master p st else close_pty_slave p st);
         Some (st\<lparr>ps_ptys := (ps_ptys st)(p := map_option (set_end master None) (ps_ptys st p))\<rparr>) }
       else Some st } }"

text \<open>
  Requests at one of the ends; \<open>leader\<close> is the process that the calling thread belongs to.
\<close>

definition ioctl_pty :: "tty_driver \<Rightarrow> tty_proc \<Rightarrow> addr \<Rightarrow> bool \<Rightarrow> addr \<Rightarrow> u64 \<Rightarrow> uarg \<Rightarrow> pts \<Rightarrow> (int \<times> uout \<times> pts) option" where
  "ioctl_pty D pr leader is_master p request a st = do {
     pt \<leftarrow> ps_ptys st p;
     (r, out, pt) \<leftarrow> pty_ioctl D pr is_master request a pt;
     let st = st\<lparr>ps_ptys := (ps_ptys st)(p \<mapsto> pt)\<rparr>;
     Some (r, out, if out = Controlling then st\<lparr>ps_proc_pty := (ps_proc_pty st)(leader := p)\<rparr> else st) }"

definition pty_available_input :: "pty_t \<Rightarrow> int" where
  "pty_available_input pt = sint (ring_buffer_unread (pt_in pt))"

definition pty_available_output :: "pty_t \<Rightarrow> int" where
  "pty_available_output pt = sint (ring_buffer_unread (pt_out pt))"

section \<open>The terminal of a process\<close>

text \<open>\<^verbatim>\<open>"/dev/null"\<close>; \<open>tmp\<close> is what the buffer on the stack holds.\<close>

definition DEV_NULL :: "u8 list" where "DEV_NULL = [0x2F, 0x64, 0x65, 0x76, 0x2F, 0x6E, 0x75, 0x6C, 0x6C]"

definition readlink_dev_tty :: "tty_driver \<Rightarrow> addr \<Rightarrow> u8 list \<Rightarrow> nat \<Rightarrow> pts \<Rightarrow> (int \<times> u8 list) option" where
  "readlink_dev_tty D leader tmp sz st = do {
     (_, tmp) \<leftarrow> (if ps_proc_pty st leader = NULL then snprintf tmp 100 DEV_NULL []
                 else do { pt \<leftarrow> ps_ptys st (ps_proc_pty st leader); fill_name D pt 100 tmp });
     if 0 \<in> set tmp then
       (let name = takeWhile (\<lambda>b. b \<noteq> 0) tmp; len = (if sz < length name then sz else length name)
        in Some (int len, take len name))
     else None }"

definition get_size_dev_tty :: "tty_driver \<Rightarrow> addr \<Rightarrow> pts \<Rightarrow> int option" where
  "get_size_dev_tty D leader st =
     (if ps_proc_pty st leader = NULL then Some (int (length DEV_NULL))
      else do { pt \<leftarrow> ps_ptys st (ps_proc_pty st leader); (n, _) \<leftarrow> fill_name D pt 0 []; Some n })"

definition process_get_tty :: "tty_driver \<Rightarrow> addr \<Rightarrow> nat \<Rightarrow> u8 list \<Rightarrow> pts \<Rightarrow> (int \<times> u8 list) option" where
  "process_get_tty D leader len out st =
     (if ps_proc_pty st leader = NULL then Some (0, out)
      else do { pt \<leftarrow> ps_ptys st (ps_proc_pty st leader); fill_name D pt len out })"

section \<open>Room in the buffers\<close>

text \<open>Only the buffers, and what belongs to waiting for them, are different.\<close>

definition rings_only :: "pty_t \<Rightarrow> pty_t \<Rightarrow> bool" where
  "rings_only pt pt' \<longleftrightarrow> pt' = pt\<lparr>pt_in := pt_in pt', pt_out := pt_out pt', pt_waits := pt_waits pt', pt_woken := pt_woken pt'\<rparr>"

lemma rings_only_refl [simp]: "rings_only pt pt"
  by (simp add: rings_only_def)

lemma rings_only_trans: "rings_only a b \<Longrightarrow> rings_only b c \<Longrightarrow> rings_only a c"
  by (cases a; cases b; cases c) (simp add: rings_only_def)

lemma rings_only_fields:
  assumes "rings_only pt pt'"
  shows "canon_buffer pt' = canon_buffer pt" "canon_buflen pt' = canon_buflen pt" "canon_bufsize pt' = canon_bufsize pt" "pt_tios pt' = pt_tios pt"
    "next_is_verbatim pt' = next_is_verbatim pt" "fg_proc pt' = fg_proc pt" "pt_sent pt' = pt_sent pt" "pt_slave_node pt' = pt_slave_node pt"
  by (subst assms [unfolded rings_only_def], simp)+

text \<open>The line that is being typed, and when the buffer that holds it is sound and the slave has not been closed.\<close>

definition typed :: "pty_t \<Rightarrow> u8 list" where
  "typed pt = take (canon_buflen pt) (canon_buffer pt)"

definition line_ok :: "pty_t \<Rightarrow> bool" where
  "line_ok pt \<longleftrightarrow> canon_buflen pt \<le> canon_bufsize pt \<and> 0 < canon_bufsize pt \<and> canon_bufsize pt < length (canon_buffer pt) \<and>
     pt_slave_node pt \<noteq> None"

text \<open>An operation changed the line and perhaps the buffers, but none of the settings.\<close>

definition edited :: "pty_t \<Rightarrow> pty_t \<Rightarrow> bool" where
  "edited pt pt' \<longleftrightarrow> line_ok pt' \<and> canon_bufsize pt' = canon_bufsize pt \<and> pt_tios pt' = pt_tios pt \<and> fg_proc pt' = fg_proc pt \<and> next_is_verbatim pt' = next_is_verbatim pt"

lemma rings_only_typed: "rings_only pt pt' \<Longrightarrow> typed pt' = typed pt" "rings_only pt pt' \<Longrightarrow> line_ok pt \<Longrightarrow> edited pt pt'"
  by (simp_all add: typed_def edited_def line_ok_def rings_only_fields)

lemma edited_trans: "edited a b \<Longrightarrow> edited b c \<Longrightarrow> edited a c"
  by (simp add: edited_def)

lemma length_typed: "line_ok pt \<Longrightarrow> length (typed pt) = canon_buflen pt"
  by (simp add: typed_def line_ok_def)

lemma last_typed: "line_ok pt \<Longrightarrow> 0 < canon_buflen pt \<Longrightarrow> canon_buffer pt ! (canon_buflen pt - 1) = last (typed pt)"
  by (subst last_conv_nth) (auto simp: typed_def line_ok_def)

lemma push_char_line:
  assumes "line_ok pt"
  shows "\<exists>pt'. push_char c pt = Some pt' \<and> edited pt pt' \<and> typed pt' = (if length (typed pt) < canon_bufsize pt then typed pt @ [c] else typed pt) \<and>
    pt_in pt' = pt_in pt \<and> pt_out pt' = pt_out pt \<and> pt_waits pt' = pt_waits pt"
  using assms by (auto simp: push_char_def edited_def typed_def line_ok_def take_Suc_conv_app_nth)

lemma clear_line:
  assumes "line_ok pt"
  shows "\<exists>pt'. clear_input_buffer pt = Some pt' \<and> edited pt pt' \<and> typed pt' = [] \<and> pt_in pt' = pt_in pt \<and> pt_out pt' = pt_out pt \<and> pt_waits pt' = pt_waits pt"
  using assms by (auto simp: clear_input_buffer_def edited_def typed_def line_ok_def)

text \<open>
  Editing a line as the user sees it: the text typed so far, whether the next character is taken as it is, and the input that may be
  read.  \<open>m\<close> is the length a line can have.
\<close>

record line =
  ln_text :: "u8 list"
  ln_verbatim :: bool
  ln_input :: "u8 list"

definition add_char :: "nat \<Rightarrow> u8 \<Rightarrow> u8 list \<Rightarrow> u8 list" where
  "add_char m c t = (if length t < m then t @ [c] else t)"

definition erase_word :: "u8 list \<Rightarrow> u8 list" where
  "erase_word t = rev (dropWhile (\<lambda>x. x \<noteq> 0x20) (dropWhile (\<lambda>x. x = 0x20) (rev t)))"

definition edit_canon :: "termios \<Rightarrow> nat \<Rightarrow> u8 \<Rightarrow> line \<Rightarrow> line" where
  "edit_canon t m c l = (let is = (\<lambda>k. c = c_cc t ! k); extended = tflag (c_lflag t) IEXTEN in
     if is VLNEXT \<and> extended then l\<lparr>ln_verbatim := True\<rparr>
     else if is VKILL then l\<lparr>ln_text := []\<rparr>
     else if is VERASE then l\<lparr>ln_text := butlast (ln_text l)\<rparr>
     else if is VWERASE \<and> extended then l\<lparr>ln_text := erase_word (ln_text l)\<rparr>
     else if is VEOF then l\<lparr>ln_text := [], ln_input := ln_input l @ ln_text l\<rparr>
     else if c = 10 \<or> (c_cc t ! VEOL \<noteq> 0 \<and> is VEOL)
       then l\<lparr>ln_text := [], ln_input := ln_input l @ butlast (add_char m c (ln_text l)) @ [c]\<rparr>
     else l\<lparr>ln_text := add_char m c (ln_text l)\<rparr>)"

definition edit :: "termios \<Rightarrow> nat \<Rightarrow> u8 \<Rightarrow> line \<Rightarrow> line" where
  "edit t m c l =
     (if ln_verbatim l then l\<lparr>ln_verbatim := False, ln_text := add_char m c (ln_text l)\<rparr>
      else if tflag (c_lflag t) ISIG \<and> c \<in> {c_cc t ! VINTR, c_cc t ! VQUIT, c_cc t ! VSUSP} then l\<lparr>ln_text := []\<rparr>
      else case input_modes (c_iflag t) c of
        None \<Rightarrow> l
      | Some c \<Rightarrow> if tflag (c_lflag t) ICANON then edit_canon t m c l else l\<lparr>ln_input := ln_input l @ [c]\<rparr>)"

definition line_of :: "(pty_t \<Rightarrow> u8 list) \<Rightarrow> pty_t \<Rightarrow> line" where
  "line_of input pt = \<lparr>ln_text = typed pt, ln_verbatim = next_is_verbatim pt, ln_input = input pt\<rparr>"

text \<open>
  A call returned 1, with a sound line, the settings unchanged, and a given line.  For each character of the line there is room to
  hand it over and to erase it.
\<close>

definition yields :: "(nat \<Rightarrow> nat \<Rightarrow> pty_t \<Rightarrow> bool) \<Rightarrow> (pty_t \<Rightarrow> u8 list) \<Rightarrow> nat \<Rightarrow> nat \<Rightarrow> pty_t \<Rightarrow> line \<Rightarrow> tty_result \<Rightarrow> bool" where
  "yields room input i n pt l r \<longleftrightarrow> (\<exists>pt'. r = Some (1, pt') \<and> room (i + canon_buflen pt') (n + 12 * canon_buflen pt') pt' \<and> line_ok pt' \<and>
     canon_bufsize pt' = canon_bufsize pt \<and> pt_tios pt' = pt_tios pt \<and> fg_proc pt' = fg_proc pt \<and> line_of input pt' = l)"

text \<open>
  What the line discipline needs of the two functions that take a character: as long as there is room for \<open>i\<close> characters
  of input and \<open>n\<close> of output they succeed, and the input that is waiting to be read grows by the character.
\<close>

locale tty_room =
  fixes D :: tty_driver and pr :: tty_proc and room :: "nat \<Rightarrow> nat \<Rightarrow> pty_t \<Rightarrow> bool" and input :: "pty_t \<Rightarrow> u8 list"
  assumes room_out: "room i (Suc n) pt \<Longrightarrow>
      \<exists>k pt'. write_out D pr c pt = Some (k, pt') \<and> 0 \<le> k \<and> room i n pt' \<and> rings_only pt pt' \<and> input pt' = input pt"
    and room_in: "room (Suc i) n pt \<Longrightarrow>
      \<exists>k pt'. write_in D pr c pt = Some (k, pt') \<and> 0 \<le> k \<and> room i n pt' \<and> rings_only pt pt' \<and> input pt' = input pt @ [c]"
    and room_less: "room i n pt \<Longrightarrow> i' \<le> i \<Longrightarrow> n' \<le> n \<Longrightarrow> room i' n' pt"
    and room_rings: "pt_in pt = pt_in pt' \<Longrightarrow> pt_out pt = pt_out pt' \<Longrightarrow> pt_waits pt = pt_waits pt' \<Longrightarrow> room i n pt = room i n pt'"
    and input_rings: "pt_in pt = pt_in pt' \<Longrightarrow> input pt = input pt'"
    and room_eof: "room i n pt \<Longrightarrow> room i n (pt\<lparr>pt_in := fst (ring_buffer_eof (pt_in pt))\<rparr>) \<and> input (pt\<lparr>pt_in := fst (ring_buffer_eof (pt_in pt))\<rparr>) = input pt"
begin

lemma output_room:
  assumes "room i (n + 2) pt"
  shows "\<exists>pt'. tty_output_process D pr c pt = Some (1, pt') \<and> room i n pt' \<and> rings_only pt pt' \<and> input pt' = input pt"
proof -
  have one: "\<exists>pt'. chk (write_out D pr d pt) (\<lambda>pt. Some (1, pt)) = Some (1, pt') \<and> room i n pt' \<and> rings_only pt pt' \<and> input pt' = input pt" for d
    using room_out [of i n pt d] room_less [OF assms, of i "Suc n"] by (auto simp: chk_def)
  have two: "\<exists>pt'. chk (write_out D pr 10 pt) (\<lambda>pt. chk (write_out D pr 13 pt) (\<lambda>pt. Some (1, pt))) = Some (1, pt') \<and> room i n pt' \<and> rings_only pt pt' \<and> input pt' = input pt"
  proof -
    obtain k p1 where p1: "write_out D pr 10 pt = Some (k, p1)" "0 \<le> k" "room i (Suc n) p1" "rings_only pt p1" "input p1 = input pt"
      using room_out [of i "Suc n" pt 10] assms by auto
    obtain k' p2 where p2: "write_out D pr 13 p1 = Some (k', p2)" "0 \<le> k'" "room i n p2" "rings_only p1 p2" "input p2 = input p1"
      using room_out [OF p1(3), of 13] by auto
    show ?thesis using p1 p2 rings_only_trans [OF p1(4) p2(4)] by (auto simp: chk_def)
  qed
  show ?thesis using one two room_less [OF assms, of i n] by (auto simp: tty_output_process_def Let_def)
qed

lemma output_if_room:
  assumes "room i (n + 2) pt"
  shows "\<exists>k pt'. (if b then tty_output_process D pr c pt else Some (0, pt)) = Some (k, pt') \<and> 0 \<le> k \<and> room i n pt' \<and> rings_only pt pt' \<and> input pt' = input pt"
  using output_room [OF assms, of c] room_less [OF assms, of i n] by (cases b) auto

lemma echo_room:
  assumes "room i (n + 4) pt"
  shows "\<exists>k pt'. echo_if D pr cond caret c pt = Some (k, pt') \<and> 0 \<le> k \<and> room i n pt' \<and> rings_only pt pt' \<and> input pt' = input pt"
proof -
  have r2: "room i (n + 2) pt" "room i n pt" "room i ((n + 2) + 2) pt" using assms room_less [OF assms] by (simp_all add: add.commute)
  obtain p1 where p1: "tty_output_process D pr 0x5E pt = Some (1, p1)" "room i (n + 2) p1" "rings_only pt p1" "input p1 = input pt"
    using output_room [OF r2(3), of "0x5E"] by auto
  obtain p2 where p2: "tty_output_process D pr ((0x40 + c) mod 128) p1 = Some (1, p2)" "room i n p2" "rings_only p1 p2" "input p2 = input p1"
    using output_room [OF p1(2), of "(0x40 + c) mod 128"] by auto
  show ?thesis
    using output_room [OF r2(1), of c] p1 p2 rings_only_trans [OF p1(3) p2(3)] r2(2)
    by (auto simp: echo_if_def echo_char_def chk_def)
qed

lemma backspaces_room:
  assumes "room i (n + 6 * k) pt"
  shows "\<exists>pt'. backspaces D pr k pt = Some (0, pt') \<and> room i n pt' \<and> rings_only pt pt' \<and> input pt' = input pt"
  using assms
proof (induction k arbitrary: pt)
  case (Suc k)
  have "room i (((n + 6 * k + 2) + 2) + 2) pt" by (rule room_less [OF Suc.prems]) simp_all
  then obtain p1 where p1: "tty_output_process D pr 8 pt = Some (1, p1)" "room i ((n + 6 * k + 2) + 2) p1" "rings_only pt p1" "input p1 = input pt"
    using output_room [of i "(n + 6 * k + 2) + 2" pt 8] by auto
  obtain p2 where p2: "tty_output_process D pr 0x20 p1 = Some (1, p2)" "room i (n + 6 * k + 2) p2" "rings_only p1 p2" "input p2 = input p1"
    using output_room [OF p1(2), of "0x20"] by auto
  obtain p3 where p3: "tty_output_process D pr 8 p2 = Some (1, p3)" "room i (n + 6 * k) p3" "rings_only p2 p3" "input p3 = input p2"
    using output_room [OF p2(2), of 8] by auto
  obtain p4 where p4: "backspaces D pr k p3 = Some (0, p4)" "room i n p4" "rings_only p3 p4" "input p4 = input p3"
    using Suc.IH [OF p3(2)] by auto
  have "rings_only pt p4" using p1(3) p2(3) p3(3) p4(3) by (blast intro: rings_only_trans)
  then show ?case using p1 p2 p3 p4 by (auto simp: chk_def)
qed simp

lemma erase_one_room:
  assumes "room i (n + 12) pt" "line_ok pt"
  shows "\<exists>pt'. tty_erase_one D pr erase pt = Some (0, pt') \<and> room i n pt' \<and> edited pt pt' \<and> typed pt' = butlast (typed pt) \<and> input pt' = input pt"
proof (cases "0 < canon_buflen pt")
  case True
  let ?n = "canon_buflen pt - 1"
  let ?p = "pt\<lparr>canon_buflen := ?n, canon_buffer := (canon_buffer pt)[?n := 0]\<rparr>"
  define v where "v = (if is_control (sint (canon_buffer pt ! ?n)) then 2 else (1 :: nat))"
  have v: "v \<le> 2" by (simp add: v_def)
  have "room i (n + 12) ?p" using assms(1) room_rings [of ?p pt] by simp
  then have r: "room i (n + 6 * v) ?p" "room i n ?p" using v by (auto elim!: room_less)
  have p: "line_ok ?p" "typed ?p = butlast (typed pt)" "edited pt ?p" "input ?p = input pt"
    using assms(2) True input_rings [of ?p pt] by (auto simp: line_ok_def edited_def typed_def butlast_take)
  obtain q where q: "backspaces D pr v ?p = Some (0, q)" "room i n q" "rings_only ?p q" "input q = input ?p"
    using backspaces_room [OF r(1)] by auto
  have "edited pt q" "typed q = butlast (typed pt)" using p q(3) rings_only_typed [OF q(3)] edited_trans [OF p(3)] by simp_all
  moreover have "?n < length (canon_buffer pt)" using assms(2) True by (auto simp: line_ok_def)
  ultimately show ?thesis using True p q r(2) by (auto simp: tty_erase_one_def Let_def v_def)
next
  case False
  then show ?thesis using assms room_less [OF assms(1), of i n] by (simp add: tty_erase_one_def typed_def edited_def)
qed

lemma erase_while_room:
  assumes "room i (n + 12 * canon_buflen pt) pt" "line_ok pt"
  shows "\<exists>pt'. erase_while D pr P erase pt = Some (0, pt') \<and> room i (n + 12 * canon_buflen pt') pt' \<and> edited pt pt' \<and> typed pt' = rev (dropWhile P (rev (typed pt))) \<and> input pt' = input pt"
  using assms
proof (induction "canon_buflen pt" arbitrary: pt)
  case 0
  then show ?case by (subst erase_while.simps) (simp add: typed_def edited_def)
next
  case (Suc k)
  have l: "0 < canon_buflen pt" "canon_buflen pt - 1 < length (canon_buffer pt)" using Suc.hyps(2) Suc.prems(2) by (auto simp: line_ok_def)
  have ne: "typed pt \<noteq> []" using length_typed [OF Suc.prems(2)] l(1) by auto
  then have split: "rev (typed pt) = last (typed pt) # rev (butlast (typed pt))" by (cases "typed pt" rule: rev_cases) simp_all
  note la = last_typed [OF Suc.prems(2) l(1)]
  show ?case
  proof (cases "P (last (typed pt))")
    case True
    have "room i (n + 12 * k + 12) pt" using Suc.prems(1) Suc.hyps(2) by (auto elim!: room_less)
    then obtain p1 where p1: "tty_erase_one D pr erase pt = Some (0, p1)" "room i (n + 12 * k) p1" "edited pt p1" "typed p1 = butlast (typed pt)" "input p1 = input pt"
      using erase_one_room [of i "n + 12 * k" pt erase] Suc.prems(2) by auto
    have lok: "line_ok p1" using p1(3) by (simp add: edited_def)
    then have "k = canon_buflen p1" using p1(4) length_typed Suc.prems(2) Suc.hyps(2) by (metis diff_Suc_1 length_butlast)
    then obtain p2 where p2: "erase_while D pr P erase p1 = Some (0, p2)" "room i (n + 12 * canon_buflen p2) p2" "edited p1 p2" "typed p2 = rev (dropWhile P (rev (typed p1)))" "input p2 = input p1"
      using Suc.hyps(1) [of p1] p1(2) lok by auto
    moreover have "dropWhile P (rev (typed pt)) = dropWhile P (rev (butlast (typed pt)))" unfolding split using True by simp
    ultimately show ?thesis
      using p1 l la True edited_trans [OF p1(3) p2(3)] by (subst erase_while.simps) simp
  next
    case False
    then have "dropWhile P (rev (typed pt)) = rev (typed pt)" unfolding split by simp
    then show ?thesis
      using False l la Suc.prems by (subst erase_while.simps) (simp add: edited_def)
  qed
qed

lemma dump_loop_room:
  assumes "room (i + k) n pt" "j + k \<le> length (canon_buffer pt)"
  shows "\<exists>w pt'. dump_loop D pr j k pt = Some (w, pt') \<and> room i n pt' \<and> input pt' = input pt @ take k (drop j (canon_buffer pt)) \<and>
    rings_only (pt\<lparr>canon_buflen := (if k = 0 then canon_buflen pt else 0)\<rparr>) pt'"
  using assms
proof (induction k arbitrary: j pt)
  case (Suc k)
  obtain w1 p1 where p1: "write_in D pr (canon_buffer pt ! j) pt = Some (w1, p1)" "0 \<le> w1" "room (i + k) n p1" "rings_only pt p1"
      "input p1 = input pt @ [canon_buffer pt ! j]"
    using room_in [of "i + k" n pt "canon_buffer pt ! j"] Suc.prems(1) by auto
  let ?p = "p1\<lparr>canon_buflen := k\<rparr>"
  have b: "canon_buffer ?p = canon_buffer pt" using rings_only_fields [OF p1(4)] by simp
  have "room (i + k) n ?p" "input ?p = input p1" using p1(3) room_rings [of ?p p1] input_rings [of ?p p1] by simp_all
  then obtain w2 p2 where p2: "dump_loop D pr (Suc j) k ?p = Some (w2, p2)" "room i n p2" "input p2 = input p1 @ take k (drop (Suc j) (canon_buffer pt))"
      "rings_only (?p\<lparr>canon_buflen := (if k = 0 then canon_buflen ?p else 0)\<rparr>) p2"
    using Suc.IH [of ?p "Suc j"] Suc.prems(2) b by auto
  have "rings_only (pt\<lparr>canon_buflen := 0\<rparr>) (?p\<lparr>canon_buflen := (if k = 0 then canon_buflen ?p else 0)\<rparr>)"
    using p1(4) by (cases pt; cases p1) (simp add: rings_only_def)
  then have "rings_only (pt\<lparr>canon_buflen := 0\<rparr>) p2" using p2(4) by (rule rings_only_trans)
  moreover have "take (Suc k) (drop j (canon_buffer pt)) = canon_buffer pt ! j # take k (drop (Suc j) (canon_buffer pt))"
    using Suc.prems(2) by (simp add: Cons_nth_drop_Suc [symmetric])
  ultimately show ?case using p1 p2 Suc.prems(2) by (auto simp: chk_def)
qed simp

lemma dump_room:
  assumes "room (i + canon_buflen pt) n pt" "line_ok pt"
  shows "\<exists>w pt'. dump_input_buffer D pr pt = Some (w, pt') \<and> room i n pt' \<and> input pt' = input pt @ typed pt \<and> edited pt pt' \<and> typed pt' = []"
proof -
  obtain w pt' where d: "dump_loop D pr 0 (canon_buflen pt) pt = Some (w, pt')" "room i n pt'" "input pt' = input pt @ typed pt"
      "rings_only (pt\<lparr>canon_buflen := (if canon_buflen pt = 0 then canon_buflen pt else 0)\<rparr>) pt'"
    using dump_loop_room [OF assms(1), of 0] assms(2) by (auto simp: line_ok_def typed_def)
  let ?p = "pt\<lparr>canon_buflen := 0\<rparr>"
  have "(if canon_buflen pt = 0 then canon_buflen pt else 0) = 0" by simp
  note r = d(4) [unfolded this]
  have "edited pt ?p" "line_ok ?p" "typed ?p = []" using assms(2) by (simp_all add: edited_def line_ok_def typed_def)
  then have "edited pt pt'" "typed pt' = []" using rings_only_typed [OF r] edited_trans by metis+
  then show ?thesis using d by (auto simp: dump_input_buffer_def)
qed

lemma yields_echo:
  assumes "room (i + canon_buflen pt) (n + 12 * canon_buflen pt + 4) pt" "line_ok pt" "line_of input pt = l" "canon_bufsize pt = canon_bufsize p0" "pt_tios pt = pt_tios p0" "fg_proc pt = fg_proc p0"
  shows "yields room input i n p0 l (chk (echo_if D pr cond caret c pt) (\<lambda>pt. Some (1, pt)))"
proof -
  obtain k pt' where e: "echo_if D pr cond caret c pt = Some (k, pt')" "0 \<le> k" "room (i + canon_buflen pt) (n + 12 * canon_buflen pt) pt'"
      "rings_only pt pt'" "input pt' = input pt"
    using echo_room [OF assms(1)] by blast
  have "line_of input pt' = l" using assms(3) e(5) rings_only_typed(1) [OF e(4)] rings_only_fields(5) [OF e(4)] by (simp add: line_of_def)
  moreover have "edited pt pt'" by (rule rings_only_typed(2) [OF e(4) assms(2)])
  ultimately show ?thesis using e assms(4-6) rings_only_fields(2) [OF e(4)] by (auto simp: yields_def chk_def edited_def)
qed

lemma add_char_length: "length (add_char m c t) \<le> length t + 1"
  by (simp add: add_char_def)

lemma verbatim_room:
  assumes "room (i + canon_buflen pt + 1) (n + 12 * canon_buflen pt + 16) pt" "line_ok pt"
  shows "yields room input i n pt ((line_of input pt)\<lparr>ln_verbatim := False, ln_text := add_char (canon_bufsize pt) c (typed pt)\<rparr>) (tty_verbatim D pr c pt)"
proof -
  let ?p = "pt\<lparr>next_is_verbatim := False\<rparr>"
  have "line_ok ?p" using assms(2) by (simp add: line_ok_def)
  then obtain q where q: "push_char c ?p = Some q" "edited ?p q" "typed q = add_char (canon_bufsize pt) c (typed pt)"
      "pt_in q = pt_in ?p" "pt_out q = pt_out ?p" "pt_waits q = pt_waits ?p"
    using push_char_line [of ?p c] by (auto simp: typed_def add_char_def)
  have "canon_buflen q \<le> canon_buflen pt + 1"
    using add_char_length [of "canon_bufsize pt" c "typed pt"] q(2,3) length_typed [of q] length_typed [OF assms(2)] by (simp add: edited_def)
  then have "room (i + canon_buflen q) (n + 12 * canon_buflen q + 4) pt" by (intro room_less [OF assms(1)]) simp_all
  then have "room (i + canon_buflen q) (n + 12 * canon_buflen q + 4) q" "input q = input pt"
    using room_rings [of q pt] input_rings [of q pt] q(4-6) by simp_all
  then show ?thesis
    using q by (auto simp: tty_verbatim_def edited_def line_of_def intro!: yields_echo)
qed

lemma send_room:
  assumes "room i (n + 4) pt" "line_ok pt"
  shows "yields room input i n pt ((line_of input pt)\<lparr>ln_text := []\<rparr>) (tty_send D pr sig c pt)"
proof -
  obtain k p1 where e: "echo_if D pr (lflag pt ECHO) True c pt = Some (k, p1)" "0 \<le> k" "room i n p1" "rings_only pt p1" "input p1 = input pt"
    using echo_room [OF assms(1)] by blast
  note ed = rings_only_typed(2) [OF e(4) assms(2)]
  then obtain p2 where p2: "clear_input_buffer p1 = Some p2" "edited p1 p2" "typed p2 = []" "pt_in p2 = pt_in p1" "pt_out p2 = pt_out p1" "pt_waits p2 = pt_waits p1"
    using clear_line [of p1] by (auto simp: edited_def)
  define q where "q = (if fg_proc p2 \<noteq> 0 then group_send_signal (fg_proc p2) sig p2 else p2)"
  have "room i n q" "input q = input pt" using e(3,5) room_rings [of q p1] input_rings [of q p1] p2(4-6) by (simp_all add: q_def group_send_signal_def)
  moreover have "edited pt q" "typed q = []" using edited_trans [OF ed p2(2)] p2(3)
    by (simp_all add: q_def group_send_signal_def edited_def line_ok_def typed_def)
  moreover have "tty_send D pr sig c pt = Some (1, q)" using e p2(1) by (simp add: tty_send_def chk_def q_def)
  ultimately show ?thesis using length_typed [of q] by (simp add: yields_def edited_def line_of_def)
qed

lemma eol_room:
  assumes "room (i + canon_buflen pt) n pt" "line_ok pt" "0 < canon_buflen pt"
  shows "\<exists>w pt'. dump_input_buffer D pr (pt\<lparr>canon_buffer := (canon_buffer pt)[canon_buflen pt - 1 := c]\<rparr>) = Some (w, pt') \<and> room i n pt' \<and>
    input pt' = input pt @ butlast (typed pt) @ [c] \<and> edited pt pt' \<and> typed pt' = []"
proof -
  let ?p = "pt\<lparr>canon_buffer := (canon_buffer pt)[canon_buflen pt - 1 := c]\<rparr>"
  have lok: "line_ok ?p" "edited pt ?p" using assms(2) by (simp_all add: edited_def line_ok_def)
  have ty: "typed ?p = butlast (typed pt) @ [c]"
    using assms(2,3) by (cases "canon_buflen pt") (auto simp: typed_def line_ok_def take_Suc_conv_app_nth butlast_append)
  have "room (i + canon_buflen ?p) n ?p" "input ?p = input pt" using assms(1) room_rings [of ?p pt] input_rings [of ?p pt] by simp_all
  then show ?thesis using dump_room [OF _ lok(1), of i n] ty edited_trans [OF lok(2)] by fastforce
qed

lemma canon_char_room:
  fixes c :: u8
  assumes "room (i + canon_buflen pt + 1) (n + 12 * canon_buflen pt + 18) pt" "line_ok pt"
  defines "t \<equiv> add_char (canon_bufsize pt) c (typed pt)"
    and "eol \<equiv> c = 10 \<or> (cc pt VEOL \<noteq> 0 \<and> c = cc pt VEOL)"
  shows "yields room input i n pt
     ((line_of input pt)\<lparr>ln_text := (if eol then [] else t), ln_input := (if eol then input pt @ butlast t @ [c] else input pt)\<rparr>)
     (tty_canon_char D pr c pt)"
proof -
  let ?i = "i + canon_buflen pt + 1" and ?n = "n + 12 * canon_buflen pt + 12"
  obtain q where q: "push_char c pt = Some q" "edited pt q" "typed q = t" "pt_in q = pt_in pt" "pt_out q = pt_out pt" "pt_waits q = pt_waits pt"
    using push_char_line [OF assms(2), of c] by (auto simp: add_char_def t_def)
  have "room ?i (?n + 2 + 4) pt" by (rule room_less [OF assms(1)]) simp_all
  then have "room ?i (?n + 2 + 4) q" "input q = input pt" using room_rings [OF q(4-6)] input_rings [OF q(4)] by simp_all
  then obtain k p1 where e: "echo_if D pr (lflag q ECHO) (c \<noteq> 10) c q = Some (k, p1)" "0 \<le> k" "room ?i (?n + 2) p1" "rings_only q p1" "input p1 = input pt"
    using echo_room [of ?i "?n + 2" q "lflag q ECHO" "c \<noteq> 10" c] by auto
  have ed: "edited pt p1" "typed p1 = t" using edited_trans [OF q(2) rings_only_typed(2) [OF e(4)]] rings_only_typed(1) [OF e(4)] q(2,3) by (simp_all add: edited_def)
  have tios: "pt_tios q = pt_tios pt" "pt_tios p1 = pt_tios pt" using q(2) ed(1) by (simp_all add: edited_def)
  have lp1: "line_ok p1" using ed(1) by (simp add: edited_def)
  have bl: "0 < canon_buflen p1" "canon_buflen p1 \<le> canon_buflen pt + 1"
    using ed(2) length_typed [OF lp1] length_typed [OF assms(2)] assms(2) by (auto simp: t_def add_char_def line_ok_def split: if_splits)
  have eolp: "(c = 10 \<or> (cc p1 VEOL \<noteq> 0 \<and> c = cc p1 VEOL)) = eol" and nk: "(k < 0) = False" using tios e(2) by (simp_all add: eol_def)
  show ?thesis
  proof (cases eol)
    case False
    then have "tty_canon_char D pr c pt = Some (1, p1)"
      by (simp only: tty_canon_char_def q(1) Option.bind.simps chk_def e(1) prod.case nk eolp if_False)
    moreover have "room (i + canon_buflen p1) (n + 12 * canon_buflen p1) p1" by (rule room_less [OF e(3)]) (use bl(2) in simp_all)
    ultimately show ?thesis using False ed e(5) by (simp add: yields_def edited_def line_of_def)
  next
    case True
    obtain k2 p2 where o: "(if \<not> lflag p1 ECHO \<and> lflag p1 ECHONL then tty_output_process D pr c p1 else Some (0, p1)) = Some (k2, p2)" "0 \<le> k2"
        "room ?i ?n p2" "rings_only p1 p2" "input p2 = input pt"
      using output_if_room [OF e(3), of "\<not> lflag p1 ECHO \<and> lflag p1 ECHONL" c] e(5) by metis
    note f = rings_only_fields [OF o(4)] rings_only_typed(1) [OF o(4)] rings_only_typed(2) [OF o(4) lp1]
    have "room (i + canon_buflen p2) n p2" by (rule room_less [OF o(3)]) (use bl f in simp_all)
    then obtain w p3 where d: "dump_input_buffer D pr (p2\<lparr>canon_buffer := (canon_buffer p2)[canon_buflen p2 - 1 := c]\<rparr>) = Some (w, p3)"
        "room i n p3" "input p3 = input p2 @ butlast t @ [c]" "edited p2 p3" "typed p3 = []"
      using eol_room [of i p2 n c] f ed(2) bl by (auto simp: edited_def)
    have "edited pt p3" using edited_trans [OF edited_trans [OF ed(1) f(10)] d(4)] .
    moreover have "0 < canon_buflen p2 \<and> canon_buflen p2 - 1 < length (canon_buffer p2)" using bl f by (auto simp: line_ok_def edited_def)
    moreover have "tty_canon_char D pr c pt = Some (1, p3)"
      using calculation(2) True o(2)
      by (simp only: tty_canon_char_def q(1) Option.bind.simps chk_def e(1) prod.case nk eolp o(1) d(1) if_True if_False not_less [symmetric]) simp
    ultimately show ?thesis using True d o(5) length_typed [of p3] by (simp add: yields_def edited_def line_of_def)
  qed
qed

lemma erased_echo:
  assumes "r = Some (0, p1)" "room (i + canon_buflen p1) (n + 12 * canon_buflen p1 + 4) p1" "edited pt p1" "input p1 = input pt"
  shows "yields room input i n pt ((line_of input pt)\<lparr>ln_text := typed p1\<rparr>)
    (chk r (\<lambda>pt. chk (echo_if D pr (f pt) caret c pt) (\<lambda>pt. Some (1, pt))))"
proof -
  have "yields room input i n pt ((line_of input pt)\<lparr>ln_text := typed p1\<rparr>) (chk (echo_if D pr (f p1) caret c p1) (\<lambda>pt. Some (1, pt)))"
    by (rule yields_echo [OF assms(2)]) (use assms(3,4) in \<open>simp_all add: edited_def line_of_def\<close>)
  then show ?thesis using assms(1) by (simp add: chk_def)
qed

lemma buflen_less: "line_ok p1 \<Longrightarrow> line_ok pt \<Longrightarrow> length (typed p1) \<le> length (typed pt) \<Longrightarrow> canon_buflen p1 \<le> canon_buflen pt"
  by (simp add: length_typed)

lemma while_room:
  assumes "room (i + canon_buflen pt) (n + m + 12 * canon_buflen pt) pt" "line_ok pt"
  shows "\<exists>p1. erase_while D pr P b pt = Some (0, p1) \<and> room (i + canon_buflen p1) (n + m + 12 * canon_buflen p1) p1 \<and> edited pt p1 \<and>
    typed p1 = rev (dropWhile P (rev (typed pt))) \<and> input p1 = input pt"
proof -
  obtain p1 where p1: "erase_while D pr P b pt = Some (0, p1)" "room (i + canon_buflen pt) (n + m + 12 * canon_buflen p1) p1" "edited pt p1"
      "typed p1 = rev (dropWhile P (rev (typed pt)))" "input p1 = input pt"
    using erase_while_room [OF assms, of P b] by auto
  have "canon_buflen p1 \<le> canon_buflen pt"
    by (rule buflen_less) (use p1(3,4) assms(2) length_dropWhile_le [of P "rev (typed pt)"] in \<open>simp_all add: edited_def\<close>)
  then have "room (i + canon_buflen p1) (n + m + 12 * canon_buflen p1) p1" by (intro room_less [OF p1(2)]) simp_all
  then show ?thesis using p1 by blast
qed

lemma kill_room:
  assumes "room (i + canon_buflen pt) (n + 4 + 12 * canon_buflen pt) pt" "line_ok pt"
  shows "yields room input i n pt ((line_of input pt)\<lparr>ln_text := []\<rparr>)
    (chk (erase_while D pr (\<lambda>_. True) b pt) (\<lambda>pt. chk (echo_if D pr (f pt) caret c pt) (\<lambda>pt. Some (1, pt))))"
proof -
  obtain p1 where p1: "erase_while D pr (\<lambda>_. True) b pt = Some (0, p1)" "room (i + canon_buflen p1) (n + 4 + 12 * canon_buflen p1) p1" "edited pt p1"
      "typed p1 = []" "input p1 = input pt"
    using while_room [OF assms, of "\<lambda>_. True" b] by auto
  have "room (i + canon_buflen p1) (n + 12 * canon_buflen p1 + 4) p1" by (rule room_less [OF p1(2)]) simp_all
  from erased_echo [OF p1(1) this p1(3,5)] show ?thesis using p1(4) by simp
qed

lemma erase_room:
  assumes "room (i + canon_buflen pt) (n + 12 * canon_buflen pt + 4 + 12) pt" "line_ok pt"
  shows "yields room input i n pt ((line_of input pt)\<lparr>ln_text := butlast (typed pt)\<rparr>)
    (chk (tty_erase_one D pr b pt) (\<lambda>pt. chk (echo_if D pr (f pt) caret c pt) (\<lambda>pt. Some (1, pt))))"
proof -
  obtain p1 where p1: "tty_erase_one D pr b pt = Some (0, p1)" "room (i + canon_buflen pt) (n + 12 * canon_buflen pt + 4) p1" "edited pt p1"
      "typed p1 = butlast (typed pt)" "input p1 = input pt"
    using erase_one_room [OF assms, of b] by auto
  have "canon_buflen p1 \<le> canon_buflen pt"
    by (rule buflen_less) (use p1(3,4) assms(2) in \<open>simp_all add: edited_def\<close>)
  then have "room (i + canon_buflen p1) (n + 12 * canon_buflen p1 + 4) p1" by (intro room_less [OF p1(2)]) simp_all
  from erased_echo [OF p1(1) this p1(3,5)] show ?thesis using p1(4) by simp
qed

lemma werase_room:
  assumes "room (i + canon_buflen pt) (n + 4 + 12 * canon_buflen pt) pt" "line_ok pt"
  shows "yields room input i n pt ((line_of input pt)\<lparr>ln_text := erase_word (typed pt)\<rparr>)
    (chk (erase_while D pr (\<lambda>x. x = 0x20) b pt) (\<lambda>pt. chk (erase_while D pr (\<lambda>x. x \<noteq> 0x20) (g pt) pt) (\<lambda>pt.
      chk (echo_if D pr (f pt) caret c pt) (\<lambda>pt. Some (1, pt)))))"
proof -
  obtain p1 where p1: "erase_while D pr (\<lambda>x. x = 0x20) b pt = Some (0, p1)" "room (i + canon_buflen p1) (n + 4 + 12 * canon_buflen p1) p1" "edited pt p1"
      "typed p1 = rev (dropWhile (\<lambda>x. x = 0x20) (rev (typed pt)))" "input p1 = input pt"
    using while_room [OF assms, of "\<lambda>x. x = 0x20" b] by auto
  have lok: "line_ok p1" using p1(3) by (simp add: edited_def)
  obtain p2 where p2: "erase_while D pr (\<lambda>x. x \<noteq> 0x20) (g p1) p1 = Some (0, p2)" "room (i + canon_buflen p2) (n + 4 + 12 * canon_buflen p2) p2" "edited p1 p2"
      "typed p2 = erase_word (typed pt)" "input p2 = input p1"
    using while_room [OF p1(2) lok, of "\<lambda>x. x \<noteq> 0x20" "g p1"] p1(4) by (auto simp: erase_word_def)
  have "room (i + canon_buflen p2) (n + 12 * canon_buflen p2 + 4) p2" by (rule room_less [OF p2(2)]) simp_all
  then have "yields room input i n pt ((line_of input pt)\<lparr>ln_text := typed p2\<rparr>)
      (chk (erase_while D pr (\<lambda>x. x \<noteq> 0x20) (g p1) p1) (\<lambda>pt. chk (echo_if D pr (f pt) caret c pt) (\<lambda>pt. Some (1, pt))))"
    using p1(5) p2(5) by (intro erased_echo [OF p2(1) _ edited_trans [OF p1(3) p2(3)]]) simp_all
  then show ?thesis using p2(4) p1(1) by (simp add: chk_def)
qed

lemma lnext_room:
  assumes "room (i + canon_buflen pt) (n + 12 * canon_buflen pt + 4) pt" "line_ok pt"
  shows "yields room input i n pt ((line_of input pt)\<lparr>ln_verbatim := True\<rparr>)
    (chk (tty_output_process D pr 0x5E (pt\<lparr>next_is_verbatim := True\<rparr>)) (\<lambda>pt. chk (tty_output_process D pr 8 pt) (\<lambda>pt. Some (1, pt))))"
proof -
  let ?p = "pt\<lparr>next_is_verbatim := True\<rparr>"
  let ?i = "i + canon_buflen pt" and ?n = "n + 12 * canon_buflen pt"
  have "room ?i (?n + 2 + 2) pt" by (rule room_less [OF assms(1)]) simp_all
  then have "room ?i (?n + 2 + 2) ?p" "input ?p = input pt" "line_ok ?p"
    using assms(2) room_rings [of ?p pt] input_rings [of ?p pt] by (simp_all add: line_ok_def)
  note p = this
  obtain p1 where p1: "tty_output_process D pr 0x5E ?p = Some (1, p1)" "room ?i (?n + 2) p1" "rings_only ?p p1" "input p1 = input pt"
    using output_room [OF p(1), of "0x5E"] p(2) by auto
  obtain p2 where p2: "tty_output_process D pr 8 p1 = Some (1, p2)" "room ?i ?n p2" "rings_only p1 p2" "input p2 = input pt"
    using output_room [OF p1(2), of 8] p1(4) by auto
  have r: "rings_only ?p p2" by (rule rings_only_trans [OF p1(3) p2(3)])
  have "edited ?p p2" "typed p2 = typed pt" using rings_only_typed(2) [OF r p(3)] rings_only_typed(1) [OF r] by (simp_all add: typed_def)
  then show ?thesis using p1(1) p2 rings_only_fields(2) [OF r] by (simp add: chk_def yields_def edited_def line_of_def)
qed

lemma eof_room:
  assumes "room (i + canon_buflen pt) n pt" "line_ok pt"
  shows "yields room input i n pt ((line_of input pt)\<lparr>ln_text := [], ln_input := input pt @ typed pt\<rparr>)
    (if canon_buflen pt \<noteq> 0 then do { (_, pt) \<leftarrow> dump_input_buffer D pr pt; Some (1, pt) }
     else (let (rb, woken) = ring_buffer_eof (pt_in pt) in Some (1, pt\<lparr>pt_in := rb, pt_woken := pt_woken pt @ woken\<rparr>)))"
proof (cases "canon_buflen pt = 0")
  case True
  let ?q = "pt\<lparr>pt_in := fst (ring_buffer_eof (pt_in pt))\<rparr>"
  let ?p = "pt\<lparr>pt_in := fst (ring_buffer_eof (pt_in pt)), pt_woken := pt_woken pt @ snd (ring_buffer_eof (pt_in pt))\<rparr>"
  have "room i n ?q" "input ?q = input pt" using room_eof assms(1) True by simp_all
  then have "room i n ?p" "input ?p = input pt" using room_rings [of ?p ?q] input_rings [of ?p ?q] by simp_all
  moreover have "line_ok ?p" "typed ?p = []" "typed pt = []" using assms(2) True by (simp_all add: line_ok_def typed_def)
  ultimately show ?thesis using True by (simp add: yields_def line_of_def case_prod_beta Let_def)
next
  case False
  obtain w p1 where d: "dump_input_buffer D pr pt = Some (w, p1)" "room i n p1" "input p1 = input pt @ typed pt" "edited pt p1" "typed p1 = []"
    using dump_room [OF assms] by blast
  have "canon_buflen p1 = 0" using length_typed [of p1] d(4,5) by (simp add: edited_def)
  then show ?thesis using d False by (simp add: yields_def edited_def line_of_def)
qed

lemma yields_if:
  "(b \<Longrightarrow> yields room input i n pt l r) \<Longrightarrow> (\<not> b \<Longrightarrow> yields room input i n pt l' r') \<Longrightarrow>
   yields room input i n pt (if b then l else l') (if b then r else r')"
  by simp

lemma raw_room:
  assumes "room (i + canon_buflen pt + 1) (n + 12 * canon_buflen pt + 4) pt" "line_ok pt"
  shows "yields room input i n pt ((line_of input pt)\<lparr>ln_input := input pt @ [c]\<rparr>)
    (chk (echo_if D pr b caret c pt) (\<lambda>pt. chk (write_in D pr c pt) (\<lambda>pt. Some (1, pt))))"
proof -
  obtain k p1 where e: "echo_if D pr b caret c pt = Some (k, p1)" "0 \<le> k" "room (i + canon_buflen pt + 1) (n + 12 * canon_buflen pt) p1" "rings_only pt p1" "input p1 = input pt"
    using echo_room [OF assms(1), of b caret c] by auto
  obtain k2 p2 where w: "write_in D pr c p1 = Some (k2, p2)" "0 \<le> k2" "room (i + canon_buflen pt) (n + 12 * canon_buflen pt) p2" "rings_only p1 p2" "input p2 = input pt @ [c]"
    using room_in [of "i + canon_buflen pt" "n + 12 * canon_buflen pt" p1 c] e(3,5) by auto
  note r = rings_only_trans [OF e(4) w(4)]
  show ?thesis
    using e(1,2) w rings_only_typed(2) [OF r assms(2)] rings_only_typed(1) [OF r] rings_only_fields(2) [OF r] by (simp add: chk_def yields_def edited_def line_of_def)
qed

lemma canon_room:
  assumes "room (i + canon_buflen pt + 1) (n + 12 * canon_buflen pt + 18) pt" "line_ok pt"
  shows "yields room input i n pt (edit_canon (pt_tios pt) (canon_bufsize pt) c (line_of input pt)) (tty_canon D pr c pt)"
proof -
  have r: "i' \<le> i + canon_buflen pt + 1 \<Longrightarrow> n' \<le> n + 12 * canon_buflen pt + 18 \<Longrightarrow> room i' n' pt" for i' n'
    by (rule room_less [OF assms(1)])
  let ?i = "i + canon_buflen pt"
  have rooms: "room ?i (n + 12 * canon_buflen pt + 4) pt" "room ?i (n + 4 + 12 * canon_buflen pt) pt" "room ?i (n + 12 * canon_buflen pt + 4 + 12) pt"
    "room ?i n pt" by (rule r; simp)+
  have l: "ln_text (line_of input pt) = typed pt" "ln_input (line_of input pt) = input pt" by (simp_all add: line_of_def)
  note branches = lnext_room [OF rooms(1) assms(2)] kill_room [OF rooms(2) assms(2)] erase_room [OF rooms(3) assms(2)]
    werase_room [OF rooms(2) assms(2)] eof_room [OF rooms(4) assms(2), unfolded Let_def]
  have idle: "(line_of input pt)\<lparr>ln_text := t, ln_input := input pt\<rparr> = (line_of input pt)\<lparr>ln_text := t\<rparr>" for t by (simp add: line_of_def)
  have "yields room input i n pt
     (if c = 10 \<or> (cc pt VEOL \<noteq> 0 \<and> c = cc pt VEOL)
      then (line_of input pt)\<lparr>ln_text := [], ln_input := input pt @ butlast (add_char (canon_bufsize pt) c (typed pt)) @ [c]\<rparr>
      else (line_of input pt)\<lparr>ln_text := add_char (canon_bufsize pt) c (typed pt)\<rparr>) (tty_canon_char D pr c pt)"
    using canon_char_room [OF assms, of c]
    by (cases "c = 10 \<or> (cc pt VEOL \<noteq> 0 \<and> c = cc pt VEOL)") (simp_all only: if_True if_False idle)
  then show ?thesis unfolding tty_canon_def edit_canon_def Let_def l by (intro yields_if branches)
qed

lemma input_room:
  assumes "room (i + canon_buflen pt + 1) (n + 12 * canon_buflen pt + 18) pt" "line_ok pt"
  shows "yields room input i n pt (edit (pt_tios pt) (canon_bufsize pt) c (line_of input pt)) (tty_input_process D pr c pt)"
proof -
  let ?p = "pt\<lparr>pt_mtime := tp_now pr\<rparr>"
  have "room (i + canon_buflen ?p + 1) (n + 12 * canon_buflen ?p + 18) ?p" "line_ok ?p"
    using assms room_rings [of ?p pt] by (simp_all add: line_ok_def)
  note p = this
  have rooms: "room i (n + 4) ?p" "room (i + canon_buflen ?p + 1) (n + 12 * canon_buflen ?p + 4) ?p"
    "room (i + canon_buflen ?p) (n + 12 * canon_buflen ?p) ?p" "room (i + canon_buflen ?p + 1) (n + 12 * canon_buflen ?p + 16) ?p"
    by (rule room_less [OF p(1)]; simp)+
  have same: "pt_tios ?p = pt_tios pt" "canon_bufsize ?p = canon_bufsize pt" "line_of input ?p = line_of input pt" "typed ?p = typed pt" "input ?p = input pt"
    using input_rings [of ?p pt] by (simp_all add: line_of_def typed_def)
  have raw: "yields room input i n ?p ((line_of input ?p)\<lparr>ln_input := input ?p @ [d]\<rparr>)
      (chk (echo_if D pr (lflag ?p ECHO) (d \<noteq> 10) d ?p) (\<lambda>pt. chk (write_in D pr d pt) (\<lambda>pt. Some (1, pt))))" for d
    by (rule raw_room [OF rooms(2) p(2)])
  have sig: "tty_signal c ?p \<noteq> None \<longleftrightarrow> c \<in> {cc pt VINTR, cc pt VQUIT, cc pt VSUSP}" by (simp add: tty_signal_def)
  have y: "yields room input i n pt l r = yields room input i n ?p l r" for l r by (simp add: yields_def)
  have l: "ln_text (line_of input pt) = typed pt" "ln_input (line_of input pt) = input pt" "ln_verbatim (line_of input pt) = next_is_verbatim ?p"
    by (simp_all add: line_of_def)
  have ign: "yields room input i n ?p (line_of input pt) (Some (1, ?p))" using rooms(3) p(2) same(3) by (simp add: yields_def)
  note canon = canon_room [OF p, unfolded same(1-3)]
  have modes: "yields room input i n ?p
      (case m of None \<Rightarrow> line_of input pt | Some c \<Rightarrow> if lflag pt ICANON then edit_canon (pt_tios pt) (canon_bufsize pt) c (line_of input pt)
        else (line_of input pt)\<lparr>ln_input := input pt @ [c]\<rparr>)
      (case m of None \<Rightarrow> Some (1, ?p) | Some c \<Rightarrow> if lflag pt ICANON then tty_canon D pr c ?p
        else chk (echo_if D pr (lflag pt ECHO) (c \<noteq> 10) c ?p) (\<lambda>pt. chk (write_in D pr c pt) (\<lambda>pt. Some (1, pt))))" for m
    using ign canon raw [unfolded same] by (cases m) simp_all
  have live: "(pt_slave_node pt = None) = False" using assms(2) by (simp add: line_ok_def)
  show ?thesis
    unfolding tty_input_process_def edit_def Let_def live if_False l y sig same(1,2)
    by (intro yields_if modes verbatim_room [OF rooms(4) p(2), unfolded same] send_room [OF rooms(1) p(2), unfolded same])
qed

lemma text_room:
  assumes "room (i + canon_buflen pt + length cs) (n + 12 * canon_buflen pt + 18 * length cs) pt" "line_ok pt"
  shows "\<exists>pt'. put_all (tty_input_process D pr) stop cs l pt = Some (int (l + length cs), pt') \<and> line_ok pt' \<and>
    room (i + canon_buflen pt') (n + 12 * canon_buflen pt') pt' \<and> canon_bufsize pt' = canon_bufsize pt \<and> pt_tios pt' = pt_tios pt \<and> fg_proc pt' = fg_proc pt \<and>
    line_of input pt' = fold (edit (pt_tios pt) (canon_bufsize pt)) cs (line_of input pt)"
  using assms
proof (induction cs arbitrary: l pt)
  case (Cons c cs)
  let ?n = "n + 18 * length cs" and ?i = "i + length cs"
  have "room (?i + canon_buflen pt + 1) (?n + 12 * canon_buflen pt + 18) pt" by (rule room_less [OF Cons.prems(1)]) simp_all
  from input_room [OF this Cons.prems(2), of c]
  obtain p1 where p1: "tty_input_process D pr c pt = Some (1, p1)" "room (?i + canon_buflen p1) (?n + 12 * canon_buflen p1) p1" "line_ok p1"
      "canon_bufsize p1 = canon_bufsize pt" "pt_tios p1 = pt_tios pt" "fg_proc p1 = fg_proc pt" "line_of input p1 = edit (pt_tios pt) (canon_bufsize pt) c (line_of input pt)"
    by (auto simp: yields_def)
  have "room (i + canon_buflen p1 + length cs) (n + 12 * canon_buflen p1 + 18 * length cs) p1" by (rule room_less [OF p1(2)]) simp_all
  from Cons.IH [OF this p1(3), of "Suc l"] show ?case using p1(1,4-7) by simp
qed simp

end

section \<open>The buffers of a terminal\<close>

definition tty_space :: "nat \<Rightarrow> nat \<Rightarrow> pty_t \<Rightarrow> bool" where
  "tty_space i n pt \<longleftrightarrow> rb_ok (pt_in pt) \<and> rb_ok (pt_out pt) \<and>
     length (rb_list (pt_in pt)) + i \<le> rb_capacity (pt_in pt) \<and> length (rb_list (pt_out pt)) + n \<le> rb_capacity (pt_out pt)"

definition pty_input :: "pty_t \<Rightarrow> u8 list" where
  "pty_input pt = rb_list (pt_in pt)"

lemma wake_capacity [simp]:
  "rb_capacity (rb\<lparr>rb_writers := ws\<rparr>) = rb_capacity rb" "rb_capacity (rb\<lparr>rb_readers := ws\<rparr>) = rb_capacity rb"
  "rb_capacity (rb\<lparr>rb_alert_waiters := as\<rparr>) = rb_capacity rb" "rb_capacity (rb\<lparr>rb_soft_stop := b\<rparr>) = rb_capacity rb"
  by (simp_all add: rb_capacity_def)

lemma write_one:
  assumes "rb_ok rb" "length (rb_list rb) < rb_capacity rb"
  shows "\<exists>rb' woken. ring_buffer_write rb p [c] 0 es [] = Some (Returned rb' 1 [] woken) \<and> rb_ok rb' \<and> rb_list rb' = rb_list rb @ [c] \<and> rb_capacity rb' = rb_capacity rb"
proof -
  obtain rb1 where f: "rb_fill rb [c] = Some (rb1, 1)" "rb_ok rb1" "rb_list rb1 = rb_list rb @ [c]" "rb_capacity rb1 = rb_capacity rb"
    using rb_fill_spec [OF assms(1), of "[c]"] assms(2) by (auto simp: min_def take_Cons')
  show ?thesis
    by (subst ring_buffer_write.simps)
      (use f in \<open>simp add: wake_readers_def ring_buffer_alert_waiters_def write_done_def Let_def split: option.split\<close>)
qed

interpretation tty: tty_room pty_driver pr tty_space pty_input
proof unfold_locales
  fix i n pt c
  show "tty_space i (Suc n) pt \<Longrightarrow> \<exists>k pt'. write_out pty_driver pr c pt = Some (k, pt') \<and> 0 \<le> k \<and> tty_space i n pt' \<and> rings_only pt pt' \<and> pty_input pt' = pty_input pt"
    using write_one [of "pt_out pt" "tp_addr pr" c "fst (next_waits pt)"]
    by (fastforce simp: tty_space_def pty_driver_def pty_write_out_def rings_only_def pty_input_def case_prod_beta Let_def)
  show "tty_space (Suc i) n pt \<Longrightarrow> \<exists>k pt'. write_in pty_driver pr c pt = Some (k, pt') \<and> 0 \<le> k \<and> tty_space i n pt' \<and> rings_only pt pt' \<and> pty_input pt' = pty_input pt @ [c]"
    using write_one [of "pt_in pt" "tp_addr pr" c "fst (next_waits pt)"]
    by (fastforce simp: tty_space_def pty_driver_def pty_write_in_def rings_only_def pty_input_def case_prod_beta Let_def)
qed (auto simp: tty_space_def pty_input_def ring_buffer_eof_def wake_readers_def wake_writers_def)

text \<open>
  A byte outside ASCII is one character of output when it is echoed.  When it is erased it counts as a control character, because
  as a \<^verbatim>\<open>char\<close> it is negative, and two columns are cleared.
\<close>

lemma tty_erase_high_byte:
  assumes "line_ok pt" "0 < canon_buflen pt" "0x80 \<le> last (typed pt)" "lflag pt ECHO"
  shows "echo_char D pr True (last (typed pt)) p0 = tty_output_process D pr (last (typed pt)) p0 \<and>
    (\<exists>pt'. typed pt' = butlast (typed pt) \<and> tty_erase_one D pr True pt = backspaces D pr 2 pt')"
proof -
  let ?n = "canon_buflen pt - 1" and ?c = "last (typed pt)"
  let ?p = "pt\<lparr>canon_buflen := ?n, canon_buffer := (canon_buffer pt)[?n := 0]\<rparr>"
  have u: "0x80 \<le> uint ?c" "uint ?c < 256" using assms(3) uint_bounded [of ?c] by (simp_all add: word_le_def)
  then have "uint ?c div 128 = 1" by (intro int_div_pos_eq [of _ 128 1 "uint ?c - 128"]) simp_all
  then have "bit (uint ?c) 7" by (simp add: bit_iff_odd)
  then have "sint ?c < 0" using u(2) by (simp add: sint_uint signed_take_bit_eq_if_negative)
  then have "tty_erase_one D pr True pt = backspaces D pr 2 ?p"
    using assms(1,2,4) last_typed [OF assms(1,2)] by (auto simp: tty_erase_one_def is_control_def line_ok_def Let_def numeral_2_eq_2)
  moreover have "typed ?p = butlast (typed pt)" using assms(1,2) by (auto simp: line_ok_def typed_def butlast_take)
  ultimately show ?thesis using u by (auto simp: echo_char_def is_control_def)
qed

section \<open>Properties\<close>

text \<open>
  Property C4.  The line discipline refines the editing of a line: as long as the buffers have room and the slave has not been closed, writing
  characters to the master takes all of them, and the line being typed, the verbatim flag and the input a program can read are those
  the editing of one character after the other gives: erasing a character, a word or the line, quoting, signals, the end of
  file and the end of a line included.
\<close>

theorem write_pty_master_edits:
  assumes "tty_space (canon_buflen pt + length cs) (12 * canon_buflen pt + 18 * length cs) pt" "line_ok pt"
  shows "\<exists>pt'. write_pty_master pty_driver pr cs pt = Some (int (length cs), pt') \<and> line_ok pt' \<and> pt_tios pt' = pt_tios pt \<and>
    line_of pty_input pt' = fold (edit (pt_tios pt) (canon_bufsize pt)) cs (line_of pty_input pt)"
  using tty.text_room [of 0 pt cs 0 pr False 0] assms by (auto simp: write_pty_master_def)

definition ex_tty_proc :: tty_proc where
  "ex_tty_proc = \<lparr>tp_addr = 0x9000, tp_id = 7, tp_user = 0, tp_group = 0, tp_session = 7, tp_job = 7, tp_blocked_signals = 0, tp_handler = (\<lambda>_. 0), tp_now = 0\<rparr>"

definition ex_tty_memory :: tty_memory where
  "ex_tty_memory = \<lparr>tm_master = 0x6000, tm_slave = 0x7000, tm_in = replicate 4096 0, tm_out = replicate 4096 0, tm_canon = replicate 4096 0, tm_cc = replicate 32 0, tm_pixels = (0, 0)\<rparr>"

lemma pty_fresh_ok:
  assumes "length (tm_in mem) = TTY_BUFFER_SIZE" "length (tm_out mem) = TTY_BUFFER_SIZE" "length (tm_canon mem) = TTY_BUFFER_SIZE"
  shows "i < TTY_BUFFER_SIZE \<Longrightarrow> n < TTY_BUFFER_SIZE \<Longrightarrow> tty_space i n (pty_fresh pr win index mem)" "line_ok (pty_fresh pr win index mem)"
    "line_of pty_input (pty_fresh pr win index mem) = \<lparr>ln_text = [], ln_verbatim = False, ln_input = []\<rparr>"
  using assms ring_create_ok [of "4096" "tm_in mem"] ring_create_ok [of "4096" "tm_out mem"]
  by (simp_all add: tty_space_def line_ok_def pty_fresh_def TTY_BUFFER_SIZE_def line_of_def pty_input_def typed_def)

theorem write_pty_master_edits_witness:
  "\<exists>pt. write_pty_master pty_driver ex_tty_proc [0x61, 0x62, 0x7F, 0x63, 13, 0x64] (pty_fresh ex_tty_proc None 1 ex_tty_memory) = Some (6, pt) \<and>
    line_of pty_input pt = \<lparr>ln_text = [0x64], ln_verbatim = False, ln_input = [0x61, 0x63, 10]\<rparr>"
proof -
  let ?pt = "pty_fresh ex_tty_proc None 1 ex_tty_memory" and ?cs = "[0x61, 0x62, 0x7F, 0x63, 13, 0x64] :: u8 list"
  have b: "canon_buflen ?pt = 0" "canon_bufsize ?pt = 4094" "pt_tios ?pt = pty_tios (replicate 32 0)"
    by (simp_all add: pty_fresh_def TTY_BUFFER_SIZE_def ex_tty_memory_def)
  have f: "tty_space (Suc (Suc (Suc (Suc (Suc (Suc 0)))))) 108 ?pt" "line_ok ?pt" "line_of pty_input ?pt = \<lparr>ln_text = [], ln_verbatim = False, ln_input = []\<rparr>"
    by (rule pty_fresh_ok; simp add: ex_tty_memory_def TTY_BUFFER_SIZE_def)+
  have e: "fold (edit (pty_tios (replicate 32 0)) 4094) ?cs \<lparr>ln_text = [], ln_verbatim = False, ln_input = []\<rparr> =
      \<lparr>ln_text = [0x64], ln_verbatim = False, ln_input = [0x61, 0x63, 10]\<rparr>" by code_simp
  show ?thesis using write_pty_master_edits [of ?pt ?cs ex_tty_proc] b f e by auto
qed


text \<open>A printable character is added to the line, and the return key ends the line.\<close>

lemma edit_plain:
  assumes "length ccs = 32" "0x20 \<le> c" "c < 0x7F" "\<not> ln_verbatim l" "length (ln_text l) < m"
  shows "edit (pty_tios ccs) m c l = l\<lparr>ln_text := ln_text l @ [c]\<rparr>"
proof -
  have "c \<noteq> 3" "c \<noteq> 4" "c \<noteq> 10" "c \<noteq> 13" "c \<noteq> 21" "c \<noteq> 22" "c \<noteq> 23" "c \<noteq> 26" "c \<noteq> 28" "c \<noteq> 0x7F" using assms(2,3) by auto
  then show ?thesis
    using assms by (simp add: edit_def edit_canon_def pty_tios_def input_modes_def Let_def add_char_def)
qed

lemma edit_return:
  assumes "length ccs = 32" "\<not> ln_verbatim l" "length (ln_text l) < m"
  shows "edit (pty_tios ccs) m 13 l = l\<lparr>ln_text := [], ln_input := ln_input l @ ln_text l @ [10]\<rparr>"
  using assms by (simp add: edit_def edit_canon_def pty_tios_def input_modes_def Let_def add_char_def)

lemma edit_plain_text:
  assumes "length ccs = 32" "\<forall>c \<in> set cs. 0x20 \<le> c \<and> c < 0x7F" "\<not> ln_verbatim l" "length (ln_text l) + length cs \<le> m"
  shows "fold (edit (pty_tios ccs) m) cs l = l\<lparr>ln_text := ln_text l @ cs\<rparr>"
  using assms(2-4) by (induction cs arbitrary: l) (simp_all add: edit_plain [OF assms(1)])

text \<open>
  Property C14.  A line typed on a new terminal arrives: after up to 200 printable characters and the return key were written to the
  master, a read from the slave of a large enough size returns at once, with these characters and a newline.
\<close>

theorem pty_line_delivered:
  assumes "length (tm_in mem) = TTY_BUFFER_SIZE" "length (tm_out mem) = TTY_BUFFER_SIZE" "length (tm_canon mem) = TTY_BUFFER_SIZE"
    "length (tm_cc mem) = 32" "\<forall>c \<in> set cs. 0x20 \<le> c \<and> c < 0x7F" "length cs \<le> 200" "length cs < sz"
  shows "\<exists>pt pt'. write_pty_master pty_driver pr (cs @ [13]) (pty_fresh pr win index mem) = Some (int (length cs + 1), pt) \<and>
    read_pty_slave pr' sz pt = Some (int (length cs + 1), cs @ [10], pt')"
proof -
  let ?p = "pty_fresh pr win index mem" and ?k = "length cs + 1"
  have b: "canon_buflen ?p = 0" "canon_bufsize ?p = 4094" "pt_tios ?p = pty_tios (tm_cc mem)" "fg_proc ?p = 0" by (simp_all add: pty_fresh_def TTY_BUFFER_SIZE_def)
  have f: "tty_space ?k (18 * ?k) ?p" "line_ok ?p" "line_of pty_input ?p = \<lparr>ln_text = [], ln_verbatim = False, ln_input = []\<rparr>"
    using assms(6) by (intro pty_fresh_ok [OF assms(1-3)]; simp add: TTY_BUFFER_SIZE_def)+
  obtain pt where pt: "write_pty_master pty_driver pr (cs @ [13]) ?p = Some (int ?k, pt)" "tty_space (canon_buflen pt) (12 * canon_buflen pt) pt"
      "pt_tios pt = pty_tios (tm_cc mem)" "fg_proc pt = 0"
      "line_of pty_input pt = fold (edit (pty_tios (tm_cc mem)) 4094) (cs @ [13]) \<lparr>ln_text = [], ln_verbatim = False, ln_input = []\<rparr>"
    using tty.text_room [of 0 ?p "cs @ [13]" 0 pr False 0] b f by (auto simp: write_pty_master_def)
  have "rb_list (pt_in pt) = cs @ [10]"
    using pt(5) assms(4,6) edit_plain_text [OF assms(4,5), of "\<lparr>ln_text = [], ln_verbatim = False, ln_input = []\<rparr>" 4094]
    by (simp add: edit_return line_of_def pty_input_def)
  then obtain rb ws where "ring_buffer_read (pt_in pt) (tp_addr pr') sz (fst (next_waits pt)) [] = Some (Returned rb (int ?k) (cs @ [10]) ws)"
    using read_ready [of "pt_in pt" sz "tp_addr pr'" "fst (next_waits pt)" "[]"] pt(2) assms(7) by (auto simp: tty_space_def)
  moreover have "lflag pt ICANON" using pt(3) by (simp add: pty_tios_def)
  ultimately show ?thesis
    using pt(1,4) by (simp add: read_pty_slave_def background_def read_in_def ring_read_def case_prod_beta Let_def)
qed

theorem pty_line_delivered_witness:
  "\<exists>pt pt'. write_pty_master pty_driver ex_tty_proc [0x6C, 0x73, 13] (pty_fresh ex_tty_proc None 1 ex_tty_memory) = Some (3, pt) \<and>
    read_pty_slave ex_tty_proc 64 pt = Some (3, [0x6C, 0x73, 10], pt')"
  using pty_line_delivered [of ex_tty_memory "[0x6C, 0x73]" 64 ex_tty_proc None 1 ex_tty_proc]
  by (simp add: ex_tty_memory_def TTY_BUFFER_SIZE_def)

text \<open>The terminal of each number, and the state before the first terminal.\<close>

definition pts_map :: "pts \<Rightarrow> u64 \<Rightarrow> addr option" where
  "pts_map st = (case ps_index st of None \<Rightarrow> (\<lambda>_. None) | Some m \<Rightarrow> hm_abs m)"

definition pts_init :: pts where
  "pts_init = \<lparr>ps_counter = 0, ps_index = None, ps_ptys = (\<lambda>_. None), ps_proc_pty = (\<lambda>_. NULL), ps_mounted = []\<rparr>"

lemma pty_number_value:
  "is_digits ds \<Longrightarrow> pty_number ds (of_nat n) = Some (of_nat (foldl (\<lambda>n d. 10 * n + unat (d - 0x30)) n ds))"
proof (induction ds arbitrary: n)
  case (Cons d ds)
  then have d: "0x30 \<le> d" "d \<le> 0x39" "is_digits ds" by (simp_all add: is_digits_def)
  have "(ucast d :: u64) = of_nat (unat (d - 0x30)) + 0x30"
    using d(1,2) by (intro word_unat_eq_iff [THEN iffD2]) (simp add: unat_sub unat_word_ariths word_le_nat_alt unat_of_nat)
  then have "(of_nat n * 10 + ucast d - 0x30 :: u64) = of_nat (10 * n + unat (d - 0x30))" by (simp add: algebra_simps)
  then show ?case using d Cons.IH [OF d(3), of "10 * n + unat (d - 0x30)"] by (simp only: pty_number.simps foldl.simps not_less [symmetric] simp_thms if_False)
qed simp

lemma pty_index:
  assumes "\<forall>m. ps_index st = Some m \<longrightarrow> hm_ok m"
  obtains m mo where "hm_ok m" "hm_abs m = pts_map st"
    "(if ps_index st = None then pty_install (st\<lparr>ps_counter := n\<rparr>) else Some (st\<lparr>ps_counter := n\<rparr>)) =
     Some (st\<lparr>ps_counter := n, ps_index := Some m, ps_mounted := mo\<rparr>)"
proof (cases "ps_index st")
  case None
  obtain m where m: "hashmap_create_int 10 = Some m" "hash_comp m = (=)" "hm_size m = scast (10 :: u32)" "hm_entries m = replicate (nat (sint (10 :: u32))) []"
    by (simp add: hashmap_create_int_def int_comp_eq)
  show ?thesis using hm_create_ok [OF _ m(2-4)] m(1) None by (intro that [of m]) (simp_all add: pty_install_def pts_map_def)
next
  case (Some m)
  then show ?thesis using assms by (intro that [of m "ps_mounted st"]) (simp_all add: pts_map_def)
qed

lemma pty_create_effect:
  assumes "\<forall>m. ps_index st = Some m \<longrightarrow> hm_ok m" "p \<noteq> NULL"
  shows "\<exists>st'. pty_create pr win p mem st = Some (0, st') \<and> ps_ptys st' = (ps_ptys st)(p \<mapsto> pty_fresh pr win (scast (ps_counter st + 1)) mem) \<and>
    ps_index st' \<noteq> None \<and> (\<forall>m. ps_index st' = Some m \<longrightarrow> hm_ok m) \<and> ps_proc_pty st' = ps_proc_pty st \<and>
    pts_map st' = (if ps_counter st + 1 = 0 then pts_map st else (pts_map st)(scast (ps_counter st + 1) \<mapsto> p))"
proof -
  let ?n = "ps_counter st + 1" and ?k = "scast (ps_counter st + 1) :: u64"
  obtain m mo where m: "hm_ok m" "hm_abs m = pts_map st"
      "(if ps_index st = None then pty_install (st\<lparr>ps_counter := ?n\<rparr>) else Some (st\<lparr>ps_counter := ?n\<rparr>)) = Some (st\<lparr>ps_counter := ?n, ps_index := Some m, ps_mounted := mo\<rparr>)"
    by (rule pty_index [OF assms(1)])
  obtain m' where m': "hashmap_set m ?k p = Some (m', or_null (hm_abs m ?k))" "hm_ok m'" "hm_abs m' = (hm_abs m)(?k \<mapsto> p)"
    using imap.put_law [OF m(1), of ?k p] by blast
  have "pty_create pr win p mem st = Some (0, st\<lparr>ps_counter := ?n, ps_mounted := mo, ps_ptys := (ps_ptys st)(p \<mapsto> pty_fresh pr win ?k mem),
      ps_index := Some (if ?n = 0 then m else m')\<rparr>)"
    using m(3) m'(1) assms(2) by (simp add: pty_create_def pty_new_def Let_def)
  then show ?thesis using m(1,2) m'(2,3) by (simp add: pts_map_def)
qed

lemma finddir_pts_map:
  assumes "\<forall>m. ps_index st = Some m \<longrightarrow> hm_ok m" "ps_index st \<noteq> None" "is_digits name" "name \<noteq> []"
  shows "finddir_pty name st = (case pts_map st (of_nat (dec_value name)) of None \<Rightarrow> Some NULL
    | Some p \<Rightarrow> if p = NULL then Some NULL else map_option pt_slave (ps_ptys st p))"
proof -
  have "pty_number name 0 = Some (of_nat (dec_value name))" using pty_number_value [OF assms(3), of 0] by (simp add: dec_value_def)
  moreover obtain m where "ps_index st = Some m" "hm_ok m" using assms(1,2) by auto
  ultimately show ?thesis using assms(4) imap.get_law [of m]
    by (auto simp: finddir_pty_def pts_map_def or_null_def map_conv_bind_option comp_def split: option.splits)
qed

section \<open>The lives of terminals and their ends\<close>

text \<open>
  The index lists exactly the terminals that have a number, the terminal of a process exists, and the node of an end is there
  exactly until that end is closed, which does not happen to both ends of a terminal that exists.
\<close>

definition table_ok :: "pts \<Rightarrow> bool" where
  "table_ok st \<longleftrightarrow> (\<forall>m. ps_index st = Some m \<longrightarrow> hm_ok m) \<and> ps_ptys st NULL = None \<and>
     (\<forall>n p. pts_map st n = Some p \<longleftrightarrow> n \<noteq> 0 \<and> (\<exists>pt. ps_ptys st p = Some pt \<and> pt_name pt = n)) \<and>
     (\<forall>q. ps_proc_pty st q = NULL \<or> ps_ptys st (ps_proc_pty st q) \<noteq> None)"

definition ends_ok :: "pty_t \<Rightarrow> bool" where
  "ends_ok pt \<longleftrightarrow> (pt_slave_node pt = None \<longleftrightarrow> slave_closed pt) \<and> (pt_master_node pt = None \<longleftrightarrow> master_closed pt) \<and>
     \<not> (slave_closed pt \<and> master_closed pt)"

definition pts_ok :: "pts \<Rightarrow> bool" where
  "pts_ok st \<longleftrightarrow> table_ok st \<and> (\<forall>p pt. ps_ptys st p = Some pt \<longrightarrow> ends_ok pt)"

text \<open>An operation at an end leaves the number, the pointers, and the lives of the two nodes as they are.\<close>

definition same_ends :: "pty_t \<Rightarrow> pty_t \<Rightarrow> bool" where
  "same_ends pt pt' \<longleftrightarrow> pt_name pt' = pt_name pt \<and> pt_slave pt' = pt_slave pt \<and> slave_closed pt' = slave_closed pt \<and> master_closed pt' = master_closed pt \<and>
     map_option n_refcount (pt_slave_node pt') = map_option n_refcount (pt_slave_node pt) \<and>
     map_option n_refcount (pt_master_node pt') = map_option n_refcount (pt_master_node pt)"

text \<open>
  What can happen to the table: a new terminal at an unused address with an unused number, an end that is opened once more, a control
  request, an end that someone closes who holds it open, and any other operation at an end.
\<close>

inductive pts_step :: "pts \<Rightarrow> pts \<Rightarrow> bool" where
  create: "p \<noteq> NULL \<Longrightarrow> ps_ptys st p = None \<Longrightarrow> pts_map st (scast (ps_counter st + 1)) = None \<Longrightarrow>
    pty_create pr win p mem st = Some (r, st') \<Longrightarrow> pts_step st st'"
| opens: "open_end master p st = Some st' \<Longrightarrow> pts_step st st'"
| request: "p \<noteq> NULL \<Longrightarrow> ioctl_pty pty_driver pr leader is_master p req a st = Some (r, out, st') \<Longrightarrow> pts_step st st'"
| closes: "ps_ptys st p = Some pt \<Longrightarrow> end_node master pt = Some n \<Longrightarrow> 0 < n_refcount n \<Longrightarrow> close_end master p st = Some st' \<Longrightarrow> pts_step st st'"
| other: "ps_ptys st p = Some pt \<Longrightarrow> same_ends pt pt' \<Longrightarrow> pts_step st (st\<lparr>ps_ptys := (ps_ptys st)(p \<mapsto> pt')\<rparr>)"

lemma table_ok_update:
  assumes "table_ok st" "ps_ptys st p = Some pt" "pt_name pt' = pt_name pt"
  shows "table_ok (st\<lparr>ps_ptys := (ps_ptys st)(p \<mapsto> pt')\<rparr>)"
  using assms by (auto simp: table_ok_def pts_map_def)

lemma scast_zero: "(scast (w :: u32) :: u64) = 0 \<longleftrightarrow> w = 0"
proof -
  have "sint (scast w :: u64) = sint w" by (simp add: sint_up_scast is_up)
  then show ?thesis using signed_word_eqI [of w 0] by (metis scast_0 sint_0)
qed

lemma table_ok_create:
  assumes "table_ok st" "p \<noteq> NULL" "ps_ptys st p = None" "pts_map st (scast (ps_counter st + 1)) = None" "pty_create pr win p mem st = Some (r, st')"
  shows "table_ok st'"
proof -
  let ?n = "ps_counter st + 1" and ?k = "scast (ps_counter st + 1) :: u64"
  have "\<forall>m. ps_index st = Some m \<longrightarrow> hm_ok m" using assms(1) by (simp add: table_ok_def)
  note e = pty_create_effect [OF this assms(2), of pr win mem]
  have st': "ps_ptys st' = (ps_ptys st)(p \<mapsto> pty_fresh pr win ?k mem)" "\<forall>m. ps_index st' = Some m \<longrightarrow> hm_ok m" "ps_proc_pty st' = ps_proc_pty st"
      "pts_map st' = (if ?n = 0 then pts_map st else (pts_map st)(?k \<mapsto> p))"
    using e unfolding assms(5) option.inject prod.inject by blast+
  have nm: "pt_name (pty_fresh pr win ?k mem) = ?k" by (simp add: pty_fresh_def)
  have iff: "pts_map st n = Some q \<longleftrightarrow> n \<noteq> 0 \<and> (\<exists>pt. ps_ptys st q = Some pt \<and> pt_name pt = n)" for n q
    using assms(1) by (simp add: table_ok_def)
  have nul: "ps_ptys st' NULL = None" using assms(1,2) unfolding st'(1) by (simp add: table_ok_def)
  have "(if b then pts_map st else (pts_map st)(k \<mapsto> p)) n = Some q \<longleftrightarrow> n \<noteq> 0 \<and> (\<exists>pt. ((ps_ptys st)(p \<mapsto> pt0)) q = Some pt \<and> pt_name pt = n)"
    if "pts_map st k = None" "pt_name pt0 = k" "b \<longleftrightarrow> k = 0" for b k pt0 n q
    using iff [of n q] assms(3) that by auto
  then have "pts_map st' n = Some q \<longleftrightarrow> n \<noteq> 0 \<and> (\<exists>pt. ps_ptys st' q = Some pt \<and> pt_name pt = n)" for n q
    unfolding st'(1,4) using assms(4) nm scast_zero [symmetric] by blast
  moreover have "ps_proc_pty st' q = NULL \<or> ps_ptys st' (ps_proc_pty st' q) \<noteq> None" for q
    using assms(1) unfolding st'(1,3) by (simp add: table_ok_def)
  ultimately show ?thesis using st'(2) nul by (simp add: table_ok_def)
qed

lemma pty_teardown_ok:
  assumes "table_ok st" "ps_ptys st p = Some pt"
  shows "\<exists>st'. pty_teardown p st = Some st' \<and> table_ok st' \<and> ps_ptys st' = (ps_ptys st)(p := None)"
proof -
  have iff: "pts_map st n = Some q \<longleftrightarrow> n \<noteq> 0 \<and> (\<exists>pt. ps_ptys st q = Some pt \<and> pt_name pt = n)" for n q
    using assms(1) by (simp add: table_ok_def)
  have proc: "ps_proc_pty st q = NULL \<or> ps_ptys st (ps_proc_pty st q) \<noteq> None" for q using assms(1) by (simp add: table_ok_def)
  have nul: "p \<noteq> NULL" "ps_ptys st NULL = None" using assms by (auto simp: table_ok_def)
  show ?thesis
  proof (cases "pt_name pt = 0")
    case True
    have "pts_map st n = Some q \<longleftrightarrow> n \<noteq> 0 \<and> (\<exists>pt. ((ps_ptys st)(p := None)) q = Some pt \<and> pt_name pt = n)" for n q
      using iff [of n q] assms(2) True by auto
    then show ?thesis using True assms proc by (auto simp: pty_teardown_def process_erase_field_def table_ok_def pts_map_def Let_def)
  next
    case False
    then have mp: "pts_map st (pt_name pt) = Some p" using iff assms(2) by blast
    then obtain m where m: "ps_index st = Some m" "hm_ok m" "hm_abs m (pt_name pt) = Some p" "pts_map st = hm_abs m"
      using assms(1) by (cases "ps_index st") (auto simp: pts_map_def table_ok_def)
    then obtain m' where m': "hashmap_remove m (pt_name pt) = Some (m', p)" "hm_ok m'" "hm_abs m' = (hm_abs m)(pt_name pt := None)"
      using hashmap_remove_abs [OF m(2), of "pt_name pt"] by (auto simp: or_null_def)
    have "hm_abs m' n = Some q \<longleftrightarrow> n \<noteq> 0 \<and> (\<exists>pt. ((ps_ptys st)(p := None)) q = Some pt \<and> pt_name pt = n)" for n q
      using iff [of n q] iff [of n p] mp assms(2) m(4) m'(3) by auto
    then show ?thesis
      using False assms(2) m(1) m'(1,2) proc nul by (auto simp: pty_teardown_def process_erase_field_def table_ok_def pts_map_def Let_def)
  qed
qed

lemma same_ends_refl [simp]: "same_ends pt pt"
  by (simp add: same_ends_def)

lemma same_ends_ok: "same_ends pt pt' \<Longrightarrow> ends_ok pt \<Longrightarrow> ends_ok pt'"
  by (cases "pt_slave_node pt"; cases "pt_master_node pt") (auto simp: same_ends_def ends_ok_def)

lemma pty_write_in_ends: "pty_write_in pr c pt = Some (n, pt') \<Longrightarrow> same_ends pt pt'"
  by (auto simp: pty_write_in_def same_ends_def case_prod_beta Let_def split: bind_splits io_result.splits)

lemma same_ends_trans: "same_ends a b \<Longrightarrow> same_ends b c \<Longrightarrow> same_ends a c"
  by (simp add: same_ends_def)

lemma dump_loop_ends: "dump_loop pty_driver pr j k pt = Some (n, pt') \<Longrightarrow> same_ends pt pt'"
proof (induction k arbitrary: j pt n)
  case (Suc k)
  from Suc.prems obtain w p1 where p1: "pty_write_in pr (canon_buffer pt ! j) pt = Some (w, p1)"
      "(if w < 0 then Some (w, p1) else dump_loop pty_driver pr (Suc j) k (p1\<lparr>canon_buflen := k\<rparr>)) = Some (n, pt')"
    by (auto simp: chk_def pty_driver_def split: if_splits bind_splits)
  note e = pty_write_in_ends [OF p1(1)]
  have "same_ends pt (p1\<lparr>canon_buflen := k\<rparr>)" using e by (simp add: same_ends_def)
  then show ?case using p1(2) e Suc.IH [of "Suc j" "p1\<lparr>canon_buflen := k\<rparr>" n] by (auto split: if_splits intro: same_ends_trans)
qed simp

lemma pty_ioctl_ends: "pty_ioctl pty_driver pr b req a pt = Some (r, out, pt') \<Longrightarrow> same_ends pt pt'"
  unfolding pty_ioctl_def
  by (auto simp: Let_def group_send_signal_def clear_input_buffer_def dump_input_buffer_def same_ends_def
      dest: dump_loop_ends [unfolded same_ends_def] split: if_splits bind_splits)

lemma pts_ok_update:
  assumes "pts_ok st" "ps_ptys st p = Some pt" "pt_name pt' = pt_name pt" "ends_ok pt'"
  shows "pts_ok (st\<lparr>ps_ptys := (ps_ptys st)(p \<mapsto> pt')\<rparr>)"
  using assms table_ok_update [of st p pt pt'] by (auto simp: pts_ok_def)

lemma pts_ok_create:
  assumes "pts_ok st" "p \<noteq> NULL" "ps_ptys st p = None" "pts_map st (scast (ps_counter st + 1)) = None" "pty_create pr win p mem st = Some (r, st')"
  shows "pts_ok st'"
proof -
  have t: "table_ok st" using assms(1) by (simp add: pts_ok_def)
  then have "\<forall>m. ps_index st = Some m \<longrightarrow> hm_ok m" by (simp add: table_ok_def)
  from pty_create_effect [OF this assms(2), of pr win mem] assms(5)
  have "ps_ptys st' = (ps_ptys st)(p \<mapsto> pty_fresh pr win (scast (ps_counter st + 1)) mem)" by auto
  moreover have "ends_ok (pty_fresh pr win (scast (ps_counter st + 1)) mem)" by (simp add: ends_ok_def pty_fresh_def)
  ultimately show ?thesis using assms(1) table_ok_create [OF t assms(2-5)] by (auto simp: pts_ok_def)
qed

lemma open_end_ok:
  assumes "pts_ok st" "open_end master p st = Some st'"
  shows "pts_ok st'"
proof -
  obtain pt n where pt: "ps_ptys st p = Some pt" "end_node master pt = Some n" using assms(2) by (auto simp: open_end_def split: bind_splits)
  then have "ends_ok pt" using assms(1) by (simp add: pts_ok_def)
  then have "ends_ok (set_end master (Some n') pt)" for n' using pt(2) by (cases master) (auto simp: ends_ok_def set_end_def end_node_def)
  then show ?thesis using pt assms(2) pts_ok_update [OF assms(1) pt(1)] by (auto simp: open_end_def set_end_def Let_def)
qed

lemma hang_up_ends: "same_ends pt (hang_up pt)"
  by (simp add: hang_up_def session_send_signal_def same_ends_def case_prod_beta Let_def)

text \<open>Closing the last reference to an end: what the close method leaves, and then the node is freed.\<close>

definition shut_end :: "bool \<Rightarrow> pty_t \<Rightarrow> pty_t" where
  "shut_end master pt = (if master then (hang_up pt)\<lparr>master_closed := True\<rparr> else pt\<lparr>slave_closed := True\<rparr>)"

lemma shut_end_sel:
  "pt_name (shut_end master pt) = pt_name pt" "slave_closed (shut_end master pt) = (slave_closed pt \<or> \<not> master)"
  "master_closed (shut_end master pt) = (master_closed pt \<or> master)"
  "pt_slave_node (shut_end master pt) = None \<longleftrightarrow> pt_slave_node pt = None" "pt_master_node (shut_end master pt) = None \<longleftrightarrow> pt_master_node pt = None"
  using hang_up_ends [of pt] by (auto simp: shut_end_def same_ends_def)

lemma close_method:
  assumes "table_ok st" "ps_ptys st p = Some pt"
  shows "\<exists>st'. (if master then close_pty_master p st else close_pty_slave p st) = Some st' \<and> table_ok st' \<and>
    ps_ptys st' = (ps_ptys st)(p := if slave_closed (shut_end master pt) \<and> master_closed (shut_end master pt) then None else Some (shut_end master pt))"
proof -
  let ?pt = "shut_end master pt"
  let ?st = "st\<lparr>ps_ptys := (ps_ptys st)(p \<mapsto> ?pt)\<rparr>"
  have "table_ok ?st" by (rule table_ok_update [OF assms]) (simp add: shut_end_sel)
  from pty_teardown_ok [OF this, of p ?pt] obtain st' where
    t: "pty_teardown p ?st = Some st'" "table_ok st'" "ps_ptys st' = (ps_ptys ?st)(p := None)" by auto
  have "(if master then close_pty_master p st else close_pty_slave p st) =
      (if slave_closed ?pt \<and> master_closed ?pt then pty_teardown p ?st else Some ?st)"
    using assms(2) shut_end_sel [of master pt] by (cases master) (simp_all add: close_pty_master_def close_pty_slave_def shut_end_def Let_def)
  then show ?thesis using t \<open>table_ok ?st\<close>
    by (cases "slave_closed ?pt \<and> master_closed ?pt") (simp_all only: if_True if_False, auto)
qed

lemma close_end_ok:
  assumes "pts_ok st" "ps_ptys st p = Some pt" "end_node master pt = Some n" "0 < n_refcount n"
  shows "\<exists>st'. close_end master p st = Some st' \<and> pts_ok st'"
proof -
  let ?n = "n\<lparr>n_refcount := n_refcount n - 1\<rparr>"
  let ?pt = "set_end master (Some ?n) pt" 
  let ?st = "st\<lparr>ps_ptys := (ps_ptys st)(p \<mapsto> ?pt)\<rparr>"
  have e: "ends_ok pt" using assms(1,2) by (simp add: pts_ok_def)
  then have e': "ends_ok ?pt" using assms(3) by (cases master) (auto simp: ends_ok_def set_end_def end_node_def)
  have nm: "pt_name ?pt = pt_name pt" by (simp add: set_end_def)
  note ok = pts_ok_update [OF assms(1,2) nm e']
  show ?thesis
  proof (cases "n_refcount n - 1 = 0")
    case False
    then show ?thesis using ok assms(2-4) by (simp add: close_end_def Let_def)
  next
    case True
    have tb: "table_ok ?st" "ps_ptys ?st p = Some ?pt" using ok by (simp_all add: pts_ok_def)
    from close_method [OF tb, of master] obtain st' where
      st': "(if master then close_pty_master p ?st else close_pty_slave p ?st) = Some st'" "table_ok st'"
        "ps_ptys st' = (ps_ptys ?st)(p := if slave_closed (shut_end master ?pt) \<and> master_closed (shut_end master ?pt) then None else Some (shut_end master ?pt))"
      by blast
    let ?fin = "st'\<lparr>ps_ptys := (ps_ptys st')(p := map_option (set_end master None) (ps_ptys st' p))\<rparr>"
    have c: "close_end master p st = Some ?fin" unfolding close_end_def Let_def assms(2) Option.bind.simps assms(3)
      using True assms(4) st'(1) by (simp del: fun_upd_apply cong del: if_weak_cong)
    have "ends_ok (set_end master None (shut_end master ?pt))" if "\<not> (slave_closed (shut_end master ?pt) \<and> master_closed (shut_end master ?pt))"
      using e' that shut_end_sel [of master ?pt] by (cases master) (auto simp: ends_ok_def set_end_def)
    moreover have "pts_ok ?fin" if "ps_ptys st' p = None"
    proof -
      have "?fin = st'" using that by (simp add: fun_upd_idem)
      moreover have "pts_ok st'" using st'(2,3) ok that by (auto simp: pts_ok_def split: if_splits)
      ultimately show ?thesis by (simp only:)
    qed
    moreover have "table_ok ?fin" if "ps_ptys st' p = Some pt1" for pt1
      using table_ok_update [OF st'(2) that, of "set_end master None pt1"] that by (simp add: set_end_def)
    ultimately show ?thesis using c st'(3) ok by (cases "ps_ptys st' p") (auto simp: pts_ok_def split: if_splits)
  qed
qed

lemma ioctl_pty_ok:
  assumes "pts_ok st" "p \<noteq> NULL" "ioctl_pty pty_driver pr leader b p req a st = Some (r, out, st')"
  shows "pts_ok st'"
proof -
  obtain pt pt' where pt: "ps_ptys st p = Some pt" "pty_ioctl pty_driver pr b req a pt = Some (r, out, pt')"
      "st' = (let st = st\<lparr>ps_ptys := (ps_ptys st)(p \<mapsto> pt')\<rparr> in if out = Controlling then st\<lparr>ps_proc_pty := (ps_proc_pty st)(leader := p)\<rparr> else st)"
    using assms(3) by (auto simp: ioctl_pty_def Let_def split: bind_splits)
  note e = pty_ioctl_ends [OF pt(2)]
  have "ends_ok pt'" using same_ends_ok [OF e] assms(1) pt(1) by (simp add: pts_ok_def)
  then have "pts_ok (st\<lparr>ps_ptys := (ps_ptys st)(p \<mapsto> pt')\<rparr>)" using e by (intro pts_ok_update [OF assms(1) pt(1)]) (simp_all add: same_ends_def)
  then show ?thesis unfolding pt(3) by (auto simp: Let_def pts_ok_def table_ok_def pts_map_def)
qed

lemma pts_step_ok: "pts_step st st' \<Longrightarrow> pts_ok st \<Longrightarrow> pts_ok st'"
proof (induction rule: pts_step.induct)
  case (closes st p pt master n st')
  then show ?case using close_end_ok [of st p pt master n] by auto
next
  case (other st p pt pt')
  then have "ends_ok pt'" using same_ends_ok by (auto simp: pts_ok_def)
  then show ?case using other by (intro pts_ok_update) (simp_all add: same_ends_def)
qed (blast intro: pts_ok_create ioctl_pty_ok open_end_ok)+

lemma pts_init_ok: "pts_ok pts_init"
  by (simp add: pts_ok_def table_ok_def pts_init_def pts_map_def)

lemma pts_reachable_ok: "pts_step\<^sup>*\<^sup>* pts_init st \<Longrightarrow> pts_ok st"
  by (induction rule: rtranclp_induct) (use pts_init_ok pts_step_ok in blast)+

text \<open>
  Property C30.  A new terminal is found: in a table that is as the operations leave it, \<^verbatim>\<open>pty_create\<close> at an unused address makes a terminal
  with the next number, and looking up a name of decimal digits in the directory then gives its slave exactly for its number, and what it
  gave before otherwise.
\<close>

theorem pty_create_finds:
  assumes "pts_ok st" "p \<noteq> NULL" "ps_ptys st p = None" "ps_counter st + 1 \<noteq> 0" "is_digits name" "name \<noteq> []"
  shows "\<exists>st'. pty_create pr win p mem st = Some (0, st') \<and> ps_ptys st' p = Some (pty_fresh pr win (scast (ps_counter st + 1)) mem) \<and>
    finddir_pty name st' = (if of_nat (dec_value name) = (scast (ps_counter st + 1) :: u64) then Some (tm_slave mem)
      else if ps_index st = None then Some NULL else finddir_pty name st)"
proof -
  have t: "table_ok st" "\<forall>m. ps_index st = Some m \<longrightarrow> hm_ok m" using assms(1) by (simp_all add: pts_ok_def table_ok_def)
  obtain st' where st': "pty_create pr win p mem st = Some (0, st')" "ps_ptys st' = (ps_ptys st)(p \<mapsto> pty_fresh pr win (scast (ps_counter st + 1)) mem)"
      "ps_index st' \<noteq> None" "\<forall>m. ps_index st' = Some m \<longrightarrow> hm_ok m" "pts_map st' = (pts_map st)(scast (ps_counter st + 1) \<mapsto> p)"
    using pty_create_effect [OF t(2) assms(2), of pr win mem] assms(4) by auto
  have "ps_index st = None \<Longrightarrow> pts_map st k = None" for k by (simp add: pts_map_def)
  moreover have "q \<noteq> p" if "pts_map st k = Some q" for k q using t(1) that assms(3) by (auto simp: table_ok_def)
  moreover have "pt_slave (pty_fresh pr win (scast (ps_counter st + 1)) mem) = tm_slave mem" by (simp add: pty_fresh_def)
  ultimately show ?thesis
    using st' assms(2) finddir_pts_map [OF st'(4,3) assms(5,6)] finddir_pts_map [OF t(2) _ assms(5,6)]
    by (auto split: option.splits)
qed

theorem pty_create_finds_witness:
  "\<exists>st. pty_create ex_tty_proc None 0x5000 ex_tty_memory (pts_init\<lparr>ps_counter := 11\<rparr>) = Some (0, st) \<and> finddir_pty [0x31, 0x32] st = Some 0x7000"
proof -
  have "dec_value [0x31, 0x32] = 12" "is_digits [0x31, 0x32]" by (simp_all add: dec_value_def is_digits_def)
  moreover have "pts_ok (pts_init\<lparr>ps_counter := 11\<rparr>)" by (simp add: pts_ok_def table_ok_def pts_init_def pts_map_def)
  ultimately show ?thesis
    using pty_create_finds [of "pts_init\<lparr>ps_counter := 11\<rparr>" "0x5000" "[0x31, 0x32]" ex_tty_proc None ex_tty_memory]
    by (auto simp: pts_init_def ex_tty_memory_def)
qed

lemma finddir_live:
  assumes "table_ok st" "ps_index st \<noteq> None"
  shows "\<exists>s. finddir_pty name st = Some s \<and> (s = NULL \<or> (\<exists>p pt. ps_ptys st p = Some pt \<and> pt_slave pt = s))"
proof -
  obtain m where m: "ps_index st = Some m" "hm_ok m" "pts_map st = hm_abs m" using assms by (auto simp: table_ok_def pts_map_def)
  have live: "\<exists>pt. ps_ptys st p = Some pt" if "hm_abs m c = Some p" for c p
    using assms(1) that m(3) by (auto simp: table_ok_def)
  show ?thesis
  proof (cases "name = [] \<or> pty_number name 0 = None")
    case True
    then show ?thesis by (auto simp: finddir_pty_def)
  next
    case False
    then obtain k where k: "pty_number name 0 = Some k" "name \<noteq> []" by auto
    then show ?thesis using m(1) imap.get_law [OF m(2), of k] live [of k] by (cases "hm_abs m k") (auto simp: finddir_pty_def or_null_def, blast)
  qed
qed

text \<open>
  Property C17.  The lives of terminals and of their two nodes, whatever terminals are made, opened, controlled and closed.  A name in the
  directory leads to nothing or to the slave pointer of a terminal that exists, and the terminal of every process exists or is none.
  The node of an end exists exactly until that end was closed, one of the two exists as long as the terminal, and
  closing an end that is held open never faults.  The slave pointer is not cleared when the slave is closed first: the
  directory still gives it, but then opening what was found and every write to the master use the freed node.
\<close>

theorem pty_lifetimes:
  assumes "pts_step\<^sup>*\<^sup>* pts_init st"
  shows "(ps_index st \<noteq> None \<longrightarrow> (\<exists>s. finddir_pty name st = Some s \<and> (s = NULL \<or> (\<exists>p pt. ps_ptys st p = Some pt \<and> pt_slave pt = s)))) \<and>
    (ps_proc_pty st q = NULL \<or> ps_ptys st (ps_proc_pty st q) \<noteq> None) \<and>
    (ps_ptys st p = Some pt \<longrightarrow>
       (pt_slave_node pt = None \<longleftrightarrow> slave_closed pt) \<and> (pt_master_node pt = None \<longleftrightarrow> master_closed pt) \<and>
       (pt_slave_node pt \<noteq> None \<or> pt_master_node pt \<noteq> None) \<and>
       (\<forall>n. end_node master pt = Some n \<and> 0 < n_refcount n \<longrightarrow> close_end master p st \<noteq> None) \<and>
       (slave_closed pt \<longrightarrow> open_end False p st = None \<and> write_pty_master D pr (c # cs) pt = None))"
proof -
  note ok = pts_reachable_ok [OF assms]
  then have t: "table_ok st" and e: "ps_ptys st p = Some pt \<Longrightarrow> ends_ok pt" by (simp_all add: pts_ok_def)
  have "close_end master p st \<noteq> None" if "ps_ptys st p = Some pt" "end_node master pt = Some n" "0 < n_refcount n" for n
    using close_end_ok [OF ok that] by auto
  moreover have "open_end False p st = None \<and> write_pty_master D pr (c # cs) pt = None" if "ps_ptys st p = Some pt" "slave_closed pt"
    using e that by (simp add: ends_ok_def open_end_def end_node_def write_pty_master_def tty_input_process_def)
  ultimately show ?thesis using finddir_live [OF t, of name] t e by (auto simp: table_ok_def ends_ok_def)
qed

text \<open>The first terminal is opened at both ends and its slave closed; the directory still has it.\<close>

theorem pty_lifetimes_witness:
  "\<exists>st pt. pts_step\<^sup>*\<^sup>* pts_init st \<and> ps_ptys st 0x5000 = Some pt \<and> finddir_pty [0x31] st = Some 0x7000 \<and> pt_slave pt = 0x7000 \<and>
     pt_slave_node pt = None \<and> open_end False 0x5000 st = None \<and> write_pty_master pty_driver ex_tty_proc [0x61] pt = None \<and>
     close_end True 0x5000 st \<noteq> None"
proof -
  let ?f = "pty_fresh ex_tty_proc None 1 ex_tty_memory"
  obtain st where st: "pty_create ex_tty_proc None 0x5000 ex_tty_memory pts_init = Some (0, st)" "ps_index st \<noteq> None" "\<forall>m. ps_index st = Some m \<longrightarrow> hm_ok m"
      "pts_map st = (pts_map pts_init)(1 \<mapsto> 0x5000)" "ps_ptys st = [0x5000 \<mapsto> ?f]"
    using pty_create_effect [of pts_init "0x5000" ex_tty_proc None ex_tty_memory] by (auto simp: pts_init_def)
  have "pts_step pts_init st" by (rule pts_step.create [OF _ _ _ st(1)]) (simp_all add: pts_init_def pts_map_def)
  moreover define f1 where "f1 = ?f\<lparr>pt_master_node := Some ((pty_master_create ex_tty_proc)\<lparr>n_refcount := 1\<rparr>)\<rparr>"
  define st1 where "st1 = st\<lparr>ps_ptys := [0x5000 \<mapsto> f1]\<rparr>"
  have "open_end True 0x5000 st = Some st1"
    by (simp add: open_end_def st(5) end_node_def set_end_def st1_def f1_def pty_fresh_def pty_master_create_def Let_def)
  then have "pts_step st st1" by (rule pts_step.opens)
  moreover define f2 where "f2 = f1\<lparr>pt_slave_node := Some ((pty_slave_create ex_tty_proc)\<lparr>n_refcount := 1\<rparr>)\<rparr>"
  define st2 where "st2 = st\<lparr>ps_ptys := [0x5000 \<mapsto> f2]\<rparr>"
  have "open_end False 0x5000 st1 = Some st2"
    by (simp add: open_end_def st1_def end_node_def set_end_def st2_def f2_def f1_def pty_fresh_def pty_slave_create_def Let_def)
  then have "pts_step st1 st2" by (rule pts_step.opens)
  moreover define f3 where "f3 = f2\<lparr>slave_closed := True, pt_slave_node := None\<rparr>"
  define st3 where "st3 = st\<lparr>ps_ptys := [0x5000 \<mapsto> f3]\<rparr>"
  have "close_end False 0x5000 st2 = Some st3"
    by (simp add: close_end_def st2_def end_node_def set_end_def st3_def f3_def f2_def f1_def pty_fresh_def close_pty_slave_def pty_slave_create_def Let_def)
  then have "pts_step st2 st3"
    by (rule pts_step.closes [of _ _ f2 _ "(pty_slave_create ex_tty_proc)\<lparr>n_refcount := 1\<rparr>", rotated 3]) (simp_all add: st2_def f2_def end_node_def)
  ultimately have reach: "pts_step\<^sup>*\<^sup>* pts_init st3" by auto
  have "finddir_pty [0x31] st3 = Some 0x7000"
    using finddir_pts_map [of st3 "[0x31]"] st(2-4)
    by (simp add: st3_def pts_map_def is_digits_def dec_value_def f3_def f2_def f1_def pty_fresh_def ex_tty_memory_def)
  moreover have "ps_ptys st3 0x5000 = Some f3" "slave_closed f3" "pt_slave_node f3 = None" "pt_slave f3 = 0x7000"
      "end_node True f3 = Some ((pty_master_create ex_tty_proc)\<lparr>n_refcount := 1\<rparr>)"
    by (simp_all add: st3_def f3_def f2_def f1_def end_node_def pty_fresh_def ex_tty_memory_def)
  ultimately show ?thesis
    using reach pty_lifetimes [OF reach, of "[0x31]" 0 "0x5000" f3 True pty_driver ex_tty_proc "0x61" "[]"] by auto
qed

end
