(* ===== verification/Spec2Isabelle.thy ===== *)
theory Spec2Isabelle
  imports Klist Kstring Khashmap Ktree Kring Kpipe Kpath Kvfs Kgzip Kwire Knet Kipv4 Ksocket Ktmpfs Kprintf Ktty
begin

text \<open>
  A verification development for the portable part of the RazionOS kernel: its data structures and string
  functions, the virtual file system with the memory file system, pipes and pseudo terminals, the network
  stack from Ethernet frames to TCP, formatted output, and the gzip decompressor of the boot archive.  File
  names are relative to \<^verbatim>\<open>src/\<close>; headers are those of \<^verbatim>\<open>base/usr/include/kernel\<close>.

  \<^bold>\<open>The parts and how they meet.\<close>  \<open>Razion_Prelude\<close> has the machine types, the error numbers, and generic facts
  on lists and words.  The components build on it in this order:

  \<^item> \<open>Klist\<close> (\<^verbatim>\<open>kernel/misc/list.c\<close>) and \<open>Ktree\<close> (\<^verbatim>\<open>kernel/misc/tree.c\<close>): linked lists and trees over an explicit heap
    of nodes and headers.  The lists are the queues of the kernel; trees hold processes and mount points.
  \<^item> \<open>Kstring\<close> (\<^verbatim>\<open>kernel/misc/string.c\<close>): memory and string functions over a byte-addressed memory.
  \<^item> \<open>Khashmap\<close> (\<^verbatim>\<open>kernel/misc/hashmap.c\<close>): hash maps with string and integer keys, on which the tables of file system
    types, interfaces, ports, hardware addresses and terminals rest.
  \<^item> \<open>Kring\<close> (\<^verbatim>\<open>kernel/misc/ringbuffer.c\<close>, \<^verbatim>\<open>kernel/sys/mutex.c\<close>): blocking ring buffers and the sleeping mutex; \<open>Kpipe\<close>
    (\<^verbatim>\<open>kernel/vfs/pipe.c\<close>, \<^verbatim>\<open>kernel/vfs/unixpipe.c\<close>): legacy pipes and Unix pipes, the latter over ring buffers.
  \<^item> \<open>Kpath\<close> and \<open>Kvfs\<close> (\<^verbatim>\<open>kernel/vfs/vfs.c\<close>): path strings and mount points; nodes, permissions, reference counts,
    opening a path and the operations on names.  \<open>Ktmpfs\<close> (\<^verbatim>\<open>kernel/vfs/tmpfs.c\<close>) is the memory file system.
  \<^item> \<open>Kprintf\<close> (\<^verbatim>\<open>kernel/misc/kprintf.c\<close>): formatted output; \<open>Ktty\<close> (\<^verbatim>\<open>kernel/vfs/tty.c\<close>, with \<^verbatim>\<open>open_fs\<close> and \<^verbatim>\<open>close_fs\<close> of
    \<^verbatim>\<open>vfs.c\<close> and two functions of \<^verbatim>\<open>kernel/sys/process.c\<close>): pseudo terminals over two ring buffers each.
  \<^item> \<open>Kwire\<close> (the headers \<^verbatim>\<open>net/netif.h\<close>, \<^verbatim>\<open>net/eth.h\<close>, \<^verbatim>\<open>net/ipv4.h\<close> and the checksums of \<^verbatim>\<open>kernel/net/ipv4.c\<close>), \<open>Knet\<close>
    (\<^verbatim>\<open>netif.c\<close>, \<^verbatim>\<open>arp.c\<close>, sending in \<^verbatim>\<open>eth.c\<close>, the queues of \<^verbatim>\<open>socket.c\<close>), \<open>Kipv4\<close> (\<^verbatim>\<open>ipv4.c\<close>: ICMP, UDP and TCP), and
    \<open>Ksocket\<close> (receiving in \<^verbatim>\<open>eth.c\<close>, \<^verbatim>\<open>loop.c\<close>, and the socket calls of \<^verbatim>\<open>socket.c\<close>).
  \<^item> \<open>Kgzip\<close> (\<^verbatim>\<open>kernel/misc/gzip.c\<close>): the DEFLATE and gzip decompressor.

  \<^bold>\<open>How the code is represented.\<close>  A structure of the source is a record, and a pointer an \<open>addr\<close> (64 bits, \<open>NULL\<close> is 0)
  into a store where identity, sharing or freeing matters.  A function that may fault has a result of type \<open>'a option\<close>:
  \<open>None\<close> is an access outside an object, to freed memory or through a null pointer, a failed assertion, or not
  returning.  Error numbers are negative integers as in the code.  Integers keep their width where the code's arithmetic
  can wrap: \<open>u8\<close>, \<open>u16\<close>, \<open>u32\<close> and \<open>u64\<close> are words, and \<^verbatim>\<open>char\<close> is signed where its sign is used.  \<^verbatim>\<open>#define\<close> constants
  are abbreviations.  What a function pointer does is an argument: the methods of a node (\<open>fs_methods\<close>), the write method of
  a network driver (\<open>net_env\<close>), the characters in and out of a terminal (\<open>tty_driver\<close>), the comparator of a tree; what
  the proofs assume of them is a named predicate with an instance that satisfies it.  Addresses returned by \<^verbatim>\<open>malloc\<close>,
  free page frames, the contents of fresh memory, the clock and the calling process are arguments too.

  \<^bold>\<open>Concurrency.\<close>  What happens under a lock is one step.  A sleep uses the next element of a list of wake-ups, which says
  whether it was interrupted and what the rest of the system did meanwhile; a property that quantifies over that list
  covers every such interleaving.  The Unix pipe has a step relation of its own in which calls that sleep are part of the state
  and go on later, one pass at a time, and in which ends may be closed meanwhile.

  \<^bold>\<open>What the lemmas show.\<close>
  \<^item> Lists: every operation is specified on well-linked lists, with the rest of the heap unchanged; append and dequeue form a
    first-in first-out queue (locales \<open>kqueue\<close>, \<open>kqueue_fifo\<close>, \<open>kqueue_lifo\<close>, interpreted on the list operations).  Copying a
    non-empty list never returns.  Trees: search, counting, and the removal that hands the children to the root.
  \<^item> Strings: the word-wise \<^verbatim>\<open>strlen\<close>, \<^verbatim>\<open>memmove\<close> for every overlap and alignment, and tokenizing by \<^verbatim>\<open>strtok_r\<close>.
  \<^item> Hash maps: they implement finite maps (locale \<open>key_map\<close>, interpreted for both kinds of keys).
  \<^item> Ring buffers: a bounded byte queue (locales \<open>byte_queue\<close>, \<open>bounded_byte_queue\<close>, interpreted on rings and on legacy pipes); writes
    stay in bounds whatever happens during sleeps; the mutex excludes.  Unix pipes: no access to the freed ring as long as no end is closed
    under a call in progress, and the use after free that is possible otherwise.
  \<^item> Paths: canonical form, composition, cutting and rejoining, the search for a mount point.  Opening a path neither loses
    nor over-releases a reference.  Permissions.  The memory file system: reads return what was written, growing a file clears
    what is new, creating a name; two error properties for its negative offsets and its dangling nodes.
  \<^item> Terminals: the line discipline refines the editing of a line (locale \<open>tty_room\<close>, interpreted on the terminal's own
    functions), a line typed arrives, names lead to slaves, and the lives of terminals and their two nodes, including
    the pointer that dangles when the slave is closed first.
  \<^item> Formatting: \<^verbatim>\<open>snprintf\<close> stays in its buffer and truncates; decimal numbers read back.
  \<^item> Network: the IPv4 and TCP checksums are the Internet checksum; UDP delivery; TCP sends consecutive segments, takes segments in
    order, acknowledges them, returns the stream, and moves along the arrows of its state machine for any
    segments; a ping to the loopback address is answered through the whole stack.
  \<^item> Decompression: the Huffman decoder inverts the code of its table, and stored and fixed blocks decompress to what was encoded.

  \<^bold>\<open>Bounds and fuel.\<close>  Recursion that the code bounds is structural or has a termination proof: loops over buffers by the
  bytes that are left, \<^verbatim>\<open>kopen\<close> by the links that may still be followed and the rest of the path.  Loops that may not end are
  \<open>partial_function (option)\<close>, and where a property says that they end, it shows a result.  The loopback interface delivers within
  the call that sends; \<open>loop_env n\<close> allows \<open>n\<close> nested deliveries, and two are enough for a ping, the request and its
  reply.  A blocked call whose list of wake-ups is used up is still asleep.  A character typed on a terminal needs
  at most 18 characters of room for its echo and, when it erases, 12 for each character of the line; the properties ask
  for that much, and a fresh terminal has it for a line of 200 characters.  File operations that allocate ask for as many free
  frames as they take.

  \<^bold>\<open>Where the code is at fault.\<close>  Some properties prove a defect: the list copy that never returns, the freed ring of a pipe that was
  closed under a reader, the freed slave node that the directory of terminals still gives and that typing writes to, the
  negative offset that leaves a file, the node that outlives its file, and the sequence number zero that makes TCP take any segment.

  \<^bold>\<open>Not modelled.\<close>  Scheduling, signals, address spaces, program loading, system calls other than those on
  sockets, and everything of \<^verbatim>\<open>kernel/arch\<close> work on machine state; video, audio and the drivers in \<^verbatim>\<open>modules\<close> are the
  behaviour of devices; the other file systems appear only as methods of nodes.  The C library, the user-space libraries, the
  applications, the boot loader and the build tools are left out, as are, of the modelled files, the substring
  search and \<^verbatim>\<open>memsetw\<close> of \<^verbatim>\<open>string.c\<close>, and debug output.  Of \<^verbatim>\<open>memcpy\<close> and \<^verbatim>\<open>memmove\<close> the returned pointer is left out.  Creating a
  file in the memory file system is one step, although the code gives up its lock in between.  Where C leaves the
  result of an overflow undefined, as in the negation of the least number in the formatter, the model has that of the processor.
\<close>

end
